(* ===== verification/Ws_Prelude.thy ===== *)
theory Ws_Prelude
  imports Complex_Main "HOL-Library.Sublist" "HOL-Library.Multiset"
begin

section \<open>Shared vocabulary of the wshub development\<close>

text \<open>
  This theory holds what every component theory uses: the fact collections of the
  development, the model of Go's 64-bit integers and truncating division, generic facts
  on lists, finite sets and option-valued maps, and two locales that several components
  share: \<open>transition_system\<close> (reachability and invariants of a step relation) and
  \<open>bounded_queue\<close> (a Go channel with a buffer).

  Conventions: a pointer of the Go code is a \<open>nat\<close> (\<open>cref\<close> for clients,
  \<open>rref\<close> for rooms); a Go \<open>map[K]struct{}\<close> is a HOL set; a Go \<open>map[K]V\<close> is a
  partial function; the order in which Go's \<open>range\<close> visits a map is a parameter, since
  the language leaves it open.
\<close>

named_theorems frame_simps
  \<open>fields of the hub that an operation leaves alone\<close>
named_theorems trace_simps
  \<open>effects of an operation on the counters read off the trace\<close>
named_theorems registry_intros
  \<open>operations that keep the registry part of the hub\<close>

type_synonym cref = nat
type_synonym rref = nat
type_synonym bytes = "char list"

subsection \<open>Go integers\<close>

definition wrap64 :: "int \<Rightarrow> int" where
  "wrap64 x = (x + 2 ^ 63) mod 2 ^ 64 - 2 ^ 63"

definition go_div :: "int \<Rightarrow> int \<Rightarrow> int" where
  "go_div a b = sgn a * sgn b * (\<bar>a\<bar> div \<bar>b\<bar>)"

lemma wrap64_id: "- (2 ^ 63) \<le> x \<Longrightarrow> x < 2 ^ 63 \<Longrightarrow> wrap64 x = x"
  by (simp add: wrap64_def)

lemma wrap64_range: "- (2 ^ 63) \<le> wrap64 x \<and> wrap64 x < 2 ^ 63"
  by (simp add: wrap64_def)

lemma go_div_pos: "0 \<le> a \<Longrightarrow> 0 < b \<Longrightarrow> go_div a b = a div b"
  by (cases "a = 0") (auto simp: go_div_def)

subsection \<open>Lists cut into batches\<close>

text \<open>The \<open>i\<close>-th slice \<open>xs[i*b : min((i+1)*b, len(xs))]\<close> of a Go slice.\<close>

definition batch :: "nat \<Rightarrow> 'a list \<Rightarrow> nat \<Rightarrow> 'a list" where
  "batch b xs i = take b (drop (i * b) xs)"

lemma concat_batches_drop:
  "concat (map (batch b xs) [0..<n]) @ drop (n * b) xs = xs"
proof (induction n)
  case 0
  then show ?case by simp
next
  case (Suc n)
  have "batch b xs n @ drop (Suc n * b) xs = drop (n * b) xs"
    by (simp add: batch_def add.commute append_take_drop_id drop_drop [symmetric] del: drop_drop)
  with Suc show ?case by simp
qed

lemma concat_batches:
  assumes "length xs \<le> n * b"
  shows "concat (map (batch b xs) [0..<n]) = xs"
  using concat_batches_drop [of b xs n] assms by simp

lemma ceil_div_covers:
  assumes "0 < (b::nat)"
  shows "m \<le> (m + b - 1) div b * b"
proof -
  have "m + b - 1 = (m + b - 1) div b * b + (m + b - 1) mod b"
    by simp
  moreover have "(m + b - 1) mod b \<le> b - 1"
    using assms by (metis Suc_pred' less_Suc_eq_le mod_less_divisor)
  ultimately show ?thesis using assms by linarith
qed

subsection \<open>Cardinalities as Go counts\<close>

lemma int_card_remove:
  assumes "finite A" and "x \<in> A"
  shows "int (card (A - {x})) = int (card A) - 1"
  using card_Suc_Diff1 [OF assms] by linarith

lemma int_card_insert:
  assumes "finite A" and "x \<notin> A"
  shows "int (card (insert x A)) = int (card A) + 1"
  using assms by simp

subsection \<open>Transition systems\<close>

text \<open>
  The states a component can reach and the invariants of its steps. Each step relation of
  the development interprets this locale.
\<close>

inductive reach :: "('s \<Rightarrow> bool) \<Rightarrow> ('s \<Rightarrow> 's \<Rightarrow> bool) \<Rightarrow> 's \<Rightarrow> bool"
  for init step where
  reach_start: "init s \<Longrightarrow> reach init step s"
| reach_next: "reach init step s \<Longrightarrow> step s t \<Longrightarrow> reach init step t"

locale transition_system =
  fixes init :: "'s \<Rightarrow> bool"
    and step :: "'s \<Rightarrow> 's \<Rightarrow> bool"
    and inv :: "'s \<Rightarrow> bool"
  assumes inv_init: "init s \<Longrightarrow> inv s"
    and inv_step: "inv s \<Longrightarrow> step s t \<Longrightarrow> inv t"
begin

lemma reach_inv: "reach init step s \<Longrightarrow> inv s"
  by (induction rule: reach.induct) (auto intro: inv_init inv_step)

lemma steps_inv: "step\<^sup>*\<^sup>* s t \<Longrightarrow> inv s \<Longrightarrow> inv t"
  by (induction rule: rtranclp_induct) (auto intro: inv_step)

end

text \<open>
  A system of goroutines. Some steps come from outside (calls, messages, cancelled contexts); the
  \<open>internal\<close> ones are the goroutines' own. Each of those lowers \<open>work\<close>, and a state in which none
  is possible is \<open>settled\<close>: the goroutines can neither run on for ever nor block each other.
\<close>

locale settling_system = transition_system +
  fixes internal :: "'a \<Rightarrow> 'a \<Rightarrow> bool"
    and work :: "'a \<Rightarrow> nat"
    and settled :: "'a \<Rightarrow> bool"
  assumes internal_step: "internal s t \<Longrightarrow> step s t"
    and internal_work: "inv s \<Longrightarrow> internal s t \<Longrightarrow> work t < work s"
    and stuck_settled: "inv s \<Longrightarrow> \<not> (\<exists>t. internal s t) \<Longrightarrow> settled s"
begin

lemma internal_reach:
  assumes "reach init step s" and "internal\<^sup>*\<^sup>* s t"
  shows "reach init step t"
  using assms(2,1)
proof (induction rule: rtranclp_induct)
  case (step t u)
  then show ?case using reach_next [OF step(3) internal_step] by blast
qed

lemma internal_bound: "reach init step s \<Longrightarrow> (internal ^^ n) s t \<Longrightarrow> n + work t \<le> work s"
proof (induction n arbitrary: t)
  case (Suc n)
  then obtain u where u: "(internal ^^ n) s u" "internal u t" by auto
  have "reach init step u" using internal_reach [OF Suc(2)] relpowp_imp_rtranclp [OF u(1)] by blast
  with Suc u internal_work [OF reach_inv [of u] u(2)] show ?case by fastforce
qed simp

lemma settles: "reach init step s \<Longrightarrow> internal\<^sup>*\<^sup>* s t \<Longrightarrow> \<not> (\<exists>u. internal t u) \<Longrightarrow> settled t"
  using stuck_settled reach_inv internal_reach by blast

lemma settles_eventually: "reach init step s \<Longrightarrow> \<exists>t. internal\<^sup>*\<^sup>* s t \<and> settled t"
proof (induction "work s" arbitrary: s rule: less_induct)
  case less
  show ?case
  proof (cases "\<exists>t. internal s t")
    case True
    then obtain t where t: "internal s t" by blast
    then have "work t < work s" "reach init step t"
      using internal_work reach_inv less(2) internal_step by (blast intro: reach_next)+
    with less(1) obtain u where "internal\<^sup>*\<^sup>* t u" "settled u" by blast
    with t show ?thesis by (blast intro: converse_rtranclp_into_rtranclp)
  next
    case False
    then show ?thesis using stuck_settled reach_inv less(2) by blast
  qed
qed

end

text \<open>A given interleaving: the steps, as partial functions, in their order.\<close>

fun runMoves :: "('s \<Rightarrow> 's option) list \<Rightarrow> 's \<Rightarrow> 's option" where
  "runMoves [] s = Some s"
| "runMoves (f # fs) s = (case f s of None \<Rightarrow> None | Some t \<Rightarrow> runMoves fs t)"

lemma runMoves_reach:
  assumes "reach init step s" and "runMoves fs s = Some t" and "\<forall>f\<in>set fs. \<forall>u v. f u = Some v \<longrightarrow> step u v"
  shows "reach init step t"
  using assms
proof (induction fs arbitrary: s)
  case (Cons f fs)
  then obtain u where u: "f s = Some u" "runMoves fs u = Some t" by (auto split: option.splits)
  then have "reach init step u" using Cons(4) by (auto intro: reach_next [OF Cons(2)])
  then show ?case using u(2) Cons(4) by (intro Cons(1)) simp_all
qed simp

subsection \<open>Sums over numbered goroutines\<close>

lemma sum_upd:
  fixes f :: "'a \<Rightarrow> 'b::comm_monoid_add"
  assumes "w < (n::nat)"
  shows "(\<Sum>x<n. f ((g(w := v)) x)) + f (g w) = (\<Sum>x<n. f (g x)) + f v"
proof -
  have "(\<Sum>x<n. f ((g(w := v)) x)) = f v + (\<Sum>x\<in>{..<n} - {w}. f (g x))"
    using assms by (subst sum.remove [of _ w]) (auto intro!: sum.cong arg_cong2 [where f = "(+)"])
  moreover have "(\<Sum>x<n. f (g x)) = f (g w) + (\<Sum>x\<in>{..<n} - {w}. f (g x))"
    using assms by (subst sum.remove [of _ w]) auto
  ultimately show ?thesis by (simp add: ac_simps)
qed

lemma sum_upd_int:
  fixes f :: "'a \<Rightarrow> int"
  assumes "w < (n::nat)"
  shows "(\<Sum>x<n. f ((g(w := v)) x)) = (\<Sum>x<n. f (g x)) + f v - f (g w)"
  using sum_upd [OF assms, of f g v] by simp

lemma sum_lowers:
  fixes f :: "'a \<Rightarrow> nat"
  assumes "w < (n::nat)" and "f v < f (g w)"
  shows "(\<Sum>x<n. f ((g(w := v)) x)) < (\<Sum>x<n. f (g x))"
  using sum_upd [OF assms(1), of f g v] assms(2) by linarith

subsection \<open>Bounded FIFO queues\<close>

text \<open>
  A Go channel with a buffer, seen through its two non-blocking operations
  (\<open>select\<close> with a \<open>default\<close> case): a send that is refused when the buffer is full, and a
  receive that is refused when it is empty.
\<close>

datatype 'a qop = Put 'a | Get

locale bounded_queue =
  fixes content :: "'q \<Rightarrow> 'a list"
    and capacity :: "'q \<Rightarrow> nat"
    and offer :: "'a \<Rightarrow> 'q \<Rightarrow> 'q option"
    and poll :: "'q \<Rightarrow> ('a \<times> 'q) option"
  assumes offer_None: "offer x q = None \<longleftrightarrow> capacity q \<le> length (content q)"
    and offer_Some: "offer x q = Some q' \<Longrightarrow> content q' = content q @ [x] \<and> capacity q' = capacity q"
    and poll_None: "poll q = None \<longleftrightarrow> content q = []"
    and poll_Some: "poll q = Some (x, q') \<Longrightarrow> content q = x # content q' \<and> capacity q' = capacity q"
begin

text \<open>A run of operations by any number of producers and consumers: what was accepted, what was
  received, the queue at the end.\<close>

fun run :: "'a qop list \<Rightarrow> 'q \<Rightarrow> 'a list \<times> 'a list \<times> 'q" where
  "run [] q = ([], [], q)"
| "run (Put x # ops) q = (case offer x q of
      None \<Rightarrow> run ops q
    | Some q1 \<Rightarrow> (case run ops q1 of (acc, rec, q2) \<Rightarrow> (x # acc, rec, q2)))"
| "run (Get # ops) q = (case poll q of
      None \<Rightarrow> run ops q
    | Some (x, q1) \<Rightarrow> (case run ops q1 of (acc, rec, q2) \<Rightarrow> (acc, x # rec, q2)))"

lemma run_fifo:
  "run ops q = (acc, rec, q') \<Longrightarrow> content q @ acc = rec @ content q' \<and> capacity q' = capacity q"
proof (induction ops q arbitrary: acc rec rule: run.induct)
  case (1 q)
  then show ?case by simp
next
  case (2 x ops q)
  show ?case
  proof (cases "offer x q")
    case None
    with 2 show ?thesis by simp
  next
    case (Some q1)
    then obtain acc1 where "run ops q1 = (acc1, rec, q')" "acc = x # acc1"
      using 2(3) by (auto split: prod.splits)
    with 2(2) [OF Some] offer_Some [OF Some] show ?thesis by simp
  qed
next
  case (3 ops q)
  show ?case
  proof (cases "poll q")
    case None
    with 3 show ?thesis by simp
  next
    case (Some p)
    then obtain x q1 where p: "poll q = Some (x, q1)" by (cases p) auto
    then obtain rec1 where "run ops q1 = (acc, rec1, q')" "rec = x # rec1"
      using 3(3) by (auto split: prod.splits)
    with 3(2) [OF p refl] poll_Some [OF p] show ?thesis by simp
  qed
qed

lemma run_bounded:
  "run ops q = (acc, rec, q') \<Longrightarrow> length (content q) \<le> capacity q \<Longrightarrow> length (content q') \<le> capacity q'"
proof (induction ops q arbitrary: acc rec rule: run.induct)
  case (1 q)
  then show ?case by simp
next
  case (2 x ops q)
  show ?case
  proof (cases "offer x q")
    case None
    with 2 show ?thesis by simp
  next
    case (Some q1)
    have "length (content q) < capacity q" using Some offer_None [of x q] by simp
    then have "length (content q1) \<le> capacity q1" using offer_Some [OF Some] by simp
    with 2 Some show ?thesis by (auto split: prod.splits)
  qed
next
  case (3 ops q)
  show ?case
  proof (cases "poll q")
    case None
    with 3 show ?thesis by simp
  next
    case (Some p)
    then obtain x q1 where p: "poll q = Some (x, q1)" by (cases p) auto
    then have "length (content q1) \<le> capacity q1" using poll_Some [OF p] 3(4) by simp
    with 3 p show ?thesis by (auto split: prod.splits)
  qed
qed

end

end
