(* ===== verification/Ws_Errors.thy ===== *)
theory Ws_Errors
  imports Ws_Prelude
begin

section \<open>Errors (errors.go)\<close>

text \<open>
  The sentinel errors of \<open>errors.go\<close>, the errors that reach the library from outside
  (hooks, contexts, the upgrader, the adapter), and \<open>fmt.Errorf("...: %w", err)\<close>, which
  wraps an error with a prefix. A Go value of type \<open>error\<close> is a \<open>wsError option\<close>:
  \<open>None\<close> is nil. \<open>errorsIs\<close> is \<open>errors.Is\<close> on these values.
\<close>

datatype wsError =
    ErrConnectionClosed
  | ErrInvalidMessage
  | ErrSendBufferFull
  | ErrClientNotFound
  | ErrEmptyRoomName
  | ErrRoomNotFound
  | ErrAlreadyInRoom
  | ErrNotInRoom
  | ErrRoomFull
  | ErrMaxConnectionsReached
  | ErrMaxRoomsReached
  | ErrRateLimitExceeded
  | ErrMaxUserConnectionsReached
  | ErrHubNotStarted
  | ErrHubDraining
  | ErrHubStopped
  | ErrAuthenticationFailed
  | ErrUnauthorized
  | ExternalErr string
  | CtxErr string
  | Wrap string wsError

fun errorsIs :: "wsError \<Rightarrow> wsError \<Rightarrow> bool" where
  "errorsIs (Wrap p e) t = (Wrap p e = t \<or> errorsIs e t)"
| "errorsIs e t = (e = t)"

text \<open>The texts of \<open>err.Error()\<close>.\<close>

fun errorText :: "wsError \<Rightarrow> string" where
  "errorText ErrConnectionClosed = ''wshub: connection closed''"
| "errorText ErrInvalidMessage = ''wshub: invalid message''"
| "errorText ErrSendBufferFull = ''wshub: send buffer full''"
| "errorText ErrClientNotFound = ''wshub: client not found''"
| "errorText ErrEmptyRoomName = ''wshub: empty room name''"
| "errorText ErrRoomNotFound = ''wshub: room not found''"
| "errorText ErrAlreadyInRoom = ''wshub: client already in room''"
| "errorText ErrNotInRoom = ''wshub: client not in room''"
| "errorText ErrRoomFull = ''wshub: room is full''"
| "errorText ErrMaxConnectionsReached = ''wshub: max connections reached''"
| "errorText ErrMaxRoomsReached = ''wshub: max rooms per client reached''"
| "errorText ErrRateLimitExceeded = ''wshub: rate limit exceeded''"
| "errorText ErrMaxUserConnectionsReached = ''wshub: max connections per user reached''"
| "errorText ErrHubNotStarted = ''wshub: hub not started''"
| "errorText ErrHubDraining = ''wshub: hub is draining''"
| "errorText ErrHubStopped = ''wshub: hub is stopped''"
| "errorText ErrAuthenticationFailed = ''wshub: authentication failed''"
| "errorText ErrUnauthorized = ''wshub: unauthorized''"
| "errorText (ExternalErr s) = s"
| "errorText (CtxErr s) = s"
| "errorText (Wrap p e) = p @ '': '' @ errorText e"

text \<open>
  The value a \<open>recover()\<close> returns: nil, an \<open>error\<close> with its text, a string, or a value
  of another type.
\<close>

datatype panicValue = PanicNil | PanicError string | PanicString string | PanicOther

definition isChanSendPanic :: "panicValue \<Rightarrow> bool" where
  "isChanSendPanic r = (case r of
       PanicNil \<Rightarrow> False
     | PanicError msg \<Rightarrow> sublist ''send on closed channel'' msg
     | PanicString msg \<Rightarrow> sublist ''send on closed channel'' msg
     | PanicOther \<Rightarrow> False)"

lemma errorsIs_refl [simp]: "errorsIs e e"
  by (cases e) auto

lemma errorsIs_Wrap [simp]: "errorsIs (Wrap p e) e"
  by simp

end
