(* ===== verification/Ws_Config.thy ===== *)
theory Ws_Config
  imports Ws_Errors
begin

section \<open>Configuration, limits and origin checks (config.go, limits.go)\<close>

text \<open>
  \<open>Config\<close> and \<open>Limits\<close> with their defaults, the correction of a partial configuration
  in \<open>applyConfigDefaults\<close>, the warnings of \<open>validateConfig\<close>, the builder methods
  and the three origin checkers. Durations are nanoseconds. The product in the \<open>PingPeriod\<close>
  correction is an \<open>int64\<close> product, so it is written with its wrap-around.

  \<open>url.Parse\<close> is a parameter of \<open>AllowSameOrigin\<close>: it maps an origin to the host of the
  parsed URL, \<open>None\<close> when parsing fails.
\<close>

subsection \<open>Requests and message types\<close>

text \<open>What the library reads of an \<open>http.Request\<close>: the Origin header, Host, RemoteAddr.\<close>

record request =
  rq_Origin :: string
  rq_Host :: string
  rq_RemoteAddr :: string

type_synonym originChecker = "request \<Rightarrow> bool"

definition TextMessage :: int where "TextMessage = 1"
definition BinaryMessage :: int where "BinaryMessage = 2"
definition CloseMessage :: int where "CloseMessage = 8"
definition PingMessage :: int where "PingMessage = 9"
definition PongMessage :: int where "PongMessage = 10"

lemmas message_type_defs =
  TextMessage_def BinaryMessage_def CloseMessage_def PingMessage_def PongMessage_def

definition Millisecond :: int where "Millisecond = 1000000"
definition Second :: int where "Second = 1000000000"
definition Minute :: int where "Minute = 60 * Second"

lemmas duration_defs = Millisecond_def Second_def Minute_def

subsection \<open>Config\<close>

record Config =
  ReadBufferSize :: int
  WriteBufferSize :: int
  WriteWait :: int
  PongWait :: int
  PingPeriod :: int
  MaxMessageSize :: int
  SendChannelSize :: int
  EnableCompression :: bool
  CoalesceWrites :: bool
  CheckOrigin :: "originChecker option"
  Subprotocols :: "string list"

definition AllowAllOrigins :: originChecker where
  "AllowAllOrigins r = True"

definition AllowSameOrigin :: "(string \<Rightarrow> string option) \<Rightarrow> originChecker" where
  "AllowSameOrigin url_Host r =
     (if rq_Origin r = '''' then True
      else case url_Host (rq_Origin r) of
             None \<Rightarrow> False
           | Some host \<Rightarrow> host = rq_Host r)"

definition AllowOrigins :: "string list \<Rightarrow> originChecker" where
  "AllowOrigins origins r =
     (let allowed = set origins in
      if rq_Origin r = '''' then True else rq_Origin r \<in> allowed)"

definition DefaultConfig :: "(string \<Rightarrow> string option) \<Rightarrow> Config" where
  "DefaultConfig url_Host =
     \<lparr>ReadBufferSize = 1024, WriteBufferSize = 1024, WriteWait = 10 * Second,
      PongWait = 60 * Second, PingPeriod = 54 * Second, MaxMessageSize = 512 * 1024,
      SendChannelSize = 256, EnableCompression = False, CoalesceWrites = False,
      CheckOrigin = Some (AllowSameOrigin url_Host), Subprotocols = []\<rparr>"

text \<open>The guarded assignments \<open>if c.F <= 0 { c.F = d.F }\<close>, one per field.\<close>

definition orDefault :: "int \<Rightarrow> int \<Rightarrow> int" where
  "orDefault v d = (if v \<le> 0 then d else v)"

definition applyConfigDefaults :: "(string \<Rightarrow> string option) \<Rightarrow> Config \<Rightarrow> Config" where
  "applyConfigDefaults url_Host c =
     (let d = DefaultConfig url_Host;
          c = c\<lparr>ReadBufferSize := orDefault (ReadBufferSize c) (ReadBufferSize d)\<rparr>;
          c = c\<lparr>WriteBufferSize := orDefault (WriteBufferSize c) (WriteBufferSize d)\<rparr>;
          c = c\<lparr>WriteWait := orDefault (WriteWait c) (WriteWait d)\<rparr>;
          c = c\<lparr>PongWait := orDefault (PongWait c) (PongWait d)\<rparr>;
          c = c\<lparr>PingPeriod := orDefault (PingPeriod c) (PingPeriod d)\<rparr>;
          c = c\<lparr>MaxMessageSize := orDefault (MaxMessageSize c) (MaxMessageSize d)\<rparr>;
          c = c\<lparr>SendChannelSize := orDefault (SendChannelSize c) (SendChannelSize d)\<rparr>;
          c = c\<lparr>CheckOrigin := (if CheckOrigin c = None then CheckOrigin d else CheckOrigin c)\<rparr>
      in if PongWait c \<le> PingPeriod c
         then c\<lparr>PingPeriod := go_div (wrap64 (PongWait c * 9)) 10\<rparr> else c)"

text \<open>The warnings, in the order they are appended; each stands for its formatted text.\<close>

datatype configWarning = ReadBufferSmall int | WriteBufferSmall int

definition validateConfig :: "Config \<Rightarrow> configWarning list" where
  "validateConfig c =
     (if 0 < ReadBufferSize c \<and> ReadBufferSize c < 128
      then [ReadBufferSmall (ReadBufferSize c)] else []) @
     (if 0 < WriteBufferSize c \<and> WriteBufferSize c < 128
      then [WriteBufferSmall (WriteBufferSize c)] else [])"

definition WithBufferSizes :: "int \<Rightarrow> int \<Rightarrow> Config \<Rightarrow> Config" where
  "WithBufferSizes rd wr c = c\<lparr>ReadBufferSize := rd, WriteBufferSize := wr\<rparr>"

definition WithTimeouts :: "int \<Rightarrow> int \<Rightarrow> int \<Rightarrow> Config \<Rightarrow> Config" where
  "WithTimeouts ww pw pp c = c\<lparr>WriteWait := ww, PongWait := pw, PingPeriod := pp\<rparr>"

definition WithMaxMessageSize :: "int \<Rightarrow> Config \<Rightarrow> Config" where
  "WithMaxMessageSize sz c = c\<lparr>MaxMessageSize := sz\<rparr>"

definition WithSendChannelSize :: "int \<Rightarrow> Config \<Rightarrow> Config" where
  "WithSendChannelSize sz c = c\<lparr>SendChannelSize := sz\<rparr>"

definition WithCompression :: "bool \<Rightarrow> Config \<Rightarrow> Config" where
  "WithCompression enabled c = c\<lparr>EnableCompression := enabled\<rparr>"

definition WithCoalesceWrites :: "bool \<Rightarrow> Config \<Rightarrow> Config" where
  "WithCoalesceWrites enabled c = c\<lparr>CoalesceWrites := enabled\<rparr>"

definition WithCheckOrigin :: "originChecker \<Rightarrow> Config \<Rightarrow> Config" where
  "WithCheckOrigin fn c = c\<lparr>CheckOrigin := Some fn\<rparr>"

definition WithSubprotocols :: "string list \<Rightarrow> Config \<Rightarrow> Config" where
  "WithSubprotocols protocols c = c\<lparr>Subprotocols := protocols\<rparr>"

subsection \<open>Limits\<close>

record Limits =
  MaxConnections :: int
  MaxConnectionsPerUser :: int
  MaxRoomsPerClient :: int
  MaxClientsPerRoom :: int
  MaxMessageRate :: int

definition DefaultLimits :: Limits where
  "DefaultLimits = \<lparr>MaxConnections = 0, MaxConnectionsPerUser = 0, MaxRoomsPerClient = 0,
     MaxClientsPerRoom = 0, MaxMessageRate = 0\<rparr>"

definition WithMaxConnections :: "int \<Rightarrow> Limits \<Rightarrow> Limits" where
  "WithMaxConnections n l = l\<lparr>MaxConnections := n\<rparr>"

definition WithMaxConnectionsPerUser :: "int \<Rightarrow> Limits \<Rightarrow> Limits" where
  "WithMaxConnectionsPerUser n l = l\<lparr>MaxConnectionsPerUser := n\<rparr>"

definition WithMaxRoomsPerClient :: "int \<Rightarrow> Limits \<Rightarrow> Limits" where
  "WithMaxRoomsPerClient n l = l\<lparr>MaxRoomsPerClient := n\<rparr>"

definition WithMaxClientsPerRoom :: "int \<Rightarrow> Limits \<Rightarrow> Limits" where
  "WithMaxClientsPerRoom n l = l\<lparr>MaxClientsPerRoom := n\<rparr>"

definition WithMaxMessageRate :: "int \<Rightarrow> Limits \<Rightarrow> Limits" where
  "WithMaxMessageRate rate l = l\<lparr>MaxMessageRate := rate\<rparr>"

text \<open>
  A limit \<open>m\<close> (0 or negative means unlimited) admits \<open>n\<close> entries. The code's guards
  \<open>m > 0 && len >= m\<close> are the negation of \<open>within_limit m (Suc n)\<close>.
\<close>

definition within_limit :: "int \<Rightarrow> nat \<Rightarrow> bool" where
  "within_limit m n \<longleftrightarrow> m \<le> 0 \<or> int n \<le> m"

definition at_limit :: "int \<Rightarrow> nat \<Rightarrow> bool" where
  "at_limit m n \<longleftrightarrow> 0 < m \<and> m \<le> int n"

lemma not_at_limit [simp]: "\<not> at_limit m n \<longleftrightarrow> within_limit m (Suc n)"
  by (auto simp: at_limit_def within_limit_def)

lemma within_limit_mono: "within_limit m n \<Longrightarrow> k \<le> n \<Longrightarrow> within_limit m k"
  by (auto simp: within_limit_def)

lemma within_limit_0 [simp]: "within_limit m 0"
  by (cases "m \<le> 0") (auto simp: within_limit_def)

lemma within_limit_card_insert:
  "finite A \<Longrightarrow> within_limit m (Suc (card A)) \<Longrightarrow> within_limit m (card (insert x A))"
  by (erule within_limit_mono) (simp add: card_insert_le_m1 card_insert_if)

lemma within_limit_card_Diff:
  "finite A \<Longrightarrow> within_limit m (card A) \<Longrightarrow> within_limit m (card (A - B))"
  by (erule within_limit_mono) (simp add: card_mono)

subsection \<open>What the configuration code guarantees\<close>

text \<open>A configuration with which pumps and upgrader can run: every size and timeout is
  positive, pings are sent before the pong deadline, and an origin checker is set.\<close>

definition config_ok :: "Config \<Rightarrow> bool" where
  "config_ok c \<longleftrightarrow> 0 < ReadBufferSize c \<and> 0 < WriteBufferSize c \<and> 0 < WriteWait c \<and>
     0 < PongWait c \<and> 0 < PingPeriod c \<and> PingPeriod c < PongWait c \<and>
     0 < MaxMessageSize c \<and> 0 < SendChannelSize c \<and> CheckOrigin c \<noteq> None"

lemma DefaultConfig_ok: "config_ok (DefaultConfig url_Host)"
  by (simp add: config_ok_def DefaultConfig_def duration_defs)

lemma ping_correction_bounds:
  assumes "1 < p" and "p * 9 < 2 ^ 63"
  shows "0 < go_div (wrap64 (p * 9)) 10 \<and> go_div (wrap64 (p * 9)) 10 < p"
proof -
  have "wrap64 (p * 9) = p * 9" using assms by (intro wrap64_id) auto
  moreover have "go_div (p * 9) 10 = p * 9 div 10" using assms by (simp add: go_div_pos)
  ultimately show ?thesis using assms by auto
qed

lemma applyConfigDefaults_fields:
  "ReadBufferSize (applyConfigDefaults u c) = orDefault (ReadBufferSize c) 1024"
  "WriteBufferSize (applyConfigDefaults u c) = orDefault (WriteBufferSize c) 1024"
  "WriteWait (applyConfigDefaults u c) = orDefault (WriteWait c) (10 * Second)"
  "PongWait (applyConfigDefaults u c) = orDefault (PongWait c) (60 * Second)"
  "MaxMessageSize (applyConfigDefaults u c) = orDefault (MaxMessageSize c) (512 * 1024)"
  "SendChannelSize (applyConfigDefaults u c) = orDefault (SendChannelSize c) 256"
  "CheckOrigin (applyConfigDefaults u c) =
     (if CheckOrigin c = None then Some (AllowSameOrigin u) else CheckOrigin c)"
  "PingPeriod (applyConfigDefaults u c) =
     (let pw = orDefault (PongWait c) (60 * Second); pp = orDefault (PingPeriod c) (54 * Second)
      in if pw \<le> pp then go_div (wrap64 (pw * 9)) 10 else pp)"
  by (simp_all add: applyConfigDefaults_def DefaultConfig_def Let_def)

lemma applyConfigDefaults_ok_fixed:
  assumes "config_ok c"
  shows "applyConfigDefaults u c = c"
  using assms by (auto simp: applyConfigDefaults_def config_ok_def orDefault_def Let_def)

text \<open>C39: \<open>applyConfigDefaults\<close> turns every configuration into one the pumps and the upgrader can
  run with (positive sizes and timeouts, pings before the pong deadline, an origin checker),
  and applying it twice is applying it once. The hypotheses exclude the two edge cases where the
  corrected ping period is wrong: a pong wait of one nanosecond, and one whose ninefold
  overflows 64 bits.\<close>

theorem applyConfigDefaults_valid:
  assumes "PongWait c \<noteq> 1" and "PongWait c * 9 < 2 ^ 63"
  shows "config_ok (applyConfigDefaults u c)
    \<and> applyConfigDefaults u (applyConfigDefaults u c) = applyConfigDefaults u c"
proof -
  let ?pw = "orDefault (PongWait c) (60 * Second)"
  have pw: "1 < ?pw" "?pw * 9 < 2 ^ 63"
    using assms by (auto simp: orDefault_def duration_defs)
  have "config_ok (applyConfigDefaults u c)"
    using ping_correction_bounds [OF pw] pw
    by (auto simp: config_ok_def applyConfigDefaults_fields Let_def)
      (auto simp: orDefault_def duration_defs)
  then show ?thesis by (simp add: applyConfigDefaults_ok_fixed)
qed

theorem applyConfigDefaults_valid_witness:
  "PingPeriod (applyConfigDefaults (\<lambda>_. None) ((DefaultConfig (\<lambda>_. None))\<lparr>PongWait := Second, PingPeriod := 0\<rparr>)) < Second"
proof -
  let ?c = "(DefaultConfig (\<lambda>_. None))\<lparr>PongWait := Second, PingPeriod := 0\<rparr>"
  have "config_ok (applyConfigDefaults (\<lambda>_. None) ?c)"
    using applyConfigDefaults_valid [of ?c "\<lambda>_. None"] by (simp add: Second_def)
  then show ?thesis by (simp add: config_ok_def applyConfigDefaults_fields orDefault_def Second_def)
qed

text \<open>The edge case \<open>applyConfigDefaults\<close> misses: a pong wait of one nanosecond is kept, the ping
  period is corrected to \<open>1 * 9 / 10 = 0\<close>, and the result is not a usable configuration, because
  \<open>time.NewTicker\<close> panics on a ping period that is not positive.\<close>

theorem applyConfigDefaults_edge:
  "PingPeriod (applyConfigDefaults u ((DefaultConfig u)\<lparr>PongWait := 1\<rparr>)) = 0 \<and>
   \<not> config_ok (applyConfigDefaults u ((DefaultConfig u)\<lparr>PongWait := 1\<rparr>))"
  by (simp add: config_ok_def applyConfigDefaults_fields DefaultConfig_def orDefault_def duration_defs Let_def
      wrap64_def go_div_def)

end
