(* ===== verification/Ws_Metrics.thy ===== *)
theory Ws_Metrics
  imports Ws_Config
begin

section \<open>Metrics collectors (metrics.go)\<close>

text \<open>
  \<open>MetricsCollector\<close> is an interface the application implements. A call of one of its
  methods is a value of type \<open>metric\<close>; the hub's operations append the calls they make to
  the hub's trace, and a collector is a function that folds calls into its own state. The
  locale \<open>metrics_collector\<close> states what the hub's readers rely on: each call moves the
  gauges and counters by its \<open>delta\<close>. A collector may keep a well-formedness condition, may
  restrict the labels it can count errors for, and counts sent messages only when the count is
  not negative. \<open>DebugMetrics\<close> is the collector of the library; its
  64-bit counters are modelled as unbounded integers. \<open>NoOpMetrics\<close>, the default, has no state.
\<close>

datatype metric =
    IncrementConnections
  | DecrementConnections
  | IncrementMessagesReceived
  | IncrementMessagesSent int
  | IncrementMessagesDropped
  | RecordMessageSize int
  | RecordLatency int
  | RecordBroadcastDuration int
  | IncrementRoomJoins
  | IncrementRoomLeaves
  | IncrementRooms
  | DecrementRooms
  | IncrementErrors string

subsection \<open>What a call means for each gauge and counter\<close>

fun conn_delta :: "metric \<Rightarrow> int" where
  "conn_delta IncrementConnections = 1"
| "conn_delta DecrementConnections = -1"
| "conn_delta _ = 0"

fun room_delta :: "metric \<Rightarrow> int" where
  "room_delta IncrementRooms = 1"
| "room_delta DecrementRooms = -1"
| "room_delta _ = 0"

fun member_delta :: "metric \<Rightarrow> int" where
  "member_delta IncrementRoomJoins = 1"
| "member_delta IncrementRoomLeaves = -1"
| "member_delta _ = 0"

fun sent_delta :: "metric \<Rightarrow> int" where
  "sent_delta (IncrementMessagesSent n) = n"
| "sent_delta _ = 0"

fun drop_delta :: "metric \<Rightarrow> int" where
  "drop_delta IncrementMessagesDropped = 1"
| "drop_delta _ = 0"

fun error_delta :: "string \<Rightarrow> metric \<Rightarrow> int" where
  "error_delta t (IncrementErrors t') = (if t = t' then 1 else 0)"
| "error_delta t _ = 0"

definition tally :: "('a \<Rightarrow> int) \<Rightarrow> 'a list \<Rightarrow> int" where
  "tally d xs = sum_list (map d xs)"

lemma tally_simps [simp]:
  "tally d [] = 0"
  "tally d (x # xs) = d x + tally d xs"
  "tally d (xs @ ys) = tally d xs + tally d ys"
  by (simp_all add: tally_def)

locale metrics_collector =
  fixes collect :: "'m \<Rightarrow> metric \<Rightarrow> 'm"
    and wf :: "'m \<Rightarrow> bool"
    and label_ok :: "string \<Rightarrow> bool"
    and conns :: "'m \<Rightarrow> 'n::ring_1"
    and active_rooms :: "'m \<Rightarrow> 'n"
    and memberships :: "'m \<Rightarrow> 'n"
    and sent :: "'m \<Rightarrow> 'n"
    and dropped :: "'m \<Rightarrow> 'n"
    and errors_of :: "'m \<Rightarrow> string \<Rightarrow> 'n"
  assumes wf_collect: "wf m \<Longrightarrow> wf (collect m x)"
    and conns_collect: "wf m \<Longrightarrow> conns (collect m x) = conns m + of_int (conn_delta x)"
    and rooms_collect: "wf m \<Longrightarrow> active_rooms (collect m x) = active_rooms m + of_int (room_delta x)"
    and members_collect: "wf m \<Longrightarrow> memberships (collect m x) = memberships m + of_int (member_delta x)"
    and sent_collect: "wf m \<Longrightarrow> 0 \<le> sent_delta x \<Longrightarrow> sent (collect m x) = sent m + of_int (sent_delta x)"
    and dropped_collect: "wf m \<Longrightarrow> dropped (collect m x) = dropped m + of_int (drop_delta x)"
    and errors_collect: "wf m \<Longrightarrow> label_ok t \<Longrightarrow>
      errors_of (collect m x) t = errors_of m t + of_int (error_delta t x)"
begin

lemma wf_replay: "wf m \<Longrightarrow> wf (foldl collect m xs)"
  by (induction xs arbitrary: m) (auto simp: wf_collect)

lemma conns_replay: "wf m \<Longrightarrow> conns (foldl collect m xs) = conns m + of_int (tally conn_delta xs)"
  by (induction xs arbitrary: m) (auto simp: conns_collect wf_collect)

lemma rooms_replay: "wf m \<Longrightarrow> active_rooms (foldl collect m xs) = active_rooms m + of_int (tally room_delta xs)"
  by (induction xs arbitrary: m) (auto simp: rooms_collect wf_collect)

lemma members_replay: "wf m \<Longrightarrow> memberships (foldl collect m xs) = memberships m + of_int (tally member_delta xs)"
  by (induction xs arbitrary: m) (auto simp: members_collect wf_collect)

lemma sent_replay:
  "wf m \<Longrightarrow> \<forall>x\<in>set xs. 0 \<le> sent_delta x \<Longrightarrow> sent (foldl collect m xs) = sent m + of_int (tally sent_delta xs)"
  by (induction xs arbitrary: m) (auto simp: sent_collect wf_collect)

lemma dropped_replay: "wf m \<Longrightarrow> dropped (foldl collect m xs) = dropped m + of_int (tally drop_delta xs)"
  by (induction xs arbitrary: m) (auto simp: dropped_collect wf_collect)

lemma errors_replay:
  "wf m \<Longrightarrow> label_ok t \<Longrightarrow> errors_of (foldl collect m xs) t = errors_of m t + of_int (tally (error_delta t) xs)"
  by (induction xs arbitrary: m) (auto simp: errors_collect wf_collect)

lemmas replay = conns_replay rooms_replay members_replay sent_replay dropped_replay errors_replay

end

text \<open>\<open>NoOpMetrics\<close> has no fields, and each of its methods is empty.\<close>

datatype NoOpMetrics = NoOpMetrics

fun noop_collect :: "NoOpMetrics \<Rightarrow> metric \<Rightarrow> NoOpMetrics" where
  "noop_collect n _ = n"

subsection \<open>DebugMetrics\<close>

record DebugMetrics =
  activeConnections :: int
  totalConnections :: int
  totalMessagesRecv :: int
  totalMessagesSent :: int
  totalDropped :: int
  totalMessageBytes :: int
  totalRoomJoins :: int
  totalRoomLeaves :: int
  activeRooms :: int
  latencyTotal :: int
  latencyCount :: int
  broadcastTotal :: int
  broadcastCount :: int
  dm_errors :: "string \<Rightarrow> int option"
  startTime :: int

definition NewDebugMetrics :: "int \<Rightarrow> DebugMetrics" where
  "NewDebugMetrics now =
     \<lparr>activeConnections = 0, totalConnections = 0, totalMessagesRecv = 0, totalMessagesSent = 0,
      totalDropped = 0, totalMessageBytes = 0, totalRoomJoins = 0, totalRoomLeaves = 0,
      activeRooms = 0, latencyTotal = 0, latencyCount = 0, broadcastTotal = 0,
      broadcastCount = 0, dm_errors = Map.empty, startTime = now\<rparr>"

definition err_count :: "(string \<Rightarrow> int option) \<Rightarrow> string \<Rightarrow> int" where
  "err_count m t = (case m t of None \<Rightarrow> 0 | Some n \<Rightarrow> n)"

fun dm_collect :: "DebugMetrics \<Rightarrow> metric \<Rightarrow> DebugMetrics" where
  "dm_collect d IncrementConnections =
     d\<lparr>activeConnections := activeConnections d + 1, totalConnections := totalConnections d + 1\<rparr>"
| "dm_collect d DecrementConnections = d\<lparr>activeConnections := activeConnections d + -1\<rparr>"
| "dm_collect d IncrementMessagesReceived = d\<lparr>totalMessagesRecv := totalMessagesRecv d + 1\<rparr>"
| "dm_collect d (IncrementMessagesSent n) = d\<lparr>totalMessagesSent := totalMessagesSent d + n\<rparr>"
| "dm_collect d IncrementMessagesDropped = d\<lparr>totalDropped := totalDropped d + 1\<rparr>"
| "dm_collect d (RecordMessageSize n) = d\<lparr>totalMessageBytes := totalMessageBytes d + n\<rparr>"
| "dm_collect d (RecordLatency t) =
     d\<lparr>latencyTotal := latencyTotal d + t, latencyCount := latencyCount d + 1\<rparr>"
| "dm_collect d (RecordBroadcastDuration t) =
     d\<lparr>broadcastTotal := broadcastTotal d + t, broadcastCount := broadcastCount d + 1\<rparr>"
| "dm_collect d IncrementRoomJoins = d\<lparr>totalRoomJoins := totalRoomJoins d + 1\<rparr>"
| "dm_collect d IncrementRoomLeaves = d\<lparr>totalRoomLeaves := totalRoomLeaves d + 1\<rparr>"
| "dm_collect d IncrementRooms = d\<lparr>activeRooms := activeRooms d + 1\<rparr>"
| "dm_collect d DecrementRooms = d\<lparr>activeRooms := activeRooms d + -1\<rparr>"
| "dm_collect d (IncrementErrors t) =
     d\<lparr>dm_errors := (dm_errors d)(t \<mapsto> err_count (dm_errors d) t + 1)\<rparr>"

interpretation debug: metrics_collector dm_collect "\<lambda>_. True" "\<lambda>_. True" activeConnections activeRooms
  "\<lambda>d. totalRoomJoins d - totalRoomLeaves d" totalMessagesSent totalDropped
  "\<lambda>d. err_count (dm_errors d)"
proof unfold_locales
  fix m x
  show "activeConnections (dm_collect m x) = activeConnections m + of_int (conn_delta x)"
    by (cases x) simp_all
  show "activeRooms (dm_collect m x) = activeRooms m + of_int (room_delta x)"
    by (cases x) simp_all
  show "totalRoomJoins (dm_collect m x) - totalRoomLeaves (dm_collect m x) =
      totalRoomJoins m - totalRoomLeaves m + of_int (member_delta x)"
    by (cases x) simp_all
  show "totalMessagesSent (dm_collect m x) = totalMessagesSent m + of_int (sent_delta x)"
    by (cases x) simp_all
  show "totalDropped (dm_collect m x) = totalDropped m + of_int (drop_delta x)"
    by (cases x) simp_all
  show "err_count (dm_errors (dm_collect m x)) t = err_count (dm_errors m) t + of_int (error_delta t x)" for t
    by (cases x) (simp_all add: err_count_def)
qed simp

text \<open>\<open>Duration.Round\<close> of Go's time package, half away from zero (without saturation).\<close>

definition round_dur :: "int \<Rightarrow> int \<Rightarrow> int" where
  "round_dur m d =
     (let r = \<bar>d\<bar> mod m; up = (if r + r < m then \<bar>d\<bar> - r else \<bar>d\<bar> + m - r)
      in if d < 0 then - up else up)"

record DebugStats =
  ActiveConnections :: int
  TotalConnections :: int
  TotalMessagesRecv :: int
  TotalMessagesSent :: int
  TotalDropped :: int
  TotalMessageBytes :: int
  TotalRoomJoins :: int
  TotalRoomLeaves :: int
  ActiveRooms :: int
  AvgLatency :: int
  AvgBroadcast :: int
  Errors :: "string \<Rightarrow> int option"
  StatsUptime :: int

definition dm_Stats :: "int \<Rightarrow> DebugMetrics \<Rightarrow> DebugStats" where
  "dm_Stats now d =
     \<lparr>ActiveConnections = activeConnections d, TotalConnections = totalConnections d,
      TotalMessagesRecv = totalMessagesRecv d, TotalMessagesSent = totalMessagesSent d,
      TotalDropped = totalDropped d, TotalMessageBytes = totalMessageBytes d,
      TotalRoomJoins = totalRoomJoins d, TotalRoomLeaves = totalRoomLeaves d,
      ActiveRooms = activeRooms d,
      AvgLatency = (if 0 < latencyCount d then go_div (latencyTotal d) (latencyCount d) else 0),
      AvgBroadcast = (if 0 < broadcastCount d then go_div (broadcastTotal d) (broadcastCount d) else 0),
      Errors = dm_errors d, StatsUptime = round_dur Second (now - startTime d)\<rparr>"

definition dm_Reset :: "int \<Rightarrow> DebugMetrics \<Rightarrow> DebugMetrics" where
  "dm_Reset now d =
     d\<lparr>activeConnections := 0, totalConnections := 0, totalMessagesRecv := 0,
       totalMessagesSent := 0, totalDropped := 0, totalMessageBytes := 0, totalRoomJoins := 0,
       totalRoomLeaves := 0, activeRooms := 0, latencyTotal := 0, latencyCount := 0,
       broadcastTotal := 0, broadcastCount := 0, dm_errors := Map.empty, startTime := now\<rparr>"

lemma dm_Reset_fresh: "dm_Reset now d = NewDebugMetrics now"
  by (simp add: dm_Reset_def NewDebugMetrics_def)

end
