(* ===== verification/Ws_State.thy ===== *)
theory Ws_State
  imports Ws_Metrics
begin

section \<open>The state of a hub: clients, rooms, indexes, effects\<close>

text \<open>
  The records of the model: \<open>sendItem\<close> and \<open>client\<close> (client.go), \<open>Room\<close>,
  \<open>hubSnapshot\<close> and \<open>hub\<close> (hub.go), \<open>AdapterMessage\<close> (adapter.go), \<open>Hooks\<close>
  (hooks.go), and the environment an operation runs in.

  Clients and rooms are shared by pointer in the code, so the hub holds an explicit store:
  \<open>h_mem\<close> maps a client pointer to its fields, \<open>h_rmem\<close> a room pointer. \<open>h_cnext\<close>
  and \<open>h_rnext\<close> are the next free pointers.

  Everything the code does outside the hub's own fields is appended to \<open>h_trace\<close>: calls of
  the metrics collector and the logger, goroutines started for asynchronous hooks, HTTP
  answers, frames, adapter publications.

  What the code calls but does not define is in the \<open>env\<close> record, an argument of each
  operation: the visiting order of Go's map iteration, the clock, the hooks of the
  application, the adapter's answer to a publication, the choices of \<open>select\<close>. A hook that
  the code calls synchronously is a function on hubs, because it may call the hub's methods
  and because other goroutines may run while it does.
\<close>

subsection \<open>Messages\<close>

record sendItem =
  si_msgType :: int
  si_data :: bytes

record Message =
  msg_Type :: int
  msg_Data :: bytes
  msg_ClientID :: string
  msg_Time :: int

record AdapterMessage =
  am_NodeID :: string
  am_Type :: string
  am_Room :: string
  am_UserID :: string
  am_ClientID :: string
  am_ExceptClientIDs :: "string list"
  am_MsgType :: int
  am_Data :: bytes

definition AdapterBroadcast :: string where "AdapterBroadcast = ''broadcast''"
definition AdapterBroadcastExcept :: string where "AdapterBroadcastExcept = ''broadcast_except''"
definition AdapterRoom :: string where "AdapterRoom = ''room''"
definition AdapterRoomExcept :: string where "AdapterRoomExcept = ''room_except''"
definition AdapterUser :: string where "AdapterUser = ''user''"
definition AdapterClient :: string where "AdapterClient = ''client''"
definition AdapterPresence :: string where "AdapterPresence = ''presence''"

lemmas adapter_type_defs =
  AdapterBroadcast_def AdapterBroadcastExcept_def AdapterRoom_def AdapterRoomExcept_def
  AdapterUser_def AdapterClient_def AdapterPresence_def

text \<open>The zero value of \<open>AdapterMessage\<close>, from which the code's literals start.\<close>

definition zeroAdapterMessage :: AdapterMessage where
  "zeroAdapterMessage = \<lparr>am_NodeID = '''', am_Type = '''', am_Room = '''', am_UserID = '''',
     am_ClientID = '''', am_ExceptClientIDs = [], am_MsgType = 0, am_Data = []\<rparr>"

subsection \<open>Effects\<close>

datatype logLevel = Debug | Info | Warn | Error

datatype hookCall =
    CallAfterConnect cref
  | CallAfterDisconnect cref
  | CallAfterRoomJoin cref string
  | CallAfterRoomLeave cref string
  | CallOnClose cref

datatype effect =
    Metric metric
  | Log logLevel string
  | Go hookCall
  | HttpError string int
  | HttpJSON int bool bool string int int
  | CloseFrame cref int string
  | Publish AdapterMessage

fun metric_part :: "(metric \<Rightarrow> int) \<Rightarrow> effect \<Rightarrow> int" where
  "metric_part d (Metric m) = d m"
| "metric_part d _ = 0"

subsection \<open>Clients and rooms\<close>

text \<open>
  \<open>c_send\<close> is the content of the channel \<open>send\<close>, oldest first, and \<open>c_sendCap\<close> its
  capacity. \<open>c_done\<close> and \<open>c_connClosed\<close> say that the channel \<open>done\<close> and the connection
  have been closed (the two \<open>sync.Once\<close> guards). A callback is an opaque handle,
  and so is a metadata value; a \<open>nil\<close> metadata map is \<open>None\<close>.
\<close>

record client =
  c_ID :: string
  c_send :: "sendItem list"
  c_sendCap :: nat
  c_config :: Config
  c_userID :: string
  c_metadata :: "(string \<Rightarrow> nat option) option"
  c_rooms :: "string set"
  c_closed :: bool
  c_connectedAt :: int
  c_closedAt :: "int option"
  c_request :: request
  c_tokens :: real
  c_lastRefill :: int
  c_closeCode :: int
  c_closeReason :: string
  c_graceful :: bool
  c_connClosed :: bool
  c_done :: bool
  c_onMessage :: "nat option"
  c_onClose :: "nat option"
  c_onError :: "nat option"

record Room =
  r_clients :: "cref set"
  r_snapshot :: "cref list option"

record hubSnapshot =
  s_set :: "cref set"
  s_slice :: "cref list"

record registrationResult =
  rr_client :: "cref option"
  rr_err :: "wsError option"

datatype HubState = StateRunning | StateDraining | StateStopped

definition HubState_String :: "HubState \<Rightarrow> string" where
  "HubState_String s = (case s of
       StateRunning \<Rightarrow> ''running'' | StateDraining \<Rightarrow> ''draining'' | StateStopped \<Rightarrow> ''stopped'')"

datatype DropPolicy = DropNewest | DropOldest

record nodePresence =
  np_NodeID :: string
  np_ClientCount :: int
  np_Rooms :: "string \<Rightarrow> int option"
  np_Timestamp :: int

record nodeStats =
  ns_clientCount :: int
  ns_rooms :: "string \<Rightarrow> int option"
  ns_lastSeen :: int

subsection \<open>The hub\<close>

record hub =
  h_mem :: "cref \<Rightarrow> client"
  h_cnext :: cref
  h_rmem :: "rref \<Rightarrow> Room"
  h_rnext :: rref
  h_clients :: "cref set"
  h_clientIndex :: "string \<Rightarrow> cref option"
  h_clientsSnapshot :: "hubSnapshot option"
  h_clientCount :: int
  h_rooms :: "string \<Rightarrow> rref option"
  h_roomVersion :: int
  h_userIndex :: "string \<Rightarrow> cref set option"
  h_register :: "cref list"
  h_unregister :: "cref list"
  h_results :: "cref \<Rightarrow> registrationResult option"
  h_config :: Config
  h_limits :: Limits
  h_onMessage :: "nat option"
  h_state :: HubState
  h_alive :: bool
  h_startedAt :: "int option"
  h_ctxDone :: bool
  h_drainDone :: bool
  h_drainTimeout :: int
  h_parallelBatchSize :: int
  h_useParallel :: bool
  h_poolStarted :: bool
  h_poolStopped :: bool
  h_poolSize :: int
  h_dropPolicy :: DropPolicy
  h_skipHandlerLatency :: bool
  h_adapter :: bool
  h_nodeID :: string
  h_originRejectLog :: int
  h_upgradeFailLog :: int
  h_hookTimeout :: int
  h_presenceCache :: "(string \<Rightarrow> nodeStats option) option"
  h_presenceInterval :: int
  h_presenceTTL :: int
  h_trace :: "effect list"

definition emit :: "effect \<Rightarrow> hub \<Rightarrow> hub" where
  "emit x h = h\<lparr>h_trace := h_trace h @ [x]\<rparr>"

definition upd_client :: "cref \<Rightarrow> (client \<Rightarrow> client) \<Rightarrow> hub \<Rightarrow> hub" where
  "upd_client c f h = h\<lparr>h_mem := (h_mem h)(c := f (h_mem h c))\<rparr>"

definition upd_room :: "rref \<Rightarrow> (Room \<Rightarrow> Room) \<Rightarrow> hub \<Rightarrow> hub" where
  "upd_room r f h = h\<lparr>h_rmem := (h_rmem h)(r := f (h_rmem h r))\<rparr>"

text \<open>The messages handed to the adapter, in order.\<close>

fun pub_part :: "effect \<Rightarrow> AdapterMessage list" where
  "pub_part (Publish m) = [m]"
| "pub_part _ = []"

definition published :: "hub \<Rightarrow> AdapterMessage list" where
  "published h = concat (map pub_part (h_trace h))"

definition gauge :: "(metric \<Rightarrow> int) \<Rightarrow> hub \<Rightarrow> int" where
  "gauge d h = tally (metric_part d) (h_trace h)"

subsection \<open>Hooks and the environment\<close>

text \<open>
  The asynchronous hooks (\<open>go h.hooks.AfterConnect(client)\<close> and so on) are flags: whether
  one is set; the goroutine it starts is an effect. \<open>BeforeDisconnect\<close> also says whether
  it returned before the hook timeout.
\<close>

record Hooks =
  BeforeConnect :: "(request \<Rightarrow> hub \<Rightarrow> wsError option \<times> hub) option"
  AfterConnect :: bool
  BeforeDisconnect :: "(cref \<Rightarrow> hub \<Rightarrow> bool \<times> hub) option"
  AfterDisconnect :: bool
  BeforeMessage :: "(cref \<Rightarrow> Message \<Rightarrow> hub \<Rightarrow> (Message option \<times> wsError option) \<times> hub) option"
  AfterMessage :: "(cref \<Rightarrow> Message \<Rightarrow> wsError option \<Rightarrow> hub \<Rightarrow> hub) option"
  OnError :: "(cref \<Rightarrow> wsError \<Rightarrow> hub \<Rightarrow> hub) option"
  OnSendDropped :: "(cref \<Rightarrow> bytes \<Rightarrow> hub \<Rightarrow> hub) option"
  BeforeRoomJoin :: "(cref \<Rightarrow> string \<Rightarrow> hub \<Rightarrow> wsError option \<times> hub) option"
  AfterRoomJoin :: bool
  BeforeRoomLeave :: "(cref \<Rightarrow> string \<Rightarrow> hub \<Rightarrow> hub) option"
  AfterRoomLeave :: bool

definition noHooks :: Hooks where
  "noHooks = \<lparr>BeforeConnect = None, AfterConnect = False, BeforeDisconnect = None,
     AfterDisconnect = False, BeforeMessage = None, AfterMessage = None, OnError = None,
     OnSendDropped = None, BeforeRoomJoin = None, AfterRoomJoin = False,
     BeforeRoomLeave = None, AfterRoomLeave = False\<rparr>"

record env =
  e_rangeC :: "cref set \<Rightarrow> cref list"
  e_rangeS :: "string set \<Rightarrow> string list"
  e_now :: int
  e_elapsed :: int
  e_hooks :: Hooks
  e_publish :: "AdapterMessage \<Rightarrow> wsError option"
  e_pickRegister :: "hub \<Rightarrow> bool"
  e_sched :: "cref list list \<Rightarrow> cref list"
  e_submit :: "nat \<Rightarrow> bool"
  e_encPresence :: "nodePresence \<Rightarrow> bytes option"
  e_decPresence :: "bytes \<Rightarrow> nodePresence option"

text \<open>\<open>e_sched\<close> is the order in which sends that several goroutines perform take effect,
  \<open>e_submit i\<close> whether the worker pool still takes the \<open>i\<close>-th task, \<open>e_encPresence\<close> and
  \<open>e_decPresence\<close> are \<open>json.Marshal\<close> and \<open>json.Unmarshal\<close> of a presence report (\<open>None\<close> on error). Any interleaving of the
  goroutines' sends is a schedule.\<close>

definition sched_ok :: "env \<Rightarrow> bool" where
  "sched_ok e \<longleftrightarrow> (\<forall>bs. mset (e_sched e bs) = mset (concat bs))"

text \<open>Go's \<open>range\<close> over a map visits every key exactly once.\<close>

definition range_ok :: "('k set \<Rightarrow> 'k list) \<Rightarrow> bool" where
  "range_ok rng \<longleftrightarrow> (\<forall>S. finite S \<longrightarrow> set (rng S) = S \<and> distinct (rng S))"

definition ranges_ok :: "env \<Rightarrow> bool" where
  "ranges_ok e \<longleftrightarrow> range_ok (e_rangeC e) \<and> range_ok (e_rangeS e)"

subsection \<open>Basic facts\<close>

lemma range_okD: "range_ok rng \<Longrightarrow> finite S \<Longrightarrow> set (rng S) = S \<and> distinct (rng S)"
  by (simp add: range_ok_def)

lemma ranges_okD:
  assumes "ranges_ok e"
  shows "finite S \<Longrightarrow> set (e_rangeC e S) = S \<and> distinct (e_rangeC e S)"
    and "finite T \<Longrightarrow> set (e_rangeS e T) = T \<and> distinct (e_rangeS e T)"
  using assms by (auto simp: ranges_ok_def dest: range_okD)

lemma gauge_emit [trace_simps]: "gauge d (emit x h) = gauge d h + metric_part d x"
  by (simp add: gauge_def emit_def)

lemma published_emit [trace_simps]: "published (emit x h) = published h @ pub_part x"
  by (simp add: published_def emit_def)

lemma emit_frame [frame_simps]:
  "h_mem (emit x h) = h_mem h" "h_cnext (emit x h) = h_cnext h"
  "h_rmem (emit x h) = h_rmem h" "h_rnext (emit x h) = h_rnext h"
  "h_clients (emit x h) = h_clients h" "h_clientIndex (emit x h) = h_clientIndex h"
  "h_clientCount (emit x h) = h_clientCount h" "h_rooms (emit x h) = h_rooms h"
  "h_roomVersion (emit x h) = h_roomVersion h" "h_userIndex (emit x h) = h_userIndex h"
  "h_limits (emit x h) = h_limits h" "h_clientsSnapshot (emit x h) = h_clientsSnapshot h"
  "h_register (emit x h) = h_register h" "h_unregister (emit x h) = h_unregister h"
  "h_state (emit x h) = h_state h" "h_drainDone (emit x h) = h_drainDone h"
  "h_results (emit x h) = h_results h" "h_config (emit x h) = h_config h"
  "h_dropPolicy (emit x h) = h_dropPolicy h" "h_useParallel (emit x h) = h_useParallel h"
  "h_parallelBatchSize (emit x h) = h_parallelBatchSize h"
  "h_adapter (emit x h) = h_adapter h" "h_nodeID (emit x h) = h_nodeID h"
  "h_presenceCache (emit x h) = h_presenceCache h" "h_ctxDone (emit x h) = h_ctxDone h"
  "h_trace (emit x h) = h_trace h @ [x]"
  by (simp_all add: emit_def)

lemma upd_client_frame [frame_simps]:
  "h_mem (upd_client c f h) = (h_mem h)(c := f (h_mem h c))"
  "h_cnext (upd_client c f h) = h_cnext h"
  "h_rmem (upd_client c f h) = h_rmem h" "h_rnext (upd_client c f h) = h_rnext h"
  "h_clients (upd_client c f h) = h_clients h" "h_clientIndex (upd_client c f h) = h_clientIndex h"
  "h_clientCount (upd_client c f h) = h_clientCount h" "h_rooms (upd_client c f h) = h_rooms h"
  "h_roomVersion (upd_client c f h) = h_roomVersion h" "h_userIndex (upd_client c f h) = h_userIndex h"
  "h_limits (upd_client c f h) = h_limits h" "h_clientsSnapshot (upd_client c f h) = h_clientsSnapshot h"
  "h_register (upd_client c f h) = h_register h" "h_unregister (upd_client c f h) = h_unregister h"
  "h_state (upd_client c f h) = h_state h" "h_drainDone (upd_client c f h) = h_drainDone h"
  "h_results (upd_client c f h) = h_results h" "h_config (upd_client c f h) = h_config h"
  "h_dropPolicy (upd_client c f h) = h_dropPolicy h" "h_useParallel (upd_client c f h) = h_useParallel h"
  "h_parallelBatchSize (upd_client c f h) = h_parallelBatchSize h"
  "h_adapter (upd_client c f h) = h_adapter h" "h_nodeID (upd_client c f h) = h_nodeID h"
  "h_presenceCache (upd_client c f h) = h_presenceCache h" "h_ctxDone (upd_client c f h) = h_ctxDone h"
  "h_trace (upd_client c f h) = h_trace h"
  by (simp_all add: upd_client_def)

lemma upd_room_frame [frame_simps]:
  "h_rmem (upd_room r g h) = (h_rmem h)(r := g (h_rmem h r))"
  "h_mem (upd_room r g h) = h_mem h" "h_cnext (upd_room r g h) = h_cnext h"
  "h_rnext (upd_room r g h) = h_rnext h"
  "h_clients (upd_room r g h) = h_clients h" "h_clientIndex (upd_room r g h) = h_clientIndex h"
  "h_clientCount (upd_room r g h) = h_clientCount h" "h_rooms (upd_room r g h) = h_rooms h"
  "h_roomVersion (upd_room r g h) = h_roomVersion h" "h_userIndex (upd_room r g h) = h_userIndex h"
  "h_limits (upd_room r g h) = h_limits h" "h_clientsSnapshot (upd_room r g h) = h_clientsSnapshot h"
  "h_register (upd_room r g h) = h_register h" "h_unregister (upd_room r g h) = h_unregister h"
  "h_state (upd_room r g h) = h_state h" "h_drainDone (upd_room r g h) = h_drainDone h"
  "h_results (upd_room r g h) = h_results h" "h_config (upd_room r g h) = h_config h"
  "h_parallelBatchSize (upd_room r g h) = h_parallelBatchSize h" "h_nodeID (upd_room r g h) = h_nodeID h"
  "h_trace (upd_room r g h) = h_trace h"
  by (simp_all add: upd_room_def)

lemma gauge_upd [trace_simps]:
  "gauge d (upd_client c f h) = gauge d h" "gauge d (upd_room r g h) = gauge d h"
  by (simp_all add: gauge_def frame_simps)

end
