(* ===== verification/Ws_Registry.thy ===== *)
theory Ws_Registry
  imports Ws_State
begin

section \<open>The registry of a hub and its invariant\<close>

text \<open>
  The registry is the part of the hub that says who is connected, who is in which room and
  who belongs to which user. \<open>members\<close> and \<open>users\<close> are its abstract view: the set of
  clients behind a room name and behind a user ID.

  \<open>registry_inv\<close> is the invariant every operation keeps. It has five parts: the primary
  client map and its ID index agree, the user index is exact for registered clients, rooms
  and clients agree on membership (and no empty room is kept), every configured limit holds,
  and the gauges of the metrics collector equal the real counts.

  \<open>same_registry\<close> relates two hubs with the same registry: sending, broadcasting, closing,
  logging and the like. It is also what the development asks of synchronous hooks
  (\<open>hooks_observe\<close>): a hook may read the hub and use its send methods.
\<close>

definition members :: "hub \<Rightarrow> string \<Rightarrow> cref set" where
  "members h n = (case h_rooms h n of None \<Rightarrow> {} | Some r \<Rightarrow> r_clients (h_rmem h r))"

definition users :: "hub \<Rightarrow> string \<Rightarrow> cref set" where
  "users h u = (case h_userIndex h u of None \<Rightarrow> {} | Some S \<Rightarrow> S)"

subsection \<open>The invariant\<close>

definition inv_clients :: "hub \<Rightarrow> bool" where
  "inv_clients h \<longleftrightarrow> finite (h_clients h) \<and> h_clientCount h = int (card (h_clients h)) \<and>
     (\<forall>c\<in>h_clients h. c < h_cnext h \<and> h_clientIndex h (c_ID (h_mem h c)) = Some c) \<and>
     (\<forall>i c. h_clientIndex h i = Some c \<longrightarrow> c \<in> h_clients h \<and> c_ID (h_mem h c) = i)"

definition index_wf :: "hub \<Rightarrow> bool" where
  "index_wf h \<longleftrightarrow> (\<forall>u S. h_userIndex h u = Some S \<longrightarrow> u \<noteq> '''' \<and> S \<noteq> {} \<and> finite S)"

definition inv_users :: "hub \<Rightarrow> bool" where
  "inv_users h \<longleftrightarrow> index_wf h \<and>
     (\<forall>u c. c \<in> users h u \<longrightarrow> c < h_cnext h \<and> c_userID (h_mem h c) = u) \<and>
     (\<forall>c\<in>h_clients h. c_userID (h_mem h c) \<noteq> '''' \<longrightarrow> c \<in> users h (c_userID (h_mem h c)))"

definition room_ok :: "Room \<Rightarrow> bool" where
  "room_ok r \<longleftrightarrow> finite (r_clients r) \<and>
     (\<exists>s. r_snapshot r = Some s \<and> set s = r_clients r \<and> distinct s)"

definition rooms_struct :: "hub \<Rightarrow> bool" where
  "rooms_struct h \<longleftrightarrow>
     (\<forall>n r. h_rooms h n = Some r \<longrightarrow>
        n \<noteq> '''' \<and> r < h_rnext h \<and> room_ok (h_rmem h r) \<and> r_clients (h_rmem h r) \<noteq> {}) \<and>
     (\<forall>n n' r. h_rooms h n = Some r \<longrightarrow> h_rooms h n' = Some r \<longrightarrow> n = n') \<and>
     finite (dom (h_rooms h))"

definition rooms_agree :: "hub \<Rightarrow> bool" where
  "rooms_agree h \<longleftrightarrow>
     (\<forall>n c. c \<in> members h n \<longleftrightarrow> n \<in> c_rooms (h_mem h c)) \<and>
     (\<forall>c. finite (c_rooms (h_mem h c))) \<and> (\<forall>n. members h n \<subseteq> h_clients h)"

definition inv_limits :: "hub \<Rightarrow> bool" where
  "inv_limits h \<longleftrightarrow>
     within_limit (MaxConnections (h_limits h)) (card (h_clients h)) \<and>
     (\<forall>u. within_limit (MaxConnectionsPerUser (h_limits h)) (card (users h u))) \<and>
     (\<forall>n. within_limit (MaxClientsPerRoom (h_limits h)) (card (members h n))) \<and>
     (\<forall>c. within_limit (MaxRoomsPerClient (h_limits h)) (card (c_rooms (h_mem h c))))"

definition inv_gauges :: "hub \<Rightarrow> bool" where
  "inv_gauges h \<longleftrightarrow> gauge conn_delta h = h_clientCount h \<and>
     gauge room_delta h = int (card (dom (h_rooms h)))"

definition registry_inv :: "hub \<Rightarrow> bool" where
  "registry_inv h \<longleftrightarrow> inv_clients h \<and> inv_users h \<and> rooms_struct h \<and> rooms_agree h \<and>
     inv_limits h \<and> inv_gauges h"

lemmas registry_inv_defs =
  inv_clients_def inv_users_def index_wf_def rooms_struct_def rooms_agree_def inv_limits_def inv_gauges_def

subsection \<open>Hubs with the same registry\<close>

text \<open>\<open>kept\<close>: the settings of the hub, send buffers within their capacity, and answers to
  registrations, which nobody takes back.\<close>

definition queue_ok :: "client \<Rightarrow> bool" where
  "queue_ok cl \<longleftrightarrow> length (c_send cl) \<le> c_sendCap cl \<and> 0 < c_sendCap cl"

definition kept :: "hub \<Rightarrow> hub \<Rightarrow> bool" where
  "kept h h' \<longleftrightarrow> h_config h' = h_config h \<and> h_parallelBatchSize h' = h_parallelBatchSize h \<and>
     h_nodeID h' = h_nodeID h \<and> (\<forall>c. queue_ok (h_mem h c) \<longrightarrow> queue_ok (h_mem h' c)) \<and>
     (\<forall>c. h_results h c \<noteq> None \<longrightarrow> h_results h' c \<noteq> None)"

lemma kept_refl [simp]: "kept h h"
  by (simp add: kept_def)

lemma kept_trans: "kept h h' \<Longrightarrow> kept h' h'' \<Longrightarrow> kept h h''"
  by (simp add: kept_def)

lemma kept_same_mem:
  "h_mem h' = h_mem h \<Longrightarrow> h_config h' = h_config h \<Longrightarrow> h_parallelBatchSize h' = h_parallelBatchSize h \<Longrightarrow>
     h_nodeID h' = h_nodeID h \<Longrightarrow> h_results h' = h_results h \<Longrightarrow> kept h h'"
  by (simp add: kept_def)

lemma kept_same_send:
  "(\<And>c. c_send (h_mem h' c) = c_send (h_mem h c) \<and> c_sendCap (h_mem h' c) = c_sendCap (h_mem h c)) \<Longrightarrow>
     h_config h' = h_config h \<Longrightarrow> h_parallelBatchSize h' = h_parallelBatchSize h \<Longrightarrow>
     h_nodeID h' = h_nodeID h \<Longrightarrow> h_results h' = h_results h \<Longrightarrow> kept h h'"
  by (simp add: kept_def queue_ok_def)

definition same_registry :: "hub \<Rightarrow> hub \<Rightarrow> bool" where
  "same_registry h h' \<longleftrightarrow>
     h_cnext h' = h_cnext h \<and> h_rmem h' = h_rmem h \<and> h_rnext h' = h_rnext h \<and>
     h_clients h' = h_clients h \<and> h_clientIndex h' = h_clientIndex h \<and>
     h_clientCount h' = h_clientCount h \<and> h_rooms h' = h_rooms h \<and>
     h_roomVersion h' = h_roomVersion h \<and> h_userIndex h' = h_userIndex h \<and>
     h_limits h' = h_limits h \<and> h_register h' = h_register h \<and>
     h_unregister h' = h_unregister h \<and> h_clientsSnapshot h' = h_clientsSnapshot h \<and>
     (\<forall>c. c_ID (h_mem h' c) = c_ID (h_mem h c) \<and> c_userID (h_mem h' c) = c_userID (h_mem h c) \<and>
          c_rooms (h_mem h' c) = c_rooms (h_mem h c)) \<and>
     gauge conn_delta h' = gauge conn_delta h \<and> gauge room_delta h' = gauge room_delta h \<and>
     kept h h'"

definition hooks_observe :: "env \<Rightarrow> bool" where
  "hooks_observe e \<longleftrightarrow>
     (\<forall>f r h. BeforeConnect (e_hooks e) = Some f \<longrightarrow> same_registry h (snd (f r h))) \<and>
     (\<forall>f c n h. BeforeRoomJoin (e_hooks e) = Some f \<longrightarrow> same_registry h (snd (f c n h))) \<and>
     (\<forall>f c n h. BeforeRoomLeave (e_hooks e) = Some f \<longrightarrow> same_registry h (f c n h)) \<and>
     (\<forall>f c h. BeforeDisconnect (e_hooks e) = Some f \<longrightarrow> same_registry h (snd (f c h))) \<and>
     (\<forall>f c d h. OnSendDropped (e_hooks e) = Some f \<longrightarrow> same_registry h (f c d h))"

definition env_ok :: "env \<Rightarrow> bool" where
  "env_ok e \<longleftrightarrow> ranges_ok e \<and> hooks_observe e"

lemma same_registry_refl [simp, registry_intros]: "same_registry h h"
  by (simp add: same_registry_def)

lemma same_registry_trans [trans]:
  "same_registry h h' \<Longrightarrow> same_registry h' h'' \<Longrightarrow> same_registry h h''"
  by (auto simp: same_registry_def intro: kept_trans)

lemma members_cong: "h_rooms h' = h_rooms h \<Longrightarrow> h_rmem h' = h_rmem h \<Longrightarrow> members h' = members h"
  by (rule ext) (simp add: members_def split: option.split)

lemma users_cong: "h_userIndex h' = h_userIndex h \<Longrightarrow> users h' = users h"
  by (rule ext) (simp add: users_def)

lemma members_frame [simp]:
  "members (emit x h) = members h" "members (upd_client c f h) = members h"
  by (intro members_cong; simp add: frame_simps)+

lemma users_frame [simp]:
  "users (emit x h) = users h" "users (upd_client c f h) = users h"
  "users (upd_room r g h) = users h"
  by (intro users_cong; simp add: frame_simps)+

lemma same_registry_members: "same_registry h h' \<Longrightarrow> members h' = members h"
  by (rule members_cong) (simp_all add: same_registry_def)

lemma same_registry_users: "same_registry h h' \<Longrightarrow> users h' = users h"
  by (rule users_cong) (simp add: same_registry_def)

lemma same_registry_inv:
  assumes "same_registry h h'" and "registry_inv h"
  shows "registry_inv h'"
  using assms same_registry_members [OF assms(1)] same_registry_users [OF assms(1)]
  by (simp add: registry_inv_def registry_inv_defs same_registry_def)

text \<open>A trace entry that no registry gauge counts.\<close>

definition quiet :: "effect \<Rightarrow> bool" where
  "quiet x \<longleftrightarrow> metric_part conn_delta x = 0 \<and> metric_part room_delta x = 0"

lemma quiet_simps [simp]:
  "quiet (Log l s)" "quiet (Go g)" "quiet (Publish m)" "quiet (HttpError s k)"
  "quiet (CloseFrame c k s)"
  "quiet (Metric IncrementMessagesDropped)" "quiet (Metric (IncrementErrors t))"
  "quiet (Metric (IncrementMessagesSent k))" "quiet (Metric IncrementMessagesReceived)"
  "quiet (Metric (RecordBroadcastDuration d))" "quiet (Metric (RecordMessageSize k))"
  "quiet (Metric (RecordLatency k))" "quiet (Metric IncrementRoomJoins)"
  "quiet (Metric IncrementRoomLeaves)"
  by (simp_all add: quiet_def)

lemma same_registry_emit [registry_intros]: "quiet x \<Longrightarrow> same_registry h (emit x h)"
  by (simp add: same_registry_def frame_simps trace_simps quiet_def kept_same_mem)

lemma same_registry_upd_client [registry_intros]:
  assumes "c_ID (f (h_mem h c)) = c_ID (h_mem h c)"
    and "c_userID (f (h_mem h c)) = c_userID (h_mem h c)"
    and "c_rooms (f (h_mem h c)) = c_rooms (h_mem h c)"
    and "queue_ok (h_mem h c) \<Longrightarrow> queue_ok (f (h_mem h c))"
  shows "same_registry h (upd_client c f h)"
  using assms by (simp add: same_registry_def frame_simps trace_simps kept_def)

lemma same_registry_emitI [registry_intros]:
  "same_registry h h' \<Longrightarrow> quiet x \<Longrightarrow> same_registry h (emit x h')"
  by (erule same_registry_trans) (rule same_registry_emit)

text \<open>Facts about the abstract view that every component uses.\<close>

lemma members_Some: "h_rooms h n = Some r \<Longrightarrow> members h n = r_clients (h_rmem h r)"
  by (simp add: members_def)

lemma members_None: "h_rooms h n = None \<Longrightarrow> members h n = {}"
  by (simp add: members_def)

lemma inv_users_owner:
  "inv_users h \<Longrightarrow> c \<in> users h u \<Longrightarrow> c < h_cnext h \<and> c_userID (h_mem h c) = u"
  by (simp add: inv_users_def)

lemma inv_users_listed:
  "inv_users h \<Longrightarrow> c \<in> h_clients h \<Longrightarrow> c_userID (h_mem h c) \<noteq> [] \<Longrightarrow>
     c \<in> users h (c_userID (h_mem h c))"
  by (simp add: inv_users_def)

lemma index_wf_finite: "index_wf h \<Longrightarrow> finite (users h u)"
  by (auto simp: index_wf_def users_def split: option.splits)

lemma index_wf_empty: "index_wf h \<Longrightarrow> users h [] = {}"
  by (cases "h_userIndex h []") (auto simp: index_wf_def users_def)

lemma users_finite: "inv_users h \<Longrightarrow> finite (users h u)"
  by (simp add: inv_users_def index_wf_finite)

lemma members_finite: "rooms_struct h \<Longrightarrow> finite (members h n)"
  by (auto simp: rooms_struct_def room_ok_def members_def split: option.splits)

lemma rooms_struct_exists: "rooms_struct h \<Longrightarrow> h_rooms h n = None \<longleftrightarrow> members h n = {}"
  by (auto simp: rooms_struct_def members_def split: option.splits)

end
