(* ===== verification/Ws_Client.thy ===== *)
theory Ws_Client
  imports Ws_Registry
begin

section \<open>A client: construction, callbacks, closing, rate limiting (client.go)\<close>

text \<open>
  The operations of client.go that touch one client only: \<open>newClient\<close>, the accessors, the
  metadata map, the close protocol and the token bucket of \<open>checkRateLimit\<close>. A method that
  changes the client is a function on the hub through \<open>upd_client\<close>.

  The bucket is kept in real numbers (the code uses \<open>float64\<close>); times are nanoseconds.
\<close>

subsection \<open>Construction and accessors\<close>

definition newClient :: "Limits \<Rightarrow> Config \<Rightarrow> request \<Rightarrow> string \<Rightarrow> int \<Rightarrow> client" where
  "newClient lims cfg r uuid now =
     (let maxRate = (if MaxMessageRate lims \<le> 0 then 1 else real_of_int (MaxMessageRate lims)) in
      \<lparr>c_ID = uuid, c_send = [], c_sendCap = nat (SendChannelSize cfg), c_config = cfg,
       c_userID = '''', c_metadata = None, c_rooms = {}, c_closed = False, c_connectedAt = now,
       c_closedAt = None, c_request = r, c_tokens = maxRate, c_lastRefill = now,
       c_closeCode = 0, c_closeReason = '''', c_graceful = False, c_connClosed = False,
       c_done = False, c_onMessage = None, c_onClose = None, c_onError = None\<rparr>)"

lemma newClient_fields [simp]:
  "c_ID (newClient lims cfg r uuid now) = uuid" "c_rooms (newClient lims cfg r uuid now) = {}"
  "c_send (newClient lims cfg r uuid now) = []" "c_userID (newClient lims cfg r uuid now) = ''''"
  "c_sendCap (newClient lims cfg r uuid now) = nat (SendChannelSize cfg)"
  "c_closed (newClient lims cfg r uuid now) = False"
  by (simp_all add: newClient_def)

definition Request :: "cref \<Rightarrow> hub \<Rightarrow> request" where
  "Request c h = c_request (h_mem h c)"

definition ConnectedAt :: "cref \<Rightarrow> hub \<Rightarrow> int" where
  "ConnectedAt c h = c_connectedAt (h_mem h c)"

definition SetMetadata :: "string \<Rightarrow> nat \<Rightarrow> cref \<Rightarrow> hub \<Rightarrow> hub" where
  "SetMetadata key v c =
     upd_client c (\<lambda>cl. let m = (case c_metadata cl of None \<Rightarrow> \<lambda>_. None | Some m \<Rightarrow> m)
                        in cl\<lparr>c_metadata := Some (m(key \<mapsto> v))\<rparr>)"

definition GetMetadata :: "string \<Rightarrow> cref \<Rightarrow> hub \<Rightarrow> nat option" where
  "GetMetadata key c h = (case c_metadata (h_mem h c) of None \<Rightarrow> None | Some m \<Rightarrow> m key)"

definition DeleteMetadata :: "string \<Rightarrow> cref \<Rightarrow> hub \<Rightarrow> hub" where
  "DeleteMetadata key c =
     upd_client c (\<lambda>cl. cl\<lparr>c_metadata := map_option (\<lambda>m. m(key := None)) (c_metadata cl)\<rparr>)"

definition OnMessage :: "nat option \<Rightarrow> cref \<Rightarrow> hub \<Rightarrow> hub" where
  "OnMessage f c = upd_client c (\<lambda>cl. cl\<lparr>c_onMessage := f\<rparr>)"

definition OnClose :: "nat option \<Rightarrow> cref \<Rightarrow> hub \<Rightarrow> hub" where
  "OnClose f c = upd_client c (\<lambda>cl. cl\<lparr>c_onClose := f\<rparr>)"

definition OnError_client :: "nat option \<Rightarrow> cref \<Rightarrow> hub \<Rightarrow> hub" where
  "OnError_client f c = upd_client c (\<lambda>cl. cl\<lparr>c_onError := f\<rparr>)"

subsection \<open>Closing\<close>

text \<open>\<open>closeDone\<close> and \<open>closeConn\<close> are \<open>sync.Once\<close> guards: the second call does nothing.\<close>

definition closeDone :: "client \<Rightarrow> client" where
  "closeDone cl = cl\<lparr>c_done := True\<rparr>"

definition closeConn :: "client \<Rightarrow> client" where
  "closeConn cl = cl\<lparr>c_connClosed := True\<rparr>"

definition closeWithCode :: "int \<Rightarrow> int \<Rightarrow> string \<Rightarrow> client \<Rightarrow> client" where
  "closeWithCode now code reason cl =
     (if c_closed cl then cl
      else closeDone (cl\<lparr>c_closed := True, c_closedAt := Some now, c_closeCode := code,
                         c_closeReason := reason, c_graceful := True\<rparr>))"

definition CloseWithCode :: "env \<Rightarrow> cref \<Rightarrow> int \<Rightarrow> string \<Rightarrow> hub \<Rightarrow> hub" where
  "CloseWithCode e c code reason h = upd_client c (closeWithCode (e_now e) code reason) h"

definition CloseNormalClosure :: int where "CloseNormalClosure = 1000"
definition CloseGoingAway :: int where "CloseGoingAway = 1001"
definition CloseAbnormalClosure :: int where "CloseAbnormalClosure = 1006"
definition CloseInternalServerErr :: int where "CloseInternalServerErr = 1011"

definition Close :: "env \<Rightarrow> cref \<Rightarrow> hub \<Rightarrow> hub" where
  "Close e c h = CloseWithCode e c CloseNormalClosure '''' h"

definition isGraceful :: "cref \<Rightarrow> hub \<Rightarrow> bool" where
  "isGraceful c h = c_graceful (h_mem h c)"

definition IsClosed :: "cref \<Rightarrow> hub \<Rightarrow> bool" where
  "IsClosed c h = c_closed (h_mem h c)"

definition ClosedAt :: "cref \<Rightarrow> hub \<Rightarrow> int option" where
  "ClosedAt c h = c_closedAt (h_mem h c)"

text \<open>The part of \<open>handleUnregister\<close> that marks the client closed.\<close>

definition markClosed :: "int \<Rightarrow> client \<Rightarrow> client" where
  "markClosed now cl = (if c_closed cl then cl else cl\<lparr>c_closed := True, c_closedAt := Some now\<rparr>)"

subsection \<open>Rate limiting\<close>

definition rateStep :: "int \<Rightarrow> int \<Rightarrow> client \<Rightarrow> bool \<times> client" where
  "rateStep maxRate now cl =
     (if maxRate \<le> 0 then (True, cl)
      else
        let elapsed = real_of_int (now - c_lastRefill cl) / 1000000000;
            rate = real_of_int maxRate;
            tokens = c_tokens cl + elapsed * rate;
            capped = (if tokens > rate then rate else tokens);
            cl1 = cl\<lparr>c_lastRefill := now, c_tokens := capped\<rparr>
        in if capped < 1 then (False, cl1) else (True, cl1\<lparr>c_tokens := capped - 1\<rparr>))"

definition checkRateLimit :: "env \<Rightarrow> cref \<Rightarrow> hub \<Rightarrow> bool \<times> hub" where
  "checkRateLimit e c h =
     (case rateStep (MaxMessageRate (h_limits h)) (e_now e) (h_mem h c) of
        (ok, cl) \<Rightarrow> (ok, h\<lparr>h_mem := (h_mem h)(c := cl)\<rparr>))"

text \<open>The verdicts for a client that receives messages at the given times.\<close>

fun rateRun :: "int \<Rightarrow> int list \<Rightarrow> client \<Rightarrow> bool list \<times> client" where
  "rateRun maxRate [] cl = ([], cl)"
| "rateRun maxRate (t # ts) cl =
     (case rateStep maxRate t cl of
        (ok, cl1) \<Rightarrow> (case rateRun maxRate ts cl1 of (oks, cl2) \<Rightarrow> (ok # oks, cl2)))"

definition bucket_ok :: "int \<Rightarrow> client \<Rightarrow> bool" where
  "bucket_ok maxRate cl \<longleftrightarrow> 0 \<le> c_tokens cl \<and> c_tokens cl \<le> real_of_int maxRate"

definition allowed :: "bool list \<Rightarrow> nat" where
  "allowed oks = length (filter id oks)"

subsection \<open>Closing: facts\<close>

lemma close_frame [simp]:
  "c_ID (closeDone cl) = c_ID cl" "c_userID (closeDone cl) = c_userID cl" "c_rooms (closeDone cl) = c_rooms cl"
  "c_ID (closeConn cl) = c_ID cl" "c_userID (closeConn cl) = c_userID cl" "c_rooms (closeConn cl) = c_rooms cl"
  "c_ID (closeWithCode t k s cl) = c_ID cl" "c_userID (closeWithCode t k s cl) = c_userID cl"
  "c_rooms (closeWithCode t k s cl) = c_rooms cl" "c_send (closeWithCode t k s cl) = c_send cl"
  "c_ID (markClosed t cl) = c_ID cl" "c_userID (markClosed t cl) = c_userID cl"
  "c_rooms (markClosed t cl) = c_rooms cl"
  "queue_ok (closeDone cl) = queue_ok cl" "queue_ok (closeConn cl) = queue_ok cl"
  "queue_ok (closeWithCode t k s cl) = queue_ok cl" "queue_ok (markClosed t cl) = queue_ok cl"
  by (simp_all add: closeDone_def closeConn_def closeWithCode_def markClosed_def queue_ok_def)

lemma CloseWithCode_same [registry_intros]: "same_registry h (CloseWithCode e c code reason h)"
  by (simp add: CloseWithCode_def same_registry_upd_client)

lemma Close_same [registry_intros]: "same_registry h (Close e c h)"
  by (simp add: Close_def registry_intros)

lemma checkRateLimit_same: "checkRateLimit e c h = (ok, h') \<Longrightarrow> same_registry h h'"
  by (auto simp: checkRateLimit_def rateStep_def Let_def same_registry_def gauge_def kept_def queue_ok_def
      split: if_splits prod.splits)

subsection \<open>The token bucket\<close>

lemma rateStep_cases [consumes 2]:
  assumes "0 < maxRate" and "rateStep maxRate now cl = (ok, cl')"
  obtains capped where
    "capped = min (real_of_int maxRate) (c_tokens cl + real_of_int (now - c_lastRefill cl) / 1000000000 * real_of_int maxRate)"
    "ok \<longleftrightarrow> 1 \<le> capped" "c_tokens cl' = (if ok then capped - 1 else capped)" "c_lastRefill cl' = now"
  using assms by (auto simp: rateStep_def Let_def split: if_splits)

lemma rateStep_bucket:
  assumes "0 < maxRate" and "rateStep maxRate now cl = (ok, cl')"
    and "bucket_ok maxRate cl" and "c_lastRefill cl \<le> now"
  shows "bucket_ok maxRate cl'"
  using assms(1,2)
proof (cases rule: rateStep_cases)
  case (1 capped)
  have "0 \<le> real_of_int (now - c_lastRefill cl) / 1000000000 * real_of_int maxRate"
    using assms(1,4) by simp
  with 1 assms(1,3) show ?thesis by (auto simp: bucket_ok_def)
qed

lemma rateStep_spend:
  assumes "0 < maxRate" and "rateStep maxRate now cl = (ok, cl')"
  shows "real (if ok then 1 else 0) + c_tokens cl' \<le>
    c_tokens cl + real_of_int maxRate * real_of_int (now - c_lastRefill cl) / 1000000000"
  using assms
proof (cases rule: rateStep_cases)
  case (1 capped)
  then show ?thesis by (simp add: mult.commute)
qed

lemma rateRun_spend:
  assumes "0 < maxRate"
  shows "rateRun maxRate ts cl = (oks, cl') \<Longrightarrow>
    real (allowed oks) + c_tokens cl' \<le>
      c_tokens cl + real_of_int maxRate * real_of_int (c_lastRefill cl' - c_lastRefill cl) / 1000000000"
proof (induction ts arbitrary: cl oks)
  case Nil
  then show ?case by (simp add: allowed_def)
next
  case (Cons t ts)
  obtain ok cl1 where s: "rateStep maxRate t cl = (ok, cl1)" by force
  obtain oks' where r: "rateRun maxRate ts cl1 = (oks', cl')" "oks = ok # oks'"
    using Cons.prems s by (auto split: prod.splits)
  have "c_lastRefill cl1 = t" using assms s by (auto elim: rateStep_cases)
  moreover have "real (allowed oks) = real (if ok then 1 else 0) + real (allowed oks')"
    by (simp add: r(2) allowed_def)
  ultimately show ?case
    using Cons.IH [OF r(1)] rateStep_spend [OF assms s] by (simp add: right_diff_distrib diff_divide_distrib)
qed

lemma rateRun_bucket:
  assumes "0 < maxRate"
  shows "rateRun maxRate ts cl = (oks, cl') \<Longrightarrow> bucket_ok maxRate cl \<Longrightarrow> sorted (c_lastRefill cl # ts) \<Longrightarrow>
    bucket_ok maxRate cl' \<and> c_lastRefill cl' = last (c_lastRefill cl # ts)"
proof (induction ts arbitrary: cl oks)
  case Nil
  then show ?case by simp
next
  case (Cons t ts)
  obtain ok cl1 where s: "rateStep maxRate t cl = (ok, cl1)" by force
  obtain oks' where r: "rateRun maxRate ts cl1 = (oks', cl')"
    using Cons.prems s by (auto split: prod.splits)
  have l: "c_lastRefill cl1 = t" using assms s by (auto elim: rateStep_cases)
  have "bucket_ok maxRate cl1" using rateStep_bucket [OF assms s] Cons.prems by simp
  then show ?case using Cons.IH [OF r] Cons.prems l by simp
qed

lemma newClient_bucket:
  "0 < MaxMessageRate lims \<Longrightarrow> bucket_ok (MaxMessageRate lims) (newClient lims cfg r uuid now)"
  by (simp add: bucket_ok_def newClient_def)

subsection \<open>Property\<close>

text \<open>C35: Rate limiting. However messages arrive on a new client, the number that
  \<open>checkRateLimit\<close> lets through up to time \<open>T\<close> is at most the burst of one second plus
  \<open>MaxMessageRate\<close> per elapsed second, and the bucket never goes below zero or above the rate.\<close>

theorem rate_limit_bound:
  assumes "0 < MaxMessageRate lims" and "sorted (t0 # ts)"
    and "rateRun (MaxMessageRate lims) ts (newClient lims cfg r uuid t0) = (oks, cl)"
  shows "real (allowed oks) \<le> real_of_int (MaxMessageRate lims) +
      real_of_int (MaxMessageRate lims) * real_of_int (last (t0 # ts) - t0) / 1000000000 \<and>
    bucket_ok (MaxMessageRate lims) cl"
proof -
  let ?cl0 = "newClient lims cfg r uuid t0"
  have c0: "c_lastRefill ?cl0 = t0" "c_tokens ?cl0 = real_of_int (MaxMessageRate lims)"
    using assms(1) by (simp_all add: newClient_def)
  have b: "bucket_ok (MaxMessageRate lims) cl \<and> c_lastRefill cl = last (t0 # ts)"
    using rateRun_bucket [OF assms(1,3) newClient_bucket [OF assms(1)]] assms(2) by (simp add: c0)
  then have "0 \<le> c_tokens cl" by (simp add: bucket_ok_def)
  with rateRun_spend [OF assms(1,3)] b show ?thesis by (simp add: c0)
qed

theorem rate_limit_bound_witness:
  "allowed (fst (rateRun 2 [0, 0, 0] (newClient (WithMaxMessageRate 2 DefaultLimits) (DefaultConfig (\<lambda>_. None))
     \<lparr>rq_Origin = '''', rq_Host = ''h'', rq_RemoteAddr = ''r''\<rparr> ''c'' 0))) \<le> 2"
proof -
  let ?lims = "WithMaxMessageRate 2 DefaultLimits" and ?cfg = "DefaultConfig (\<lambda>_. None)"
    and ?r = "\<lparr>rq_Origin = '''', rq_Host = ''h'', rq_RemoteAddr = ''r''\<rparr>"
  obtain oks cl where r: "rateRun (MaxMessageRate ?lims) [0, 0, 0] (newClient ?lims ?cfg ?r ''c'' 0) = (oks, cl)" by force
  have "real (allowed oks) \<le> 2" using rate_limit_bound [OF _ _ r] by (simp add: WithMaxMessageRate_def)
  with r show ?thesis by (simp add: WithMaxMessageRate_def)
qed

end
