(* ===== verification/Ws_Example.thy ===== *)
theory Ws_Example
  imports Ws_Client "HOL-Library.List_Lexorder" "HOL-Library.Char_ord"
begin

section \<open>A small hub\<close>

text \<open>
  A concrete environment and a concrete hub on which the theorems of the development are
  applied: clients 0 and 1 are registered, client 0 is in room ''lobby'', client 1 belongs to
  user ''u1'', client 2 waits for registration. Every limit is set, the hub has an adapter,
  and send buffers hold two messages.
\<close>

definition exampleEnv :: env where
  "exampleEnv = \<lparr>e_rangeC = sorted_list_of_set, e_rangeS = sorted_list_of_set, e_now = 1000,
     e_elapsed = 1, e_hooks = noHooks, e_publish = (\<lambda>_. None), e_pickRegister = (\<lambda>_. True),
     e_sched = concat, e_submit = (\<lambda>_. True),
     e_encPresence = (\<lambda>p. Some (CHR ''p'' # np_NodeID p)),
     e_decPresence = (\<lambda>_. None)\<rparr>"

definition exampleLimits :: Limits where
  "exampleLimits = \<lparr>MaxConnections = 3, MaxConnectionsPerUser = 2, MaxRoomsPerClient = 2,
     MaxClientsPerRoom = 2, MaxMessageRate = 5\<rparr>"

definition exampleConfig :: Config where
  "exampleConfig = WithSendChannelSize 2 (DefaultConfig (\<lambda>_. None))"

definition exampleRequest :: request where
  "exampleRequest = \<lparr>rq_Origin = '''', rq_Host = ''example'', rq_RemoteAddr = ''1.2.3.4''\<rparr>"

definition exampleClient :: "cref \<Rightarrow> client" where
  "exampleClient c =
     (newClient exampleLimits exampleConfig exampleRequest
        (if c = 0 then ''c0'' else if c = 1 then ''c1'' else ''c2'') 0)
     \<lparr>c_userID := (if c = 1 then ''u1'' else ''''), c_rooms := (if c = 0 then {''lobby''} else {})\<rparr>"

definition exampleHub :: hub where
  "exampleHub =
     \<lparr>h_mem = exampleClient, h_cnext = 3,
      h_rmem = (\<lambda>_. \<lparr>r_clients = {0}, r_snapshot = Some [0]\<rparr>), h_rnext = 1,
      h_clients = {0, 1}, h_clientIndex = [''c0'' \<mapsto> 0, ''c1'' \<mapsto> 1],
      h_clientsSnapshot = Some \<lparr>s_set = {0, 1}, s_slice = [0, 1]\<rparr>, h_clientCount = 2,
      h_rooms = [''lobby'' \<mapsto> 0], h_roomVersion = 1, h_userIndex = [''u1'' \<mapsto> {1}],
      h_register = [2], h_unregister = [], h_results = (\<lambda>_. None),
      h_config = exampleConfig, h_limits = exampleLimits, h_onMessage = None,
      h_state = StateRunning, h_alive = True, h_startedAt = Some 0, h_ctxDone = False,
      h_drainDone = False, h_drainTimeout = 30 * Second, h_parallelBatchSize = 1,
      h_useParallel = True, h_poolStarted = False, h_poolStopped = False, h_poolSize = 4,
      h_dropPolicy = DropOldest, h_skipHandlerLatency = False, h_adapter = True,
      h_nodeID = ''A'', h_originRejectLog = 0, h_upgradeFailLog = 0, h_hookTimeout = 5 * Second,
      h_presenceCache = Some (\<lambda>_. None), h_presenceInterval = 5 * Second,
      h_presenceTTL = 15 * Second,
      h_trace = [Metric IncrementConnections, Metric IncrementConnections, Metric IncrementRooms,
                 Metric IncrementRoomJoins]\<rparr>"

lemma range_ok_sorted: "range_ok sorted_list_of_set"
  by (simp add: range_ok_def)

lemma exampleEnv_ok: "env_ok exampleEnv" "ranges_ok exampleEnv" "sched_ok exampleEnv"
  by (simp_all add: env_ok_def ranges_ok_def exampleEnv_def range_ok_sorted hooks_observe_def noHooks_def
      sched_ok_def)

lemma exampleClient_fields [simp]:
  "c_ID (exampleClient c) = (if c = 0 then ''c0'' else if c = 1 then ''c1'' else ''c2'')"
  "c_userID (exampleClient c) = (if c = 1 then ''u1'' else '''')"
  "c_rooms (exampleClient c) = (if c = 0 then {''lobby''} else {})"
  "c_send (exampleClient c) = []" "c_sendCap (exampleClient c) = 2" "c_closed (exampleClient c) = False"
  by (simp_all add: exampleClient_def newClient_def exampleConfig_def WithSendChannelSize_def)

lemma exampleHub_fields [simp]:
  "h_mem exampleHub = exampleClient" "h_cnext exampleHub = 3" "h_clients exampleHub = {0, 1}"
  "h_rmem exampleHub = (\<lambda>_. \<lparr>r_clients = {0}, r_snapshot = Some [0]\<rparr>)" "h_rnext exampleHub = 1"
  "h_clientIndex exampleHub = [''c0'' \<mapsto> 0, ''c1'' \<mapsto> 1]" "h_clientCount exampleHub = 2"
  "h_clientsSnapshot exampleHub = Some \<lparr>s_set = {0, 1}, s_slice = [0, 1]\<rparr>"
  "h_rooms exampleHub = [''lobby'' \<mapsto> 0]" "h_roomVersion exampleHub = 1"
  "h_userIndex exampleHub = [''u1'' \<mapsto> {1}]" "h_register exampleHub = [2]" "h_unregister exampleHub = []"
  "h_limits exampleHub = exampleLimits" "h_parallelBatchSize exampleHub = 1" "h_adapter exampleHub"
  "h_nodeID exampleHub = ''A''" "h_dropPolicy exampleHub = DropOldest" "h_state exampleHub = StateRunning"
  "h_presenceCache exampleHub = Some (\<lambda>_. None)" "h_useParallel exampleHub"
  by (simp_all add: exampleHub_def)

lemma exampleHub_views:
  "members exampleHub n = (if n = ''lobby'' then {0} else {})"
  "users exampleHub u = (if u = ''u1'' then {1} else {})"
  by (simp_all add: members_def users_def)

lemma exampleHub_gauges: "gauge conn_delta exampleHub = 2" "gauge room_delta exampleHub = 1"
  by (simp_all add: gauge_def exampleHub_def)

lemma exampleHub_inv: "registry_inv exampleHub"
proof -
  have "inv_clients exampleHub" by (auto simp: inv_clients_def split: if_splits)
  moreover have "inv_users exampleHub"
    by (auto simp: inv_users_def index_wf_def exampleHub_views split: if_splits)
  moreover have "rooms_struct exampleHub" by (auto simp: rooms_struct_def room_ok_def split: if_splits)
  moreover have "rooms_agree exampleHub" by (auto simp: rooms_agree_def exampleHub_views)
  moreover have "inv_limits exampleHub"
    by (auto simp: inv_limits_def exampleHub_views exampleLimits_def within_limit_def)
  moreover have "inv_gauges exampleHub" by (simp add: inv_gauges_def exampleHub_gauges)
  ultimately show ?thesis by (simp add: registry_inv_def)
qed

end
