(* ===== verification/Ws_UserIndex.thy ===== *)
theory Ws_UserIndex
  imports Ws_Example
begin

section \<open>The user index (hub.go: addToUserIndex, removeFromUserIndex, setClientUserID)\<close>

text \<open>
  The three operations on \<open>userIndex\<close>, each one critical section under \<open>userIndexMu\<close>,
  and what they guarantee: \<open>SetUserID\<close> moves a client from one user to another or leaves
  everything as it was, and never exceeds \<open>MaxConnectionsPerUser\<close>.
\<close>

definition GetUserID :: "cref \<Rightarrow> hub \<Rightarrow> string" where
  "GetUserID c h = c_userID (h_mem h c)"

definition indexInsert :: "string \<Rightarrow> cref \<Rightarrow> hub \<Rightarrow> hub" where
  "indexInsert u c h = h\<lparr>h_userIndex := (h_userIndex h)(u \<mapsto> insert c (users h u))\<rparr>"

text \<open>\<open>delete(clients, client)\<close>, and the entry itself once no client is left.\<close>

definition indexDelete :: "string \<Rightarrow> cref \<Rightarrow> hub \<Rightarrow> hub" where
  "indexDelete u c h = (case h_userIndex h u of
       None \<Rightarrow> h
     | Some S \<Rightarrow>
         if S - {c} = {} then h\<lparr>h_userIndex := (h_userIndex h)(u := None)\<rparr>
         else h\<lparr>h_userIndex := (h_userIndex h)(u \<mapsto> S - {c})\<rparr>)"

definition addToUserIndex :: "cref \<Rightarrow> hub \<Rightarrow> wsError option \<times> hub" where
  "addToUserIndex c h =
     (let userID = GetUserID c h in
      if userID = '''' then (None, h)
      else if at_limit (MaxConnectionsPerUser (h_limits h)) (card (users h userID))
      then (Some ErrMaxUserConnectionsReached, h)
      else (None, indexInsert userID c h))"

definition removeFromUserIndex :: "cref \<Rightarrow> hub \<Rightarrow> hub" where
  "removeFromUserIndex c h =
     (let userID = GetUserID c h in
      if userID = '''' then h else indexDelete userID c h)"

definition setClientUserID :: "cref \<Rightarrow> string \<Rightarrow> hub \<Rightarrow> wsError option \<times> hub" where
  "setClientUserID c newUserID h =
     (let oldUserID = c_userID (h_mem h c) in
      if oldUserID = newUserID then (None, h)
      else if newUserID \<noteq> '''' \<and>
              at_limit (MaxConnectionsPerUser (h_limits h)) (card (users h newUserID))
      then (Some ErrMaxUserConnectionsReached, h)
      else
        let h1 = upd_client c (\<lambda>cl. cl\<lparr>c_userID := newUserID\<rparr>) h;
            h2 = (if oldUserID \<noteq> '''' then indexDelete oldUserID c h1 else h1);
            h3 = (if newUserID \<noteq> '''' then indexInsert newUserID c h2 else h2)
        in (None, h3))"

definition SetUserID :: "cref \<Rightarrow> string \<Rightarrow> hub \<Rightarrow> wsError option \<times> hub" where
  "SetUserID c userID h = setClientUserID c userID h"

definition GetClientsByUserID :: "env \<Rightarrow> string \<Rightarrow> hub \<Rightarrow> cref list" where
  "GetClientsByUserID e userID h = e_rangeC e (users h userID)"

definition GetClientByUserID :: "env \<Rightarrow> string \<Rightarrow> hub \<Rightarrow> cref option" where
  "GetClientByUserID e userID h =
     (case e_rangeC e (users h userID) of [] \<Rightarrow> None | c # _ \<Rightarrow> Some c)"

subsection \<open>Effect on the abstract view\<close>

lemma users_indexInsert [simp]:
  "users (indexInsert u c h) = (users h)(u := insert c (users h u))"
  by (rule ext) (simp add: users_def indexInsert_def)

lemma users_indexDelete [simp]:
  "users (indexDelete u c h) = (users h)(u := users h u - {c})"
  by (rule ext) (auto simp: users_def indexDelete_def split: option.splits)

lemma index_frame [frame_simps]:
  "h_mem (indexInsert u c h) = h_mem h" "h_cnext (indexInsert u c h) = h_cnext h"
  "h_rmem (indexInsert u c h) = h_rmem h" "h_rnext (indexInsert u c h) = h_rnext h"
  "h_clients (indexInsert u c h) = h_clients h" "h_clientIndex (indexInsert u c h) = h_clientIndex h"
  "h_clientCount (indexInsert u c h) = h_clientCount h" "h_rooms (indexInsert u c h) = h_rooms h"
  "h_limits (indexInsert u c h) = h_limits h" "h_trace (indexInsert u c h) = h_trace h"
  "h_register (indexInsert u c h) = h_register h" "h_unregister (indexInsert u c h) = h_unregister h"
  "h_clientsSnapshot (indexInsert u c h) = h_clientsSnapshot h" "h_roomVersion (indexInsert u c h) = h_roomVersion h"
  "h_config (indexInsert u c h) = h_config h" "h_parallelBatchSize (indexInsert u c h) = h_parallelBatchSize h"
  "h_nodeID (indexInsert u c h) = h_nodeID h" "h_results (indexInsert u c h) = h_results h"
  "h_mem (indexDelete u c h) = h_mem h" "h_cnext (indexDelete u c h) = h_cnext h"
  "h_rmem (indexDelete u c h) = h_rmem h" "h_rnext (indexDelete u c h) = h_rnext h"
  "h_clients (indexDelete u c h) = h_clients h" "h_clientIndex (indexDelete u c h) = h_clientIndex h"
  "h_clientCount (indexDelete u c h) = h_clientCount h" "h_rooms (indexDelete u c h) = h_rooms h"
  "h_limits (indexDelete u c h) = h_limits h" "h_trace (indexDelete u c h) = h_trace h"
  "h_register (indexDelete u c h) = h_register h" "h_unregister (indexDelete u c h) = h_unregister h"
  "h_clientsSnapshot (indexDelete u c h) = h_clientsSnapshot h" "h_roomVersion (indexDelete u c h) = h_roomVersion h"
  "h_config (indexDelete u c h) = h_config h" "h_parallelBatchSize (indexDelete u c h) = h_parallelBatchSize h"
  "h_nodeID (indexDelete u c h) = h_nodeID h" "h_results (indexDelete u c h) = h_results h"
  by (simp_all add: indexInsert_def indexDelete_def split: option.split)

lemma index_members [simp]:
  "members (indexInsert u c h) = members h" "members (indexDelete u c h) = members h"
  by (intro members_cong; simp add: frame_simps)+

lemma entries_indexInsert:
  "h_userIndex (indexInsert u c h) w = Some S \<longleftrightarrow>
     (if w = u then S = insert c (users h u) else h_userIndex h w = Some S)"
  by (auto simp: indexInsert_def)

lemma entries_indexDelete:
  "h_userIndex (indexDelete u c h) w = Some S \<Longrightarrow>
     (if w = u then S = users h u - {c} \<and> S \<noteq> {} else h_userIndex h w = Some S)"
  by (auto simp: indexDelete_def users_def split: option.splits if_splits)

text \<open>Moving a client between users, the specification of \<open>setClientUserID\<close>.\<close>

definition move_user :: "(string \<Rightarrow> cref set) \<Rightarrow> cref \<Rightarrow> string \<Rightarrow> string \<Rightarrow> string \<Rightarrow> cref set" where
  "move_user U c old new w =
     (if w = '''' then U w
      else if w = new then insert c (U w)
      else if w = old then U w - {c} else U w)"

lemma setClientUserID_users:
  assumes "setClientUserID c new h = (None, h')" and "c_userID (h_mem h c) \<noteq> new"
  shows "users h' = move_user (users h) c (c_userID (h_mem h c)) new"
    and "h_mem h' = (h_mem h)(c := (h_mem h c)\<lparr>c_userID := new\<rparr>)"
    and "h_trace h' = h_trace h"
  using assms
  by (auto simp: setClientUserID_def Let_def move_user_def frame_simps fun_eq_iff split: if_splits)

lemma setClientUserID_frame:
  assumes "setClientUserID c new h = (r, h')"
  shows "h_clients h' = h_clients h" "h_clientIndex h' = h_clientIndex h"
    "h_clientCount h' = h_clientCount h" "h_cnext h' = h_cnext h" "h_rooms h' = h_rooms h"
    "h_rmem h' = h_rmem h" "h_rnext h' = h_rnext h" "h_limits h' = h_limits h"
    "h_register h' = h_register h" "h_unregister h' = h_unregister h"
    "h_clientsSnapshot h' = h_clientsSnapshot h" "h_roomVersion h' = h_roomVersion h"
    "kept h h'"
    "h_trace h' = h_trace h" "c_ID (h_mem h' x) = c_ID (h_mem h x)"
    "c_rooms (h_mem h' x) = c_rooms (h_mem h x)"
  using assms by (auto simp: setClientUserID_def Let_def frame_simps kept_def queue_ok_def split: if_splits)

subsection \<open>Correctness\<close>

lemma index_wf_indexInsert: "index_wf h \<Longrightarrow> u \<noteq> '''' \<Longrightarrow> index_wf (indexInsert u c h)"
  using index_wf_finite [of h u] by (auto simp: index_wf_def entries_indexInsert)

lemma index_wf_indexDelete: "index_wf h \<Longrightarrow> index_wf (indexDelete u c h)"
  by (auto simp: index_wf_def indexDelete_def split: option.split)

lemma index_wf_upd_client [simp]: "index_wf (upd_client c f h) = index_wf h"
  by (simp add: index_wf_def frame_simps)

lemma setClientUserID_wf: "index_wf h \<Longrightarrow> setClientUserID c new h = (r, h') \<Longrightarrow> index_wf h'"
  by (auto simp: setClientUserID_def Let_def index_wf_indexInsert index_wf_indexDelete split: if_splits)

lemma setClientUserID_inv_users:
  assumes inv: "inv_users h" and c: "c < h_cnext h" and r: "setClientUserID c new h = (r, h')"
  shows "inv_users h'"
proof (cases "r = None \<and> c_userID (h_mem h c) \<noteq> new")
  case False
  with r have "h' = h" by (auto simp: setClientUserID_def Let_def split: if_splits)
  with inv show ?thesis by simp
next
  case True
  then have ok: "setClientUserID c new h = (None, h')" and ne: "c_userID (h_mem h c) \<noteq> new"
    using r by auto
  note eff = setClientUserID_users [OF ok ne] setClientUserID_frame [OF ok]
  have entry: "index_wf h'"
    using inv ok by (auto simp: inv_users_def intro: setClientUserID_wf)
  have owner: "x < h_cnext h' \<and> c_userID (h_mem h' x) = u" if "x \<in> users h' u" for x u
  proof -
    have "x \<in> users h u \<or> x = c \<and> u = new" and "x = c \<Longrightarrow> u = new \<or> u \<noteq> c_userID (h_mem h c)"
      using that inv index_wf_empty [of h] by (auto simp: eff move_user_def inv_users_def split: if_splits)
    then show ?thesis using inv_users_owner [OF inv, of x u] c by (auto simp: eff)
  qed
  have listed: "x \<in> users h' (c_userID (h_mem h' x))"
    if "x \<in> h_clients h'" "c_userID (h_mem h' x) \<noteq> ''''" for x
    using that inv_users_listed [OF inv, of x] ne by (auto simp: eff move_user_def split: if_splits)
  show ?thesis unfolding inv_users_def using entry owner listed by blast
qed

lemma setClientUserID_limit:
  assumes inv: "inv_users h"
    and lim: "\<forall>u. within_limit (MaxConnectionsPerUser (h_limits h)) (card (users h u))"
    and r: "setClientUserID c new h = (r, h')"
  shows "within_limit (MaxConnectionsPerUser (h_limits h)) (card (users h' u))"
proof (cases "r = None \<and> c_userID (h_mem h c) \<noteq> new")
  case False
  with r have "h' = h" by (auto simp: setClientUserID_def Let_def split: if_splits)
  with lim show ?thesis by simp
next
  case True
  then have ok: "setClientUserID c new h = (None, h')" and ne: "c_userID (h_mem h c) \<noteq> new"
    using r by auto
  have fin: "finite (users h w)" for w by (rule users_finite [OF inv])
  have "new = '''' \<or> within_limit (MaxConnectionsPerUser (h_limits h)) (Suc (card (users h new)))"
    using ok ne by (auto simp: setClientUserID_def Let_def split: if_splits)
  then show ?thesis
    using lim fin within_limit_card_insert [OF fin] within_limit_card_Diff [OF fin]
    by (auto simp: setClientUserID_users(1) [OF ok ne] move_user_def)
qed

lemma setClientUserID_inv:
  assumes "registry_inv h" and "c < h_cnext h" and r: "setClientUserID c new h = (r, h')"
  shows "registry_inv h'"
proof -
  note frame = setClientUserID_frame [OF r]
  have mem: "members h' = members h" by (rule members_cong) (simp_all add: frame)
  have lim: "within_limit (MaxConnectionsPerUser (h_limits h)) (card (users h' u))" for u
    using assms by (intro setClientUserID_limit [OF _ _ r]) (auto simp: registry_inv_def inv_limits_def)
  show ?thesis
    using assms setClientUserID_inv_users [OF _ _ r] lim
    by (simp add: registry_inv_def inv_clients_def rooms_struct_def rooms_agree_def inv_limits_def
        inv_gauges_def gauge_def frame mem)
qed

subsection \<open>Property\<close>

text \<open>C12: \<open>SetUserID\<close> either moves the client from its old user to the new one in the user index
  (nobody else moves, an empty user has no entry) or, when the new user is at
  \<open>MaxConnectionsPerUser\<close>, returns \<open>ErrMaxUserConnectionsReached\<close> and changes nothing; the
  registry invariant is kept either way.\<close>

theorem SetUserID_moves:
  assumes "registry_inv h" and "c < h_cnext h" and "SetUserID c u h = (res, h')"
  shows "registry_inv h' \<and>
    (case res of
       None \<Rightarrow> GetUserID c h' = u \<and>
         users h' = (if GetUserID c h = u then users h else move_user (users h) c (GetUserID c h) u)
     | Some err \<Rightarrow> err = ErrMaxUserConnectionsReached \<and> h' = h \<and> u \<noteq> '''' \<and> GetUserID c h \<noteq> u \<and>
         at_limit (MaxConnectionsPerUser (h_limits h)) (card (users h u)))"
proof -
  have r: "setClientUserID c u h = (res, h')" using assms(3) by (simp add: SetUserID_def)
  have "case res of
       None \<Rightarrow> GetUserID c h' = u \<and>
         users h' = (if GetUserID c h = u then users h else move_user (users h) c (GetUserID c h) u)
     | Some err \<Rightarrow> err = ErrMaxUserConnectionsReached \<and> h' = h \<and> u \<noteq> '''' \<and> GetUserID c h \<noteq> u \<and>
         at_limit (MaxConnectionsPerUser (h_limits h)) (card (users h u))"
  proof (cases "res = None \<and> GetUserID c h \<noteq> u")
    case True
    then have "setClientUserID c u h = (None, h')" "c_userID (h_mem h c) \<noteq> u"
      using r by (simp_all add: GetUserID_def)
    from setClientUserID_users [OF this] True show ?thesis by (simp add: GetUserID_def)
  next
    case False
    with r show ?thesis
      by (auto simp: setClientUserID_def GetUserID_def Let_def split: if_splits)
  qed
  with setClientUserID_inv [OF assms(1,2) r] show ?thesis by simp
qed

theorem SetUserID_moves_witness:
  "users (snd (SetUserID 0 ''u1'' exampleHub)) ''u1'' = {0, 1} \<and>
   registry_inv (snd (SetUserID 0 ''u1'' exampleHub))"
proof -
  obtain res h' where r: "SetUserID 0 ''u1'' exampleHub = (res, h')" by force
  have "res = None"
    using r by (auto simp: SetUserID_def setClientUserID_def Let_def exampleHub_views exampleLimits_def
        at_limit_def split: if_splits)
  with SetUserID_moves [OF exampleHub_inv _ r] r show ?thesis
    by (simp add: GetUserID_def move_user_def exampleHub_views)
qed

end
