(* ===== verification/Ws_Rooms.thy ===== *)
theory Ws_Rooms
  imports Ws_UserIndex
begin

section \<open>Rooms (hub.go: JoinRoom, LeaveRoom, LeaveAllRooms and the room queries)\<close>

text \<open>
  The room operations, split at the points where the code releases its locks:
  \<open>getOrCreateRoom\<close> is the section under \<open>roomsMu\<close>, \<open>joinLocked\<close> the one under
  \<open>room.mu\<close>, \<open>deleteRoomIfEmpty\<close> the one under both. \<open>JoinRoom\<close>, \<open>LeaveRoom\<close> and
  \<open>removeClientFromAllRoomsWithHooks\<close> compose them in the order of the code, with the
  hooks where the code calls them.

  The text \<open>fmt.Errorf\<close> prefixes to an error is kept without the quoting of \<open>%q\<close>.
\<close>

subsection \<open>Snapshots\<close>

definition loadRoomSnapshot :: "Room \<Rightarrow> cref list" where
  "loadRoomSnapshot room = (case r_snapshot room of None \<Rightarrow> [] | Some s \<Rightarrow> s)"

definition rebuildRoomSnapshot :: "env \<Rightarrow> rref \<Rightarrow> hub \<Rightarrow> hub" where
  "rebuildRoomSnapshot e r h =
     upd_room r (\<lambda>room. room\<lparr>r_snapshot := Some (e_rangeC e (r_clients room))\<rparr>) h"

subsection \<open>Operations\<close>

definition deleteRoomIfEmpty :: "string \<Rightarrow> rref \<Rightarrow> hub \<Rightarrow> hub" where
  "deleteRoomIfEmpty n r h =
     (if r_clients (h_rmem h r) = {} \<and> h_rooms h n = Some r
      then emit (Metric DecrementRooms) (h\<lparr>h_rooms := (h_rooms h)(n := None)\<rparr>)
      else h)"

definition getOrCreateRoom :: "string \<Rightarrow> hub \<Rightarrow> (rref \<times> bool) \<times> hub" where
  "getOrCreateRoom n h = (case h_rooms h n of
       Some r \<Rightarrow> ((r, True), h)
     | None \<Rightarrow>
         let r = h_rnext h in
         ((r, False), emit (Metric IncrementRooms)
            (h\<lparr>h_rmem := (h_rmem h)(r := \<lparr>r_clients = {}, r_snapshot = None\<rparr>),
               h_rnext := Suc r, h_rooms := (h_rooms h)(n \<mapsto> r)\<rparr>)))"

definition cleanupRoom :: "string \<Rightarrow> rref \<Rightarrow> bool \<Rightarrow> hub \<Rightarrow> hub" where
  "cleanupRoom n r exists h =
     (if \<not> exists \<and> r_clients (h_rmem h r) = {} then deleteRoomIfEmpty n r h else h)"

definition joinCommit :: "env \<Rightarrow> cref \<Rightarrow> string \<Rightarrow> rref \<Rightarrow> hub \<Rightarrow> hub" where
  "joinCommit e c n r h =
     (let h1 = upd_client c (\<lambda>cl. cl\<lparr>c_rooms := insert n (c_rooms cl)\<rparr>) h;
          h2 = upd_room r (\<lambda>room. room\<lparr>r_clients := insert c (r_clients room)\<rparr>) h1;
          h3 = rebuildRoomSnapshot e r h2;
          h4 = h3\<lparr>h_roomVersion := h_roomVersion h3 + 1\<rparr>;
          h5 = emit (Log Debug ''Client joined room'') (emit (Metric IncrementRoomJoins) h4)
      in if AfterRoomJoin (e_hooks e) then emit (Go (CallAfterRoomJoin c n)) h5 else h5)"

definition joinLocked :: "env \<Rightarrow> cref \<Rightarrow> string \<Rightarrow> rref \<Rightarrow> bool \<Rightarrow> hub \<Rightarrow> wsError option \<times> hub" where
  "joinLocked e c n r exists h =
     (if at_limit (MaxClientsPerRoom (h_limits h)) (card (r_clients (h_rmem h r)))
      then (Some (Wrap (''room '' @ n) ErrRoomFull), cleanupRoom n r exists h)
      else if c \<in> r_clients (h_rmem h r)
      then (Some ErrAlreadyInRoom, cleanupRoom n r exists h)
      else if at_limit (MaxRoomsPerClient (h_limits h)) (card (c_rooms (h_mem h c)))
      then (Some (Wrap (''client '' @ c_ID (h_mem h c)) ErrMaxRoomsReached), cleanupRoom n r exists h)
      else (None, joinCommit e c n r h))"

definition callBeforeRoomJoin :: "env \<Rightarrow> cref \<Rightarrow> string \<Rightarrow> hub \<Rightarrow> wsError option \<times> hub" where
  "callBeforeRoomJoin e c n h =
     (case BeforeRoomJoin (e_hooks e) of None \<Rightarrow> (None, h) | Some f \<Rightarrow> f c n h)"

definition JoinRoom :: "env \<Rightarrow> cref \<Rightarrow> string \<Rightarrow> hub \<Rightarrow> wsError option \<times> hub" where
  "JoinRoom e c n h =
     (if n = '''' then (Some ErrEmptyRoomName, h)
      else if c \<notin> h_clients h then (Some ErrClientNotFound, h)
      else case callBeforeRoomJoin e c n h of
             (Some err, h1) \<Rightarrow> (Some err, h1)
           | (None, h1) \<Rightarrow>
               (case getOrCreateRoom n h1 of
                  ((r, exists), h2) \<Rightarrow> joinLocked e c n r exists h2))"

definition callBeforeRoomLeave :: "env \<Rightarrow> cref \<Rightarrow> string \<Rightarrow> hub \<Rightarrow> hub" where
  "callBeforeRoomLeave e c n h =
     (case BeforeRoomLeave (e_hooks e) of None \<Rightarrow> h | Some f \<Rightarrow> f c n h)"

text \<open>\<open>delete(room.clients, client)\<close>, \<open>rebuildRoomSnapshot\<close> and the section that drops the
  room when it is empty; \<open>g\<close> is what the caller does before it releases \<open>room.mu\<close>.\<close>

definition dropMember :: "env \<Rightarrow> cref \<Rightarrow> string \<Rightarrow> rref \<Rightarrow> (hub \<Rightarrow> hub) \<Rightarrow> hub \<Rightarrow> hub" where
  "dropMember e c n r g h =
     (let h1 = upd_room r (\<lambda>room. room\<lparr>r_clients := r_clients room - {c}\<rparr>) h;
          h2 = g (rebuildRoomSnapshot e r h1);
          roomEmpty = (r_clients (h_rmem h2 r) = {})
      in if roomEmpty then deleteRoomIfEmpty n r h2 else h2)"

definition leaveRoom :: "string \<Rightarrow> client \<Rightarrow> client" where
  "leaveRoom n cl = cl\<lparr>c_rooms := c_rooms cl - {n}\<rparr>"

definition leaveNote :: "cref \<Rightarrow> string \<Rightarrow> hub \<Rightarrow> hub" where
  "leaveNote c n h =
     (let h1 = upd_client c (leaveRoom n) h in h1\<lparr>h_roomVersion := h_roomVersion h1 + 1\<rparr>)"

definition LeaveRoom :: "env \<Rightarrow> cref \<Rightarrow> string \<Rightarrow> hub \<Rightarrow> wsError option \<times> hub" where
  "LeaveRoom e c n h =
     (if n = '''' then (Some ErrEmptyRoomName, h)
      else case h_rooms h n of
             None \<Rightarrow> (Some ErrRoomNotFound, h)
           | Some r \<Rightarrow>
               if c \<notin> r_clients (h_rmem h r) then (Some ErrNotInRoom, h)
               else
                 let h1 = callBeforeRoomLeave e c n h in
                 if c \<notin> r_clients (h_rmem h1 r) then (Some ErrNotInRoom, h1)
                 else
                   let h2 = dropMember e c n r (leaveNote c n) h1;
                       h3 = emit (Log Debug ''Client left room'') (emit (Metric IncrementRoomLeaves) h2)
                   in (None, if AfterRoomLeave (e_hooks e)
                             then emit (Go (CallAfterRoomLeave c n)) h3 else h3))"

text \<open>The loop of \<open>removeClientFromAllRoomsWithHooks\<close>; it returns \<open>leftRooms\<close>.\<close>

fun leaveLoop :: "env \<Rightarrow> cref \<Rightarrow> string list \<Rightarrow> hub \<Rightarrow> string list \<times> hub" where
  "leaveLoop e c [] h = ([], h)"
| "leaveLoop e c (n # ns) h =
     (case h_rooms h n of
        None \<Rightarrow> leaveLoop e c ns h
      | Some r \<Rightarrow>
          if c \<notin> r_clients (h_rmem h r) then leaveLoop e c ns h
          else
            let h1 = callBeforeRoomLeave e c n h in
            if c \<notin> r_clients (h_rmem h1 r) then leaveLoop e c ns h1
            else
              (case leaveLoop e c ns (dropMember e c n r id h1) of
                 (left, h2) \<Rightarrow> (n # left, h2)))"

fun emit_all :: "effect list \<Rightarrow> hub \<Rightarrow> hub" where
  "emit_all [] h = h"
| "emit_all (x # xs) h = emit_all xs (emit x h)"

definition forgetRooms :: "cref \<Rightarrow> string list \<Rightarrow> hub \<Rightarrow> hub" where
  "forgetRooms c left h =
     (let h1 = upd_client c (\<lambda>cl. cl\<lparr>c_rooms := c_rooms cl - set left\<rparr>) h
      in h1\<lparr>h_roomVersion := h_roomVersion h1 + int (length left)\<rparr>)"

definition removeClientFromAllRoomsWithHooks :: "env \<Rightarrow> cref \<Rightarrow> hub \<Rightarrow> hub" where
  "removeClientFromAllRoomsWithHooks e c h =
     (let roomNames = e_rangeS e (c_rooms (h_mem h c)) in
      if roomNames = [] then h
      else case leaveLoop e c roomNames h of
             (left, h1) \<Rightarrow>
               let h2 = forgetRooms c left h1;
                   h3 = emit_all (map (\<lambda>_. Metric IncrementRoomLeaves) left) h2
               in if AfterRoomLeave (e_hooks e)
                  then emit_all (map (\<lambda>n. Go (CallAfterRoomLeave c n)) left) h3 else h3)"

definition LeaveAllRooms :: "env \<Rightarrow> cref \<Rightarrow> hub \<Rightarrow> hub" where
  "LeaveAllRooms e c h = removeClientFromAllRoomsWithHooks e c h"

definition RoomClients :: "string \<Rightarrow> hub \<Rightarrow> cref list" where
  "RoomClients n h = (case h_rooms h n of None \<Rightarrow> [] | Some r \<Rightarrow> loadRoomSnapshot (h_rmem h r))"

definition RoomCount :: "string \<Rightarrow> hub \<Rightarrow> int" where
  "RoomCount n h =
     (case h_rooms h n of None \<Rightarrow> 0 | Some r \<Rightarrow> int (length (loadRoomSnapshot (h_rmem h r))))"

definition RoomNames :: "env \<Rightarrow> hub \<Rightarrow> string list" where
  "RoomNames e h = e_rangeS e (dom (h_rooms h))"

definition RoomExists :: "string \<Rightarrow> hub \<Rightarrow> bool" where
  "RoomExists n h = (h_rooms h n \<noteq> None)"

text \<open>The client's own view of its rooms (client.go: Rooms, InRoom, RoomCount).\<close>

definition Rooms :: "env \<Rightarrow> cref \<Rightarrow> hub \<Rightarrow> string list" where
  "Rooms e c h = e_rangeS e (c_rooms (h_mem h c))"

definition InRoom :: "cref \<Rightarrow> string \<Rightarrow> hub \<Rightarrow> bool" where
  "InRoom c n h = (n \<in> c_rooms (h_mem h c))"

definition ClientRoomCount :: "cref \<Rightarrow> hub \<Rightarrow> int" where
  "ClientRoomCount c h = int (card (c_rooms (h_mem h c)))"

subsection \<open>Operations that leave clients and users alone\<close>

definition same_clients :: "hub \<Rightarrow> hub \<Rightarrow> bool" where
  "same_clients h h' \<longleftrightarrow>
     h_cnext h' = h_cnext h \<and> h_clients h' = h_clients h \<and> h_clientIndex h' = h_clientIndex h \<and>
     h_clientCount h' = h_clientCount h \<and> h_userIndex h' = h_userIndex h \<and>
     h_limits h' = h_limits h \<and> h_register h' = h_register h \<and>
     h_unregister h' = h_unregister h \<and> h_clientsSnapshot h' = h_clientsSnapshot h \<and>
     (\<forall>c. c_ID (h_mem h' c) = c_ID (h_mem h c) \<and> c_userID (h_mem h' c) = c_userID (h_mem h c)) \<and>
     gauge conn_delta h' = gauge conn_delta h \<and> kept h h'"

lemma same_clients_refl [simp]: "same_clients h h"
  by (simp add: same_clients_def)

lemma same_clients_trans [trans]:
  "same_clients h h' \<Longrightarrow> same_clients h' h'' \<Longrightarrow> same_clients h h''"
  by (auto simp: same_clients_def intro: kept_trans)

lemma same_registry_clients: "same_registry h h' \<Longrightarrow> same_clients h h'"
  by (simp add: same_registry_def same_clients_def)

lemma same_clients_users: "same_clients h h' \<Longrightarrow> users h' = users h"
  by (rule users_cong) (simp add: same_clients_def)

text \<open>What is left to show of an operation on rooms.\<close>

definition rooms_inv :: "hub \<Rightarrow> bool" where
  "rooms_inv h \<longleftrightarrow> rooms_struct h \<and> rooms_agree h \<and>
     (\<forall>n. within_limit (MaxClientsPerRoom (h_limits h)) (card (members h n))) \<and>
     (\<forall>c. within_limit (MaxRoomsPerClient (h_limits h)) (card (c_rooms (h_mem h c)))) \<and>
     gauge room_delta h = int (card (dom (h_rooms h)))"

lemma registry_inv_rooms: "registry_inv h \<Longrightarrow> rooms_inv h"
  by (simp add: registry_inv_def rooms_inv_def inv_limits_def inv_gauges_def)

lemma registry_invI:
  assumes "registry_inv h" and "same_clients h h'" and "rooms_inv h'"
  shows "registry_inv h'"
  using assms same_clients_users [OF assms(2)]
  by (simp add: registry_inv_def rooms_inv_def inv_clients_def inv_users_def index_wf_def
      inv_limits_def inv_gauges_def same_clients_def)

subsection \<open>Taking a client out of a room\<close>

definition neutral :: "(hub \<Rightarrow> hub) \<Rightarrow> bool" where
  "neutral g \<longleftrightarrow> (\<forall>h. h_rooms (g h) = h_rooms h \<and> h_rmem (g h) = h_rmem h \<and>
     h_rnext (g h) = h_rnext h \<and> h_trace (g h) = h_trace h)"

lemma neutral_id [simp]: "neutral id"
  by (simp add: neutral_def)

lemma neutral_leaveNote [simp]: "neutral (leaveNote c n)"
  by (simp add: neutral_def leaveNote_def Let_def frame_simps)

lemma neutralD:
  "neutral g \<Longrightarrow> h_rooms (g h) = h_rooms h" "neutral g \<Longrightarrow> h_rmem (g h) = h_rmem h"
  "neutral g \<Longrightarrow> h_rnext (g h) = h_rnext h" "neutral g \<Longrightarrow> h_trace (g h) = h_trace h"
  by (simp_all add: neutral_def)

lemmas dropMember_unfold =
  dropMember_def deleteRoomIfEmpty_def rebuildRoomSnapshot_def Let_def frame_simps neutralD

lemma dropMember_store:
  fixes c :: cref
  assumes "neutral g" and "h_rooms h n = Some r"
  defines "S \<equiv> r_clients (h_rmem h r) - {c}"
  shows "h_rooms (dropMember e c n r g h) = (if S = {} then (h_rooms h)(n := None) else h_rooms h)"
    and "h_rmem (dropMember e c n r g h) =
      (h_rmem h)(r := (h_rmem h r)\<lparr>r_clients := S, r_snapshot := Some (e_rangeC e S)\<rparr>)"
    and "h_rnext (dropMember e c n r g h) = h_rnext h"
    and "gauge d (dropMember e c n r g h) = gauge d h + (if S = {} then d DecrementRooms else 0)"
  using assms by (auto simp: dropMember_unfold gauge_def)

lemma dropMember_members:
  assumes "rooms_struct h" and "neutral g" and r: "h_rooms h n = Some r"
  shows "members (dropMember e c n r g h) = (members h)(n := members h n - {c})"
proof (rule ext)
  fix n'
  note store = dropMember_store [OF assms(2) r]
  show "members (dropMember e c n r g h) n' = ((members h)(n := members h n - {c})) n'"
  proof (cases "n' = n")
    case True
    then show ?thesis using r by (simp add: members_def store)
  next
    case False
    then have "h_rooms h n' \<noteq> Some r" using assms(1) r unfolding rooms_struct_def by blast
    with False show ?thesis by (simp add: members_def store split: option.split)
  qed
qed

lemma dropMember_struct:
  assumes "rooms_struct h" and "neutral g" and r: "h_rooms h n = Some r" and "ranges_ok e"
  shows "rooms_struct (dropMember e c n r g h)"
proof -
  let ?S = "r_clients (h_rmem h r) - {c}"
  have "finite ?S" using assms(1) r by (auto simp: rooms_struct_def room_ok_def)
  then have "room_ok ((h_rmem h r)\<lparr>r_clients := ?S, r_snapshot := Some (e_rangeC e ?S)\<rparr>)"
    using ranges_okD(1) [OF assms(4)] by (simp add: room_ok_def)
  then show ?thesis
    using assms(1) r unfolding rooms_struct_def dropMember_store [OF assms(2) r]
    by (auto split: if_splits)
qed

lemma dropMember_gauge:
  assumes "neutral g" and r: "h_rooms h n = Some r" and "finite (dom (h_rooms h))"
  shows "gauge room_delta (dropMember e c n r g h) - int (card (dom (h_rooms (dropMember e c n r g h)))) =
     gauge room_delta h - int (card (dom (h_rooms h)))"
proof -
  have "n \<in> dom (h_rooms h)" using r by auto
  then have "int (card (dom (h_rooms h) - {n})) = int (card (dom (h_rooms h))) - 1"
    using assms(3) by (intro int_card_remove)
  then show ?thesis by (simp add: dropMember_store [OF assms(1) r])
qed

lemma dropMember_clients:
  "same_clients h (dropMember e c n r (leaveNote c n) h)"
  "same_clients h (dropMember e c n r id h)"
  by (simp_all add: same_clients_def dropMember_unfold leaveNote_def leaveRoom_def gauge_def kept_def queue_ok_def)

lemma dropMember_mem:
  "h_mem (dropMember e c n r id h) = h_mem h"
  "h_mem (dropMember e c n r (leaveNote c n) h) = (h_mem h)(c := leaveRoom n (h_mem h c))"
  by (auto simp: dropMember_unfold leaveNote_def)

subsection \<open>Hooks around room operations\<close>

lemma callBeforeRoomLeave_same: "hooks_observe e \<Longrightarrow> same_registry h (callBeforeRoomLeave e c n h)"
  by (auto simp: hooks_observe_def callBeforeRoomLeave_def split: option.split)

lemma callBeforeRoomJoin_snd: "hooks_observe e \<Longrightarrow> same_registry h (snd (callBeforeRoomJoin e c n h))"
  by (auto simp: hooks_observe_def callBeforeRoomJoin_def split: option.split)

lemma callBeforeRoomJoin_same:
  "hooks_observe e \<Longrightarrow> callBeforeRoomJoin e c n h = (r, h1) \<Longrightarrow> same_registry h h1"
  by (metis callBeforeRoomJoin_snd snd_conv)

lemma same_registryD:
  assumes "same_registry h h'"
  shows "h_rooms h' = h_rooms h" "h_rmem h' = h_rmem h" "h_clients h' = h_clients h"
    "h_rnext h' = h_rnext h" "h_limits h' = h_limits h"
    "c_rooms (h_mem h' c) = c_rooms (h_mem h c)" "gauge room_delta h' = gauge room_delta h"
    "gauge conn_delta h' = gauge conn_delta h" "c_ID (h_mem h' c) = c_ID (h_mem h c)"
    "h_roomVersion h' = h_roomVersion h"
  using assms by (simp_all add: same_registry_def)

subsection \<open>Leaving\<close>

text \<open>A step that removes client \<open>c\<close> from the rooms \<open>N\<close> on both sides keeps the invariant.\<close>

lemma rooms_inv_remove:
  assumes inv: "rooms_inv h" and struct: "rooms_struct h'"
    and mem: "\<And>n. members h' n = (if n \<in> N then members h n - {c} else members h n)"
    and rooms: "\<And>x. c_rooms (h_mem h' x) = (if x = c then c_rooms (h_mem h x) - N else c_rooms (h_mem h x))"
    and lim: "h_limits h' = h_limits h" and cl: "h_clients h' = h_clients h"
    and g: "gauge room_delta h' - int (card (dom (h_rooms h'))) = gauge room_delta h - int (card (dom (h_rooms h)))"
  shows "rooms_inv h'"
proof -
  have fin: "finite (members h n)" "finite (c_rooms (h_mem h x))" for n x
    using inv members_finite by (auto simp: rooms_inv_def rooms_agree_def)
  have agree: "rooms_agree h'"
    using inv by (auto simp: rooms_agree_def rooms_inv_def mem rooms cl)
  have "within_limit (MaxClientsPerRoom (h_limits h)) (card (members h' n))" for n
    using inv fin by (simp add: mem rooms_inv_def within_limit_card_Diff)
  moreover have "within_limit (MaxRoomsPerClient (h_limits h)) (card (c_rooms (h_mem h' x)))" for x
    using inv fin by (simp add: rooms rooms_inv_def within_limit_card_Diff)
  moreover have "gauge room_delta h' = int (card (dom (h_rooms h')))"
    using inv g by (simp add: rooms_inv_def)
  ultimately show ?thesis using struct agree lim by (simp add: rooms_inv_def)
qed

lemma same_registry_rooms_inv: "same_registry h h' \<Longrightarrow> rooms_inv h \<Longrightarrow> rooms_inv h'"
  using same_registry_members [of h h']
  by (simp add: rooms_inv_def rooms_struct_def rooms_agree_def same_registry_def)

lemma dropMember_leave_inv:
  assumes "rooms_inv h" and "h_rooms h n = Some r" and "ranges_ok e"
  shows "rooms_inv (dropMember e c n r (leaveNote c n) h)"
proof (rule rooms_inv_remove [OF assms(1), where N = "{n}" and c = c])
  have s: "rooms_struct h" "finite (dom (h_rooms h))"
    using assms(1) by (auto simp: rooms_inv_def rooms_struct_def)
  let ?h' = "dropMember e c n r (leaveNote c n) h"
  show "rooms_struct ?h'" by (rule dropMember_struct [OF s(1) neutral_leaveNote assms(2,3)])
  show "members ?h' x = (if x \<in> {n} then members h x - {c} else members h x)" for x
    by (simp add: dropMember_members [OF s(1) neutral_leaveNote assms(2)])
  show "c_rooms (h_mem ?h' x) = (if x = c then c_rooms (h_mem h x) - {n} else c_rooms (h_mem h x))" for x
    by (simp add: dropMember_mem leaveRoom_def)
  show "h_limits ?h' = h_limits h" "h_clients ?h' = h_clients h"
    using dropMember_clients(1) [of h e c n r] by (simp_all add: same_clients_def)
  show "gauge room_delta ?h' - int (card (dom (h_rooms ?h'))) =
      gauge room_delta h - int (card (dom (h_rooms h)))"
    by (rule dropMember_gauge [OF neutral_leaveNote assms(2) s(2)])
qed

text \<open>Every way \<open>LeaveRoom\<close> can end.\<close>

lemma LeaveRoom_cases [consumes 2]:
  assumes "LeaveRoom e c n h = (res, h')" and "hooks_observe e"
  obtains (empty_name) "n = ''''" "res = Some ErrEmptyRoomName" "h' = h"
  | (no_room) "n \<noteq> ''''" "h_rooms h n = None" "res = Some ErrRoomNotFound" "h' = h"
  | (not_member) r where "n \<noteq> ''''" "h_rooms h n = Some r" "c \<notin> r_clients (h_rmem h r)"
      "res = Some ErrNotInRoom" "h' = h"
  | (left) r h1 where "n \<noteq> ''''" "h_rooms h n = Some r" "c \<in> r_clients (h_rmem h r)" "res = None"
      "same_registry h h1" "same_registry (dropMember e c n r (leaveNote c n) h1) h'"
proof (cases "n = '''' \<or> h_rooms h n = None")
  case True
  with assms(1) show thesis
    by (cases "n = ''''") (auto simp: LeaveRoom_def intro: empty_name no_room)
next
  case False
  then obtain r where r: "n \<noteq> ''''" "h_rooms h n = Some r" by auto
  have same: "same_registry h (callBeforeRoomLeave e c n h)"
    using assms(2) by (rule callBeforeRoomLeave_same)
  show thesis
  proof (cases "c \<in> r_clients (h_rmem h r)")
    case False
    with assms(1) r show thesis by (auto simp: LeaveRoom_def intro: not_member)
  next
    case True
    have "same_registry (dropMember e c n r (leaveNote c n) (callBeforeRoomLeave e c n h)) h' \<and> res = None"
      using assms(1) r True same_registryD(2) [OF same]
      by (auto simp: LeaveRoom_def Let_def split: if_splits intro!: registry_intros)
    with r True same show thesis by (auto intro: left)
  qed
qed

lemma LeaveRoom_inv:
  assumes "registry_inv h" and "env_ok e" and "LeaveRoom e c n h = (res, h')"
  shows "registry_inv h'"
proof -
  have e: "hooks_observe e" "ranges_ok e" using assms(2) by (simp_all add: env_ok_def)
  from assms(3) e(1) show ?thesis
  proof (cases rule: LeaveRoom_cases)
    case (left r h1)
    have inv1: "registry_inv h1" using left(5) assms(1) by (rule same_registry_inv)
    have "h_rooms h1 n = Some r" using left by (simp add: same_registryD)
    then have "rooms_inv (dropMember e c n r (leaveNote c n) h1)"
      using dropMember_leave_inv registry_inv_rooms [OF inv1] e(2) by blast
    then have "registry_inv (dropMember e c n r (leaveNote c n) h1)"
      by (rule registry_invI [OF inv1 dropMember_clients(1)])
    with left(6) show ?thesis by (rule same_registry_inv)
  qed (use assms(1) in auto)
qed

subsection \<open>Leaving every room\<close>

text \<open>
  The loop works on the room side only; \<open>c.rooms\<close> is cleaned up after it. Its effect on the
  rooms is the same whatever order the names come in.
\<close>

definition loop_effect :: "cref \<Rightarrow> string list \<Rightarrow> hub \<Rightarrow> string list \<Rightarrow> hub \<Rightarrow> bool" where
  "loop_effect c ns h left h' \<longleftrightarrow>
     rooms_struct h' \<and> same_clients h h' \<and> h_roomVersion h' = h_roomVersion h \<and>
     (\<forall>x. c_rooms (h_mem h' x) = c_rooms (h_mem h x)) \<and>
     (\<forall>n. members h' n = (if n \<in> set ns then members h n - {c} else members h n)) \<and>
     gauge room_delta h' - int (card (dom (h_rooms h'))) =
       gauge room_delta h - int (card (dom (h_rooms h))) \<and>
     left = filter (\<lambda>n. c \<in> members h n) ns"

lemma dropMember_version [simp]: "h_roomVersion (dropMember e c n r id h) = h_roomVersion h"
  by (simp add: dropMember_unfold)

lemma loop_effect_skip:
  assumes "loop_effect c ns h1 left h'" and "same_registry h h1" and "c \<notin> members h n"
  shows "loop_effect c (n # ns) h left h'"
  using assms same_registry_members [OF assms(2)] same_registry_clients [OF assms(2)]
  by (auto simp: loop_effect_def same_registryD intro: same_clients_trans)

lemma loop_effect_drop:
  assumes eff: "loop_effect c ns (dropMember e c n r id h1) left h'" and same: "same_registry h h1"
    and struct: "rooms_struct h" and r: "h_rooms h n = Some r" and c: "c \<in> r_clients (h_rmem h r)"
    and new: "n \<notin> set ns"
  shows "loop_effect c (n # ns) h (n # left) h'"
proof -
  have s1: "rooms_struct h1" "finite (dom (h_rooms h1))" "h_rooms h1 n = Some r"
    using struct r by (auto simp: rooms_struct_def same_registryD [OF same])
  note m = dropMember_members [OF s1(1) neutral_id s1(3)] dropMember_mem(1)
    dropMember_gauge [OF neutral_id s1(3,2)] same_registry_members [OF same] members_Some [OF r]
  have "same_clients h (dropMember e c n r id h1)"
    using same_registry_clients [OF same] dropMember_clients(2) by (rule same_clients_trans)
  with eff have clients: "same_clients h h'"
    unfolding loop_effect_def by (blast intro: same_clients_trans)
  have left: "left = filter (\<lambda>x. c \<in> members h x) ns"
    using eff new unfolding loop_effect_def by (auto simp: m intro!: filter_cong)
  have "members h' x = (if x \<in> set (n # ns) then members h x - {c} else members h x)" for x
    using eff new by (simp add: loop_effect_def m)
  then show ?thesis
    using eff c clients left by (simp add: loop_effect_def m same_registryD [OF same])
qed

lemma leaveLoop_effect:
  assumes "env_ok e"
  shows "rooms_struct h \<Longrightarrow> distinct ns \<Longrightarrow> leaveLoop e c ns h = (left, h') \<Longrightarrow> loop_effect c ns h left h'"
proof (induction ns arbitrary: h left)
  case Nil
  then show ?case by (simp add: loop_effect_def)
next
  case (Cons n ns)
  let ?h1 = "callBeforeRoomLeave e c n h"
  have same: "same_registry h ?h1"
    using assms by (simp add: env_ok_def callBeforeRoomLeave_same)
  show ?case
  proof (cases "c \<in> members h n")
    case False
    then have "leaveLoop e c ns h = (left, h')"
      using Cons.prems(3) by (auto simp: members_def split: option.splits)
    with Cons.IH Cons.prems have "loop_effect c ns h left h'" by simp
    then show ?thesis using False by (rule loop_effect_skip [OF _ same_registry_refl])
  next
    case True
    then obtain r where r: "h_rooms h n = Some r" "c \<in> r_clients (h_rmem h r)"
      by (auto simp: members_def split: option.splits)
    then obtain left' where l: "leaveLoop e c ns (dropMember e c n r id ?h1) = (left', h')" "left = n # left'"
      using Cons.prems(3) same_registryD(2) [OF same] by (auto simp: Let_def split: prod.splits)
    have "rooms_struct (dropMember e c n r id ?h1)"
      using Cons.prems(1) r assms same_registryD [OF same]
      by (intro dropMember_struct) (auto simp: rooms_struct_def env_ok_def)
    with Cons.IH Cons.prems(2) l have "loop_effect c ns (dropMember e c n r id ?h1) left' h'" by simp
    then show ?thesis using loop_effect_drop [OF _ same Cons.prems(1) r] Cons.prems(2) l by simp
  qed
qed

lemma emit_all_same: "(\<And>x. x \<in> set xs \<Longrightarrow> quiet x) \<Longrightarrow> same_registry h (emit_all xs h)"
proof (induction xs arbitrary: h)
  case (Cons x xs)
  then have "same_registry h (emit x h)" and "same_registry (emit x h) (emit_all xs (emit x h))"
    by (simp_all add: same_registry_emit)
  then show ?case by (simp add: same_registry_trans [of h "emit x h"])
qed simp

text \<open>After \<open>LeaveAllRooms\<close> the client is in no room, on either side, and nothing else has
  changed: for every hook that only observes, and every order of Go's map iteration.\<close>

definition left_all :: "cref \<Rightarrow> hub \<Rightarrow> hub \<Rightarrow> bool" where
  "left_all c h h' \<longleftrightarrow> same_clients h h' \<and> (\<forall>n. members h' n = members h n - {c}) \<and>
     c_rooms (h_mem h' c) = {} \<and> (\<forall>x. x \<noteq> c \<longrightarrow> c_rooms (h_mem h' x) = c_rooms (h_mem h x)) \<and>
     h_roomVersion h' = h_roomVersion h + int (card (c_rooms (h_mem h c)))"

lemma removeAll_nop:
  assumes "rooms_inv h" and "c_rooms (h_mem h c) = {}"
  shows "left_all c h h"
  using assms by (auto simp: left_all_def rooms_inv_def rooms_agree_def)

lemma filter_members_rooms:
  assumes "rooms_inv h" and "set ns = c_rooms (h_mem h c)"
  shows "filter (\<lambda>n. c \<in> members h n) ns = ns"
  using assms by (intro filter_True) (auto simp: rooms_inv_def rooms_agree_def)

lemma forgetRooms_store:
  "h_mem (forgetRooms c left h) = (h_mem h)(c := (h_mem h c)\<lparr>c_rooms := c_rooms (h_mem h c) - set left\<rparr>)"
  "h_rooms (forgetRooms c left h) = h_rooms h" "h_rmem (forgetRooms c left h) = h_rmem h"
  "h_rnext (forgetRooms c left h) = h_rnext h"
  "h_roomVersion (forgetRooms c left h) = h_roomVersion h + int (length left)"
  "h_limits (forgetRooms c left h) = h_limits h" "h_clients (forgetRooms c left h) = h_clients h"
  "same_clients h (forgetRooms c left h)" "gauge d (forgetRooms c left h) = gauge d h"
  by (simp_all add: forgetRooms_def Let_def frame_simps same_clients_def gauge_def kept_def queue_ok_def)

lemma forgetRooms_members [simp]: "members (forgetRooms c left h) = members h"
  by (rule members_cong) (simp_all add: forgetRooms_store)

lemma forget_left_all:
  assumes inv: "rooms_inv h" and eff: "loop_effect c ns h ns h1"
    and ns: "set ns = c_rooms (h_mem h c)" "distinct ns"
  shows "left_all c h (forgetRooms c ns h1)" and "rooms_inv (forgetRooms c ns h1)"
proof -
  have clients: "same_clients h (forgetRooms c ns h1)"
    using eff forgetRooms_store(8) unfolding loop_effect_def by (blast intro: same_clients_trans)
  have "members h n - {c} = members h n" if "n \<notin> set ns" for n
    using inv that ns(1) by (auto simp: rooms_inv_def rooms_agree_def)
  moreover have "length ns = card (c_rooms (h_mem h c))"
    using ns distinct_card by fastforce
  ultimately show "left_all c h (forgetRooms c ns h1)"
    using eff ns clients by (simp add: left_all_def loop_effect_def forgetRooms_store)
  show "rooms_inv (forgetRooms c ns h1)"
  proof (rule rooms_inv_remove [OF inv, where N = "set ns" and c = c])
    show "rooms_struct (forgetRooms c ns h1)"
      using eff by (simp add: loop_effect_def rooms_struct_def forgetRooms_store)
    show "h_limits (forgetRooms c ns h1) = h_limits h" "h_clients (forgetRooms c ns h1) = h_clients h"
      using clients by (simp_all add: same_clients_def)
  qed (use eff in \<open>simp_all add: loop_effect_def forgetRooms_store\<close>)
qed

lemma same_registry_left_all: "left_all c h h1 \<Longrightarrow> same_registry h1 h2 \<Longrightarrow> left_all c h h2"
  using same_registry_members [of h1 h2] same_registry_clients [of h1 h2]
  by (auto simp: left_all_def same_registryD intro: same_clients_trans)

lemma removeAll_rooms:
  assumes rinv: "rooms_inv h" and e: "env_ok e"
  shows "left_all c h (removeClientFromAllRoomsWithHooks e c h)"
    and "rooms_inv (removeClientFromAllRoomsWithHooks e c h)"
proof -
  let ?ns = "e_rangeS e (c_rooms (h_mem h c))" and ?h' = "removeClientFromAllRoomsWithHooks e c h"
  have ns: "set ?ns = c_rooms (h_mem h c)" "distinct ?ns"
    using ranges_okD(2) [of e "c_rooms (h_mem h c)"] e rinv
    by (auto simp: env_ok_def rooms_inv_def rooms_agree_def)
  have "left_all c h ?h' \<and> rooms_inv ?h'"
  proof (cases "?ns = []")
    case True
    with ns rinv removeAll_nop [OF rinv] show ?thesis
      by (simp add: removeClientFromAllRoomsWithHooks_def)
  next
    case False
    obtain left h1 where loop: "leaveLoop e c ?ns h = (left, h1)" by force
    have eff: "loop_effect c ?ns h ?ns h1" and "left = ?ns"
      using leaveLoop_effect [OF e _ ns(2) loop] rinv filter_members_rooms [OF rinv ns(1)]
      by (simp_all add: rooms_inv_def loop_effect_def)
    then have same: "same_registry (forgetRooms c ?ns h1) ?h'"
      using False loop
      by (simp add: removeClientFromAllRoomsWithHooks_def Let_def)
        (auto intro!: same_registry_trans [OF emit_all_same emit_all_same] emit_all_same)
    note final = forget_left_all [OF rinv eff ns]
    then show ?thesis
      using same_registry_rooms_inv [OF same] same_registry_left_all [OF _ same] by blast
  qed
  then show "left_all c h ?h'" and "rooms_inv ?h'" by simp_all
qed

lemma removeAll_spec:
  assumes inv: "registry_inv h" and e: "env_ok e"
  shows "left_all c h (removeClientFromAllRoomsWithHooks e c h)
    \<and> registry_inv (removeClientFromAllRoomsWithHooks e c h)"
  using removeAll_rooms [OF registry_inv_rooms [OF inv] e, of c] registry_invI [OF inv]
  by (simp add: left_all_def)

subsection \<open>Joining\<close>

definition opened :: "string \<Rightarrow> hub \<Rightarrow> rref \<Rightarrow> bool \<Rightarrow> hub \<Rightarrow> bool" where
  "opened n h r exists h2 \<longleftrightarrow>
     h_rooms h2 = (h_rooms h)(n \<mapsto> r) \<and> (\<forall>n'. n' \<noteq> n \<longrightarrow> h_rooms h n' \<noteq> Some r) \<and>
     (\<forall>r'. r' \<noteq> r \<longrightarrow> h_rmem h2 r' = h_rmem h r') \<and> r_clients (h_rmem h2 r) = members h n \<and>
     r < h_rnext h2 \<and> h_rnext h \<le> h_rnext h2 \<and> h_mem h2 = h_mem h \<and> same_clients h h2 \<and>
     h_roomVersion h2 = h_roomVersion h \<and>
     gauge room_delta h2 - int (card (dom (h_rooms h2))) =
       gauge room_delta h - int (card (dom (h_rooms h))) \<and>
     (exists \<longrightarrow> h2 = h \<and> h_rooms h n = Some r) \<and> (\<not> exists \<longrightarrow> h_rooms h n = None)"

lemma getOrCreateRoom_opened:
  assumes struct: "rooms_struct h" and get: "getOrCreateRoom n h = ((r, exists), h2)"
  shows "opened n h r exists h2"
proof (cases "h_rooms h n")
  case None
  have fresh: "h_rooms h n' \<noteq> Some (h_rnext h)" for n'
    using struct unfolding rooms_struct_def by (metis less_irrefl)
  have "finite (dom (h_rooms h))" "n \<notin> dom (h_rooms h)"
    using struct None by (auto simp: rooms_struct_def)
  then have "int (card (insert n (dom (h_rooms h)))) = int (card (dom (h_rooms h))) + 1"
    by (rule int_card_insert)
  then show ?thesis
    using get None fresh
    by (auto simp: opened_def getOrCreateRoom_def Let_def frame_simps trace_simps same_clients_def
        members_def gauge_def kept_def)
next
  case (Some r')
  have "h_rooms h n' \<noteq> Some r'" if "n' \<noteq> n" for n'
    using struct Some that unfolding rooms_struct_def by blast
  moreover have "r' < h_rnext h" using struct Some by (auto simp: rooms_struct_def)
  ultimately show ?thesis
    using get Some by (auto simp: opened_def getOrCreateRoom_def members_def fun_upd_idem)
qed

text \<open>A failed join leaves membership as it was, also when it had created the room.\<close>

definition same_rooms :: "hub \<Rightarrow> hub \<Rightarrow> bool" where
  "same_rooms h h' \<longleftrightarrow> same_clients h h' \<and> members h' = members h \<and> h_rooms h' = h_rooms h \<and>
     (\<forall>x. c_rooms (h_mem h' x) = c_rooms (h_mem h x)) \<and> h_roomVersion h' = h_roomVersion h \<and>
     (rooms_inv h \<longrightarrow> rooms_inv h')"

lemma same_rooms_refl [simp]: "same_rooms h h"
  by (simp add: same_rooms_def)

lemma same_registry_rooms: "same_registry h h' \<Longrightarrow> same_rooms h h'"
  by (simp add: same_rooms_def same_registry_members same_registry_clients same_registryD
      same_registry_rooms_inv)

lemma same_rooms_trans: "same_rooms h h' \<Longrightarrow> same_rooms h' h'' \<Longrightarrow> same_rooms h h''"
  by (auto simp: same_rooms_def intro: same_clients_trans)

lemma cleanupRoom_same_rooms:
  assumes struct: "rooms_struct h" and op: "opened n h r exists h2"
  shows "same_rooms h (cleanupRoom n r exists h2)"
proof (cases exists)
  case True
  with op show ?thesis by (simp add: cleanupRoom_def opened_def)
next
  case False
  let ?h' = "cleanupRoom n r False h2"
  have none: "h_rooms h n = None" and empty: "r_clients (h_rmem h2 r) = {}"
    using op False by (auto simp: opened_def members_None)
  have h': "h_rooms ?h' = h_rooms h" "h_rmem ?h' = h_rmem h2" "h_rnext ?h' = h_rnext h2"
    "h_mem ?h' = h_mem h" "h_roomVersion ?h' = h_roomVersion h" "same_clients h ?h'"
    "gauge room_delta ?h' = gauge room_delta h2 - 1"
    using op False none empty
    by (auto simp: cleanupRoom_def deleteRoomIfEmpty_def opened_def frame_simps trace_simps
        same_clients_def gauge_def kept_def)
  have store: "h_rmem ?h' r' = h_rmem h r'" if "h_rooms h n' = Some r'" for n' r'
  proof -
    have "r' \<noteq> r" using op that none by (cases "n' = n") (auto simp: opened_def)
    then show ?thesis using op by (simp add: opened_def h'(2))
  qed
  then have m: "members ?h' = members h"
    by (intro ext) (auto simp: members_def h'(1) split: option.split)
  have g: "gauge room_delta ?h' = gauge room_delta h"
    using op none struct h'(7) by (auto simp: opened_def rooms_struct_def card_insert_if domIff)
  have "rooms_struct ?h'"
    using struct store op unfolding rooms_struct_def h'(1,3) opened_def
    by (metis less_le_trans)
  then have "rooms_inv h \<longrightarrow> rooms_inv ?h'"
    using h'(6) by (simp add: rooms_inv_def rooms_agree_def m h'(1,4) g same_clients_def)
  then show ?thesis using h' m False by (simp add: same_rooms_def)
qed

definition joined :: "cref \<Rightarrow> string \<Rightarrow> hub \<Rightarrow> hub \<Rightarrow> bool" where
  "joined c n h h' \<longleftrightarrow> same_clients h h' \<and> members h' = (members h)(n := insert c (members h n)) \<and>
     (\<forall>x. c_rooms (h_mem h' x) = (if x = c then insert n (c_rooms (h_mem h x)) else c_rooms (h_mem h x))) \<and>
     h_roomVersion h' = h_roomVersion h + 1"

lemmas joinCommit_unfold = joinCommit_def rebuildRoomSnapshot_def Let_def frame_simps

lemma joinCommit_store:
  fixes c :: cref
  defines "S \<equiv> \<lambda>h r. insert c (r_clients (h_rmem h r))"
  shows "h_rooms (joinCommit e c n r h) = h_rooms h"
    and "h_rmem (joinCommit e c n r h) =
      (h_rmem h)(r := (h_rmem h r)\<lparr>r_clients := S h r, r_snapshot := Some (e_rangeC e (S h r))\<rparr>)"
    and "h_rnext (joinCommit e c n r h) = h_rnext h"
    and "h_mem (joinCommit e c n r h) =
      (h_mem h)(c := (h_mem h c)\<lparr>c_rooms := insert n (c_rooms (h_mem h c))\<rparr>)"
    and "h_roomVersion (joinCommit e c n r h) = h_roomVersion h + 1"
    and "gauge room_delta (joinCommit e c n r h) = gauge room_delta h"
    and "same_clients h (joinCommit e c n r h)"
  by (simp_all add: S_def joinCommit_unfold gauge_def same_clients_def kept_def queue_ok_def)

lemma joinCommit_joined:
  assumes op: "opened n h r exists h2"
  shows "joined c n h (joinCommit e c n r h2)"
proof -
  have "members (joinCommit e c n r h2) = (members h)(n := insert c (members h n))"
  proof (rule ext)
    fix n'
    show "members (joinCommit e c n r h2) n' = ((members h)(n := insert c (members h n))) n'"
    proof (cases "n' = n")
      case True
      then show ?thesis using op by (simp add: members_def joinCommit_store opened_def)
    next
      case False
      then have "h_rooms h n' \<noteq> Some r" using op by (simp add: opened_def)
      with False show ?thesis
        using op by (simp add: members_def joinCommit_store opened_def split: option.split)
    qed
  qed
  moreover have "same_clients h (joinCommit e c n r h2)"
    using op joinCommit_store(7) unfolding opened_def by (blast intro: same_clients_trans)
  ultimately show ?thesis using op by (simp add: joined_def joinCommit_store opened_def)
qed

lemma rooms_structI:
  assumes "\<And>n r. h_rooms h n = Some r \<Longrightarrow>
      n \<noteq> '''' \<and> r < h_rnext h \<and> room_ok (h_rmem h r) \<and> r_clients (h_rmem h r) \<noteq> {}"
    and "\<And>n n' r. h_rooms h n = Some r \<Longrightarrow> h_rooms h n' = Some r \<Longrightarrow> n = n'"
    and "finite (dom (h_rooms h))"
  shows "rooms_struct h"
  unfolding rooms_struct_def using assms by blast

lemma joinCommit_struct:
  assumes op: "opened n h r exists h2" and struct: "rooms_struct h" and n: "n \<noteq> ''''" and e: "ranges_ok e"
  shows "rooms_struct (joinCommit e c n r h2)"
proof (rule rooms_structI)
  let ?S = "insert c (r_clients (h_rmem h2 r))" and ?h' = "joinCommit e c n r h2"
  have rooms: "h_rooms ?h' = (h_rooms h)(n \<mapsto> r)" using op by (simp add: joinCommit_store opened_def)
  have "finite ?S" using members_finite [OF struct, of n] op by (simp add: opened_def)
  then have ok: "room_ok ((h_rmem h2 r)\<lparr>r_clients := ?S, r_snapshot := Some (e_rangeC e ?S)\<rparr>)"
    using ranges_okD(1) [OF e] by (simp add: room_ok_def)
  have other: "n' \<noteq> '''' \<and> r' < h_rnext h2 \<and> r' \<noteq> r \<and> room_ok (h_rmem h2 r') \<and> r_clients (h_rmem h2 r') \<noteq> {}"
    if "n' \<noteq> n" "h_rooms h n' = Some r'" for n' r'
    using that op struct unfolding opened_def rooms_struct_def by (metis less_le_trans)
  show "finite (dom (h_rooms ?h'))" using struct by (simp add: rooms rooms_struct_def)
  show "n1 = n2" if "h_rooms ?h' n1 = Some r'" "h_rooms ?h' n2 = Some r'" for n1 n2 r'
  proof (cases "n1 = n \<or> n2 = n")
    case True
    then show ?thesis using that op unfolding rooms opened_def by (metis fun_upd_same fun_upd_other)
  next
    case False
    then show ?thesis using that struct unfolding rooms rooms_struct_def by (metis fun_upd_other)
  qed
  show "n' \<noteq> '''' \<and> r' < h_rnext ?h' \<and> room_ok (h_rmem ?h' r') \<and> r_clients (h_rmem ?h' r') \<noteq> {}"
    if "h_rooms ?h' n' = Some r'" for n' r'
  proof (cases "n' = n")
    case True
    then show ?thesis using that ok op n by (simp add: rooms joinCommit_store(2,3) opened_def)
  next
    case False
    then show ?thesis using that other [of n' r'] by (simp add: rooms joinCommit_store(2,3))
  qed
qed

text \<open>A step that adds client \<open>c\<close> to room \<open>n\<close> on both sides keeps the invariant.\<close>

lemma rooms_inv_add:
  assumes inv: "rooms_inv h" and struct: "rooms_struct h'" and j: "joined c n h h'"
    and c: "c \<in> h_clients h"
    and lim: "within_limit (MaxClientsPerRoom (h_limits h)) (Suc (card (members h n)))"
      "within_limit (MaxRoomsPerClient (h_limits h)) (Suc (card (c_rooms (h_mem h c))))"
    and g: "gauge room_delta h' = int (card (dom (h_rooms h')))"
  shows "rooms_inv h'"
proof -
  have fin: "finite (members h m)" "finite (c_rooms (h_mem h x))" for m x
    using inv members_finite by (auto simp: rooms_inv_def rooms_agree_def)
  have agree: "rooms_agree h'"
    using inv j c by (auto simp: rooms_agree_def rooms_inv_def joined_def same_clients_def)
  have l: "h_limits h' = h_limits h" using j by (simp add: joined_def same_clients_def)
  have "within_limit (MaxClientsPerRoom (h_limits h)) (card (members h' m))" for m
    using inv j lim(1) within_limit_card_insert [OF fin(1)] by (simp add: joined_def rooms_inv_def)
  moreover have "within_limit (MaxRoomsPerClient (h_limits h)) (card (c_rooms (h_mem h' x)))" for x
    using inv j lim(2) within_limit_card_insert [OF fin(2)] by (simp add: joined_def rooms_inv_def)
  ultimately show ?thesis using struct agree g l by (simp add: rooms_inv_def)
qed

text \<open>Every way \<open>JoinRoom\<close> can end.\<close>

lemma JoinRoom_cases [consumes 3]:
  assumes "JoinRoom e c n h = (res, h')" and "hooks_observe e" and struct: "rooms_struct h"
  obtains (empty_name) "n = ''''" "res = Some ErrEmptyRoomName" "h' = h"
  | (unknown) "n \<noteq> ''''" "c \<notin> h_clients h" "res = Some ErrClientNotFound" "h' = h"
  | (rejected) err where "n \<noteq> ''''" "c \<in> h_clients h" "callBeforeRoomJoin e c n h = (Some err, h')"
      "res = Some err" "same_registry h h'"
  | (full) "n \<noteq> ''''" "c \<in> h_clients h" "at_limit (MaxClientsPerRoom (h_limits h)) (card (members h n))"
      "res = Some (Wrap (''room '' @ n) ErrRoomFull)" "same_rooms h h'"
  | (already) "n \<noteq> ''''" "c \<in> h_clients h" "c \<in> members h n" "res = Some ErrAlreadyInRoom" "same_rooms h h'"
  | (too_many) "n \<noteq> ''''" "c \<in> h_clients h" "at_limit (MaxRoomsPerClient (h_limits h)) (card (c_rooms (h_mem h c)))"
      "res = Some (Wrap (''client '' @ c_ID (h_mem h c)) ErrMaxRoomsReached)" "same_rooms h h'"
  | (joins) h1 r exists h2 where "n \<noteq> ''''" "c \<in> h_clients h" "same_registry h h1" "opened n h1 r exists h2"
      "within_limit (MaxClientsPerRoom (h_limits h)) (Suc (card (members h n)))" "c \<notin> members h n"
      "within_limit (MaxRoomsPerClient (h_limits h)) (Suc (card (c_rooms (h_mem h c))))"
      "res = None" "h' = joinCommit e c n r h2"
proof (cases "n = '''' \<or> c \<notin> h_clients h")
  case True
  with assms(1) show thesis
    by (cases "n = ''''") (auto simp: JoinRoom_def intro: empty_name unknown)
next
  case False
  obtain hr h1 where hook: "callBeforeRoomJoin e c n h = (hr, h1)" by force
  have same: "same_registry h h1" using assms(2) hook by (rule callBeforeRoomJoin_same)
  show thesis
  proof (cases hr)
    case (Some err)
    with hook False same assms(1) show thesis by (auto simp: JoinRoom_def intro: rejected)
  next
    case None
    obtain r exists h2 where get: "getOrCreateRoom n h1 = ((r, exists), h2)" by (metis surj_pair)
    have s1: "rooms_struct h1" using struct by (simp add: rooms_struct_def same_registryD [OF same])
    have op: "opened n h1 r exists h2" using s1 get by (rule getOrCreateRoom_opened)
    have clean: "same_rooms h (cleanupRoom n r exists h2)"
      using same_registry_rooms [OF same] cleanupRoom_same_rooms [OF s1 op] by (rule same_rooms_trans)
    have j: "joinLocked e c n r exists h2 = (res, h')"
      using assms(1) False hook None get by (simp add: JoinRoom_def)
    have v: "r_clients (h_rmem h2 r) = members h n" "h_limits h2 = h_limits h"
      "c_rooms (h_mem h2 c) = c_rooms (h_mem h c)" "c_ID (h_mem h2 c) = c_ID (h_mem h c)"
      using op same_registry_members [OF same]
      by (simp_all add: opened_def same_clients_def same_registryD [OF same])
    show thesis
      using j False clean
      unfolding joinLocked_def v
      by (cases "at_limit (MaxClientsPerRoom (h_limits h)) (card (members h n))";
          cases "c \<in> members h n";
          cases "at_limit (MaxRoomsPerClient (h_limits h)) (card (c_rooms (h_mem h c)))")
        (auto intro: full already too_many joins [OF _ _ same op])
  qed
qed

lemma same_rooms_inv: "registry_inv h \<Longrightarrow> same_rooms h h' \<Longrightarrow> registry_inv h'"
  using registry_invI registry_inv_rooms by (auto simp: same_rooms_def)

lemma joinCommit_inv:
  assumes inv: "registry_inv h" and op: "opened n h r exists h2" and n: "n \<noteq> ''''" and c: "c \<in> h_clients h"
    and lim: "within_limit (MaxClientsPerRoom (h_limits h)) (Suc (card (members h n)))"
      "within_limit (MaxRoomsPerClient (h_limits h)) (Suc (card (c_rooms (h_mem h c))))"
    and e: "ranges_ok e"
  shows "registry_inv (joinCommit e c n r h2)"
proof -
  have rinv: "rooms_inv h" using inv by (rule registry_inv_rooms)
  note j = joinCommit_joined [OF op, of c e]
  have "rooms_struct (joinCommit e c n r h2)"
    using joinCommit_struct [OF op _ n e] rinv by (simp add: rooms_inv_def)
  moreover have "gauge room_delta (joinCommit e c n r h2) = int (card (dom (h_rooms (joinCommit e c n r h2))))"
    using op rinv unfolding joinCommit_store opened_def rooms_inv_def by linarith
  ultimately have "rooms_inv (joinCommit e c n r h2)"
    using rooms_inv_add [OF rinv _ j c lim] by blast
  moreover have "same_clients h (joinCommit e c n r h2)" using j by (simp add: joined_def)
  ultimately show ?thesis using registry_invI [OF inv] by blast
qed

lemma JoinRoom_inv:
  assumes inv: "registry_inv h" and e: "env_ok e" and j: "JoinRoom e c n h = (res, h')"
  shows "registry_inv h'"
proof -
  have h: "hooks_observe e" "ranges_ok e" "rooms_struct h"
    using e inv by (simp_all add: env_ok_def registry_inv_def)
  from j h(1,3) show ?thesis
  proof (cases rule: JoinRoom_cases)
    case (joins h1 r exists h2)
    have "registry_inv h1" using joins(3) inv by (rule same_registry_inv)
    with joins h(2) show ?thesis
      using joinCommit_inv [OF _ joins(4) joins(1), of c e] same_registry_members [OF joins(3)]
      by (simp add: same_registryD)
  qed (use inv in \<open>blast intro: same_rooms_inv same_registry_inv\<close>)+
qed

subsection \<open>Properties\<close>

lemma JoinRoom_joined:
  assumes "JoinRoom e c n h = (None, h')" and "hooks_observe e" and "rooms_struct h"
  shows "c \<notin> members h n \<and> n \<noteq> '''' \<and> joined c n h h'"
  using assms
proof (cases rule: JoinRoom_cases)
  case (joins h1 r exists h2)
  have "joined c n h1 h'" using joins(9) joinCommit_joined [OF joins(4)] by simp
  then have "joined c n h h'"
    using same_clients_trans [OF same_registry_clients [OF joins(3)]] same_registry_members [OF joins(3)]
    by (simp add: joined_def same_registryD [OF joins(3)])
  with joins show ?thesis by simp
qed simp_all

text \<open>C6: \<open>JoinRoom\<close> keeps the registry invariant. When it returns no error the client was not in
  the room and now is, on both sides, and no other membership changed. When it returns an error,
  membership is as before (a room created for the attempt is gone) and the error is the one for
  the check that failed.\<close>

theorem JoinRoom_outcome:
  assumes "registry_inv h" and "env_ok e" and "JoinRoom e c n h = (res, h')"
  shows "registry_inv h' \<and>
    (case res of
       None \<Rightarrow> c \<notin> members h n \<and> joined c n h h'
     | Some err \<Rightarrow> members h' = members h \<and> h_rooms h' = h_rooms h \<and>
         (\<forall>x. c_rooms (h_mem h' x) = c_rooms (h_mem h x)) \<and>
         (n = '''' \<and> err = ErrEmptyRoomName \<or>
          c \<notin> h_clients h \<and> err = ErrClientNotFound \<or>
          fst (callBeforeRoomJoin e c n h) = Some err \<or>
          at_limit (MaxClientsPerRoom (h_limits h)) (card (members h n)) \<and> errorsIs err ErrRoomFull \<or>
          c \<in> members h n \<and> err = ErrAlreadyInRoom \<or>
          at_limit (MaxRoomsPerClient (h_limits h)) (card (c_rooms (h_mem h c))) \<and>
            errorsIs err ErrMaxRoomsReached))"
proof -
  have i: "hooks_observe e" "rooms_struct h" using assms by (simp_all add: env_ok_def registry_inv_def)
  note inv = JoinRoom_inv [OF assms]
  from assms(3) i show ?thesis
  proof (cases rule: JoinRoom_cases)
    case (rejected err)
    with inv same_registry_members [OF rejected(5)] show ?thesis by (simp add: same_registryD [OF rejected(5)])
  next
    case (joins h1 r exists h2)
    with assms(3) inv i show ?thesis using JoinRoom_joined by simp
  qed (use inv in \<open>auto simp: same_rooms_def\<close>)
qed

theorem JoinRoom_outcome_witness:
  "fst (JoinRoom exampleEnv 1 ''lobby'' exampleHub) = None \<and>
   members (snd (JoinRoom exampleEnv 1 ''lobby'' exampleHub)) ''lobby'' = {0, 1} \<and>
   registry_inv (snd (JoinRoom exampleEnv 1 ''lobby'' exampleHub))"
proof -
  obtain res h' where r: "JoinRoom exampleEnv 1 ''lobby'' exampleHub = (res, h')" by force
  have "res = None"
    using r by (simp add: JoinRoom_def callBeforeRoomJoin_def exampleEnv_def noHooks_def getOrCreateRoom_def
        joinLocked_def exampleLimits_def at_limit_def)
  with JoinRoom_outcome [OF exampleHub_inv exampleEnv_ok(1) r] r show ?thesis
    by (auto simp: joined_def exampleHub_views)
qed

text \<open>C7: \<open>LeaveRoom\<close> keeps the registry invariant. When it returns no error the client was a
  member and now is not, on both sides; nobody else's membership changes, and the room is gone
  exactly when nobody is left in it. Otherwise nothing changes and the error says why.\<close>

theorem LeaveRoom_outcome:
  assumes "registry_inv h" and "env_ok e" and "LeaveRoom e c n h = (res, h')"
  shows "registry_inv h' \<and>
    (case res of
       None \<Rightarrow> c \<in> members h n \<and> members h' = (members h)(n := members h n - {c}) \<and>
         (\<forall>x. c_rooms (h_mem h' x) = (if x = c then c_rooms (h_mem h x) - {n} else c_rooms (h_mem h x))) \<and>
         (RoomExists n h' \<longleftrightarrow> members h n \<noteq> {c})
     | Some err \<Rightarrow> h' = h \<and>
         (n = '''' \<and> err = ErrEmptyRoomName \<or> \<not> RoomExists n h \<and> err = ErrRoomNotFound \<or>
          RoomExists n h \<and> c \<notin> members h n \<and> err = ErrNotInRoom))"
proof -
  have i: "hooks_observe e" "rooms_struct h" using assms by (simp_all add: env_ok_def registry_inv_def)
  note inv = LeaveRoom_inv [OF assms]
  from assms(3) i(1) show ?thesis
  proof (cases rule: LeaveRoom_cases)
    case (left r h1)
    let ?h2 = "dropMember e c n r (leaveNote c n) h1"
    have s1: "rooms_struct h1" "h_rooms h1 n = Some r"
      using i(2) left by (simp_all add: rooms_struct_def same_registryD [OF left(5)])
    have m: "members h' = (members h)(n := members h n - {c})"
      using dropMember_members [OF s1(1) neutral_leaveNote s1(2)] same_registry_members [OF left(6)]
        same_registry_members [OF left(5)] by simp
    have c: "c_rooms (h_mem h' x) = (if x = c then c_rooms (h_mem h x) - {n} else c_rooms (h_mem h x))" for x
      by (simp add: same_registryD [OF left(6)] dropMember_mem leaveRoom_def same_registryD [OF left(5)])
    have in': "c \<in> members h n" using left by (simp add: members_def)
    have "RoomExists n h' \<longleftrightarrow> members h' n \<noteq> {}"
      using inv rooms_struct_exists [of h' n] by (simp add: registry_inv_def RoomExists_def)
    then have "RoomExists n h' \<longleftrightarrow> members h n \<noteq> {c}" using m in' by auto
    with left inv m c in' show ?thesis by simp
  qed (use inv in \<open>auto simp: members_def RoomExists_def\<close>)
qed

theorem LeaveRoom_outcome_witness:
  "\<not> RoomExists ''lobby'' (snd (LeaveRoom exampleEnv 0 ''lobby'' exampleHub))"
proof -
  obtain res h' where r: "LeaveRoom exampleEnv 0 ''lobby'' exampleHub = (res, h')" by force
  have "res = None"
    using r by (simp add: LeaveRoom_def callBeforeRoomLeave_def exampleEnv_def noHooks_def Let_def)
  with LeaveRoom_outcome [OF exampleHub_inv exampleEnv_ok(1) r] r show ?thesis
    by (simp add: exampleHub_views)
qed

text \<open>C8: \<open>LeaveAllRooms\<close> takes the client out of every room, on both sides, for every order in which
  Go may iterate over the client's rooms and for every hook that only observes; nobody else's
  membership changes, the room version advances once per room left, and the invariant is kept.\<close>

theorem LeaveAllRooms_leaves:
  assumes "registry_inv h" and "env_ok e"
  shows "registry_inv (LeaveAllRooms e c h) \<and>
    (\<forall>n. members (LeaveAllRooms e c h) n = members h n - {c} \<and> \<not> InRoom c n (LeaveAllRooms e c h)) \<and>
    (\<forall>x n. x \<noteq> c \<longrightarrow> InRoom x n (LeaveAllRooms e c h) = InRoom x n h) \<and>
    h_roomVersion (LeaveAllRooms e c h) = h_roomVersion h + ClientRoomCount c h"
  using removeAll_spec [OF assms, of c] by (simp add: LeaveAllRooms_def left_all_def InRoom_def ClientRoomCount_def)

theorem LeaveAllRooms_leaves_witness: "members (LeaveAllRooms exampleEnv 0 exampleHub) ''lobby'' = {}"
  using LeaveAllRooms_leaves [OF exampleHub_inv exampleEnv_ok(1), of 0] by (simp add: exampleHub_views)

text \<open>A join followed by a leave gives back the membership of every room and the set of rooms
  there was before.\<close>

lemma join_leave_roundtrip:
  assumes "registry_inv h" and "env_ok e" and "env_ok e'" and "JoinRoom e c n h = (None, h1)"
  shows "\<exists>h2. LeaveRoom e' c n h1 = (None, h2) \<and> members h2 = members h \<and> dom (h_rooms h2) = dom (h_rooms h)"
proof -
  have i: "hooks_observe e" "rooms_struct h" using assms by (simp_all add: env_ok_def registry_inv_def)
  have inv1: "registry_inv h1" using assms(1,2,4) by (rule JoinRoom_inv)
  have h1: "members h1 = (members h)(n := insert c (members h n))" "c \<notin> members h n" "n \<noteq> ''''"
    using JoinRoom_joined [OF assms(4) i] by (simp_all add: joined_def)
  obtain res h2 where l: "LeaveRoom e' c n h1 = (res, h2)" by force
  have inv2: "registry_inv h2" using inv1 assms(3) l by (rule LeaveRoom_inv)
  have "hooks_observe e'" using assms(3) by (simp add: env_ok_def)
  with l have "res = None \<and> members h2 = members h"
  proof (cases rule: LeaveRoom_cases)
    case (left r h3)
    have s: "rooms_struct h3" "h_rooms h3 n = Some r"
      using inv1 left by (simp_all add: registry_inv_def rooms_struct_def same_registryD [OF left(5)])
    show ?thesis
      using dropMember_members [OF s(1) neutral_leaveNote s(2)] same_registry_members [OF left(6)]
        same_registry_members [OF left(5)] left(4) h1 by (auto simp: fun_eq_iff)
  qed (use h1 in \<open>auto simp: members_def dest: fun_cong [where x = n]\<close>)
  moreover have "dom (h_rooms g) = {n. members g n \<noteq> {}}" if "registry_inv g" for g
    using that rooms_struct_exists [of g] by (simp add: registry_inv_def dom_def)
  ultimately show ?thesis using l inv2 assms(1) by simp
qed

lemma join_leave_example:
  "\<exists>h1 h2. JoinRoom exampleEnv 1 ''lobby'' exampleHub = (None, h1) \<and>
     LeaveRoom exampleEnv 1 ''lobby'' h1 = (None, h2) \<and> members h2 = members exampleHub"
proof -
  obtain res h' where r: "JoinRoom exampleEnv 1 ''lobby'' exampleHub = (res, h')" by force
  have "res = None"
    using r by (simp add: JoinRoom_def callBeforeRoomJoin_def exampleEnv_def noHooks_def getOrCreateRoom_def
        joinLocked_def exampleLimits_def at_limit_def)
  with r join_leave_roundtrip [OF exampleHub_inv exampleEnv_ok(1) exampleEnv_ok(1), of 1 "''lobby''" h'] show ?thesis
    by auto
qed

end
