(* ===== verification/Ws_Hub.thy ===== *)
theory Ws_Hub
  imports Ws_Rooms
begin

section \<open>The hub: construction, registration, the Run loop (hub.go, options.go)\<close>

text \<open>
  \<open>NewHub\<close> with its functional options, the registration handlers of the \<open>Run\<close> goroutine
  and the loop itself. \<open>h_register\<close> and \<open>h_unregister\<close> are the contents of the two
  channels; the answer to a registration request is stored in \<open>h_results\<close> under the
  requesting client. Where both channels are ready \<open>select\<close> chooses freely
  (\<open>e_pickRegister\<close>).

  The loop that empties both channels is a \<open>partial_function\<close>: with hooks or other
  goroutines that keep the channels filled it need not end, and it is shown to end when they
  do not.
\<close>

subsection \<open>Options\<close>

definition WithConfig :: "Config \<Rightarrow> hub \<Rightarrow> hub" where
  "WithConfig cfg h = h\<lparr>h_config := cfg\<rparr>"

definition WithLimits :: "Limits \<Rightarrow> hub \<Rightarrow> hub" where
  "WithLimits l h = h\<lparr>h_limits := l\<rparr>"

definition WithParallelBroadcast :: "int \<Rightarrow> hub \<Rightarrow> hub" where
  "WithParallelBroadcast batchSize h =
     (let h1 = h\<lparr>h_useParallel := True\<rparr>
      in if batchSize > 0 then h1\<lparr>h_parallelBatchSize := batchSize\<rparr> else h1)"

definition WithParallelBroadcastWorkers :: "int \<Rightarrow> hub \<Rightarrow> hub" where
  "WithParallelBroadcastWorkers n h = (if n > 0 then h\<lparr>h_poolSize := n\<rparr> else h)"

definition WithMessageHandler :: "nat option \<Rightarrow> hub \<Rightarrow> hub" where
  "WithMessageHandler fn h = h\<lparr>h_onMessage := fn\<rparr>"

definition WithoutHandlerLatency :: "hub \<Rightarrow> hub" where
  "WithoutHandlerLatency h = h\<lparr>h_skipHandlerLatency := True\<rparr>"

definition WithDropPolicy :: "DropPolicy \<Rightarrow> hub \<Rightarrow> hub" where
  "WithDropPolicy p h = h\<lparr>h_dropPolicy := p\<rparr>"

definition WithNodeID :: "string \<Rightarrow> hub \<Rightarrow> hub" where
  "WithNodeID i h = (if i \<noteq> '''' then h\<lparr>h_nodeID := i\<rparr> else h)"

definition WithHookTimeout :: "int \<Rightarrow> hub \<Rightarrow> hub" where
  "WithHookTimeout d h = (if d > 0 then h\<lparr>h_hookTimeout := d\<rparr> else h)"

definition WithAdapter :: "bool \<Rightarrow> hub \<Rightarrow> hub" where
  "WithAdapter present h = h\<lparr>h_adapter := present\<rparr>"

definition WithDrainTimeout :: "int \<Rightarrow> hub \<Rightarrow> hub" where
  "WithDrainTimeout d h = (if d \<ge> 0 then h\<lparr>h_drainTimeout := d\<rparr> else h)"

definition WithPresence :: "int \<Rightarrow> hub \<Rightarrow> hub" where
  "WithPresence interval h =
     (let interval = (if interval \<le> 0 then 5 * Second else interval)
      in h\<lparr>h_presenceInterval := interval, h_presenceTTL := wrap64 (3 * interval)\<rparr>)"

subsection \<open>Construction\<close>

text \<open>The literal in \<open>NewHub\<close>. The contents of \<open>h_mem\<close> and \<open>h_rmem\<close> are not read before allocation.\<close>

definition noRoom :: Room where
  "noRoom = \<lparr>r_clients = {}, r_snapshot = None\<rparr>"

definition hubLiteral :: "(string \<Rightarrow> string option) \<Rightarrow> string \<Rightarrow> int \<Rightarrow> hub" where
  "hubLiteral url_Host uuid numCPU =
     \<lparr>h_mem = (\<lambda>_. newClient DefaultLimits (DefaultConfig url_Host)
                     \<lparr>rq_Origin = '''', rq_Host = '''', rq_RemoteAddr = ''''\<rparr> '''' 0),
      h_cnext = 0, h_rmem = (\<lambda>_. noRoom), h_rnext = 0,
      h_clients = {}, h_clientIndex = (\<lambda>_. None), h_clientsSnapshot = None, h_clientCount = 0,
      h_rooms = (\<lambda>_. None), h_roomVersion = 0, h_userIndex = (\<lambda>_. None),
      h_register = [], h_unregister = [], h_results = (\<lambda>_. None),
      h_config = DefaultConfig url_Host, h_limits = DefaultLimits, h_onMessage = None,
      h_state = StateRunning, h_alive = False, h_startedAt = None, h_ctxDone = False,
      h_drainDone = False, h_drainTimeout = 30 * Second, h_parallelBatchSize = 100,
      h_useParallel = False, h_poolStarted = False, h_poolStopped = False, h_poolSize = numCPU,
      h_dropPolicy = DropNewest, h_skipHandlerLatency = False, h_adapter = False,
      h_nodeID = uuid, h_originRejectLog = 0, h_upgradeFailLog = 0, h_hookTimeout = 5 * Second,
      h_presenceCache = None, h_presenceInterval = 0, h_presenceTTL = 0, h_trace = []\<rparr>"

definition configWarning_text :: "configWarning \<Rightarrow> string" where
  "configWarning_text w = (case w of
       ReadBufferSmall _ \<Rightarrow> ''ReadBufferSize is very small''
     | WriteBufferSmall _ \<Rightarrow> ''WriteBufferSize is very small'')"

definition NewHub :: "(string \<Rightarrow> string option) \<Rightarrow> request \<Rightarrow> string \<Rightarrow> int \<Rightarrow> (hub \<Rightarrow> hub) list \<Rightarrow> hub" where
  "NewHub url_Host probe uuid numCPU opts =
     (let h1 = fold (\<lambda>opt. opt) opts (hubLiteral url_Host uuid numCPU);
          h2 = emit_all (map (\<lambda>w. Log Warn (configWarning_text w)) (validateConfig (h_config h1))) h1;
          h3 = h2\<lparr>h_config := applyConfigDefaults url_Host (h_config h2)\<rparr>;
          h4 = (case CheckOrigin (h_config h3) of
                  None \<Rightarrow> h3
                | Some chk \<Rightarrow>
                    if chk probe then emit (Log Warn ''SECURITY: CheckOrigin accepts every origin'') h3 else h3);
          h5 = h4\<lparr>h_clientsSnapshot := Some \<lparr>s_set = {}, s_slice = []\<rparr>\<rparr>
      in if h_adapter h5 \<and> h_presenceInterval h5 > 0
         then h5\<lparr>h_presenceCache := Some (\<lambda>_. None)\<rparr> else h5)"

subsection \<open>Snapshots and queries\<close>

definition loadSnapshot :: "hub \<Rightarrow> hubSnapshot" where
  "loadSnapshot h = (case h_clientsSnapshot h of
       None \<Rightarrow> \<lparr>s_set = {}, s_slice = []\<rparr> | Some s \<Rightarrow> s)"

definition updateClientsSnapshot :: "env \<Rightarrow> hub \<Rightarrow> hub" where
  "updateClientsSnapshot e h =
     h\<lparr>h_clientsSnapshot := Some \<lparr>s_set = h_clients h, s_slice = e_rangeC e (h_clients h)\<rparr>\<rparr>"

definition Clients :: "hub \<Rightarrow> cref list" where
  "Clients h = s_slice (loadSnapshot h)"

definition ClientCount :: "hub \<Rightarrow> int" where
  "ClientCount h = h_clientCount h"

definition GetClient :: "string \<Rightarrow> hub \<Rightarrow> cref option" where
  "GetClient i h = h_clientIndex h i"

definition NodeID :: "hub \<Rightarrow> string" where "NodeID h = h_nodeID h"
definition State :: "hub \<Rightarrow> HubState" where "State h = h_state h"
definition IsDraining :: "hub \<Rightarrow> bool" where "IsDraining h = (State h = StateDraining)"
definition IsRunning :: "hub \<Rightarrow> bool" where "IsRunning h = (State h = StateRunning)"

text \<open>\<open>drainOnce.Do(func() { close(h.drainDone) })\<close>: closing twice is prevented by the guard.\<close>

definition signalDrained :: "hub \<Rightarrow> hub" where
  "signalDrained h = h\<lparr>h_drainDone := True\<rparr>"

subsection \<open>Registration\<close>

definition answer :: "cref \<Rightarrow> registrationResult \<Rightarrow> hub \<Rightarrow> hub" where
  "answer c res h = h\<lparr>h_results := (h_results h)(c \<mapsto> res)\<rparr>"

definition addClient :: "cref \<Rightarrow> hub \<Rightarrow> hub" where
  "addClient c h = h\<lparr>h_clients := insert c (h_clients h),
     h_clientIndex := (h_clientIndex h)(c_ID (h_mem h c) \<mapsto> c), h_clientCount := h_clientCount h + 1\<rparr>"

definition handleRegister :: "env \<Rightarrow> cref \<Rightarrow> hub \<Rightarrow> hub" where
  "handleRegister e c h =
     (if at_limit (MaxConnections (h_limits h)) (card (h_clients h))
      then answer c \<lparr>rr_client = None, rr_err = Some ErrMaxConnectionsReached\<rparr> h
      else case addToUserIndex c h of
             (Some err, h1) \<Rightarrow> answer c \<lparr>rr_client = None, rr_err = Some err\<rparr> h1
           | (None, h1) \<Rightarrow>
               let h2 = addClient c h1;
                   h3 = emit (Log Info ''Client registered'') (emit (Metric IncrementConnections) h2);
                   h4 = answer c \<lparr>rr_client = Some c, rr_err = None\<rparr> h3
               in if AfterConnect (e_hooks e) then emit (Go (CallAfterConnect c)) h4 else h4)"

definition callBeforeDisconnect :: "env \<Rightarrow> cref \<Rightarrow> hub \<Rightarrow> hub" where
  "callBeforeDisconnect e c h = (case BeforeDisconnect (e_hooks e) of
       None \<Rightarrow> h
     | Some f \<Rightarrow> (case f c h of
           (True, h1) \<Rightarrow> h1
         | (False, h1) \<Rightarrow> emit (Log Warn ''BeforeDisconnect hook timed out'') h1))"

definition removeClient :: "cref \<Rightarrow> hub \<Rightarrow> hub" where
  "removeClient c h = h\<lparr>h_clients := h_clients h - {c},
     h_clientIndex := (h_clientIndex h)(c_ID (h_mem h c) := None), h_clientCount := h_clientCount h - 1\<rparr>"

text \<open>The loop labelled \<open>drain\<close>: receive from \<open>client.send\<close> until nothing is left.\<close>

function drainSend :: "client \<Rightarrow> client" where
  "drainSend cl = (case c_send cl of [] \<Rightarrow> cl | _ # q \<Rightarrow> drainSend (cl\<lparr>c_send := q\<rparr>))"
  by auto
termination
  by (relation "measure (\<lambda>cl. length (c_send cl))") auto

declare drainSend.simps [simp del]

text \<open>The rest of \<open>handleUnregister\<close> once the client is out of the maps: the drain signal,
  the closed flag, \<open>done\<close>, the connection, the send buffer; then metrics, log and callbacks.\<close>

definition shutClient :: "env \<Rightarrow> cref \<Rightarrow> hub \<Rightarrow> hub" where
  "shutClient e c h =
     (let h1 = (if h_state h = StateDraining \<and> h_clientCount h = 0 then signalDrained h else h);
          h2 = upd_client c (markClosed (e_now e)) h1;
          h3 = upd_client c closeDone h2;
          h4 = upd_client c closeConn h3
      in upd_client c drainSend h4)"

definition noteUnregistered :: "env \<Rightarrow> cref \<Rightarrow> hub \<Rightarrow> hub" where
  "noteUnregistered e c h =
     (let h1 = emit (Log Info ''Client unregistered'') (emit (Metric DecrementConnections) h);
          h2 = (if c_onClose (h_mem h1 c) \<noteq> None then emit (Go (CallOnClose c)) h1 else h1)
      in if AfterDisconnect (e_hooks e) then emit (Go (CallAfterDisconnect c)) h2 else h2)"

definition handleUnregister :: "env \<Rightarrow> cref \<Rightarrow> hub \<Rightarrow> hub" where
  "handleUnregister e c h =
     (let h1 = callBeforeDisconnect e c h in
      if c \<notin> h_clients h1 then h1
      else
        let h2 = removeFromUserIndex c h1;
            h3 = removeClientFromAllRoomsWithHooks e c h2;
            h4 = removeClient c h3
        in noteUnregistered e c (shutClient e c h4))"

subsection \<open>The Run loop\<close>

datatype runEvent = EvRegister cref | EvUnregister cref

text \<open>The two receiving cases of the \<open>select\<close> statements; \<open>None\<close> when neither is ready.\<close>

definition nextEvent :: "env \<Rightarrow> hub \<Rightarrow> (runEvent \<times> hub) option" where
  "nextEvent e h = (case (h_register h, h_unregister h) of
       ([], []) \<Rightarrow> None
     | (c # rs, []) \<Rightarrow> Some (EvRegister c, h\<lparr>h_register := rs\<rparr>)
     | ([], c # us) \<Rightarrow> Some (EvUnregister c, h\<lparr>h_unregister := us\<rparr>)
     | (c # rs, c' # us) \<Rightarrow>
         if e_pickRegister e h then Some (EvRegister c, h\<lparr>h_register := rs\<rparr>)
         else Some (EvUnregister c', h\<lparr>h_unregister := us\<rparr>))"

definition handleEvent :: "env \<Rightarrow> runEvent \<Rightarrow> hub \<Rightarrow> hub" where
  "handleEvent e ev h = (case ev of
       EvRegister c \<Rightarrow> handleRegister e c h | EvUnregister c \<Rightarrow> handleUnregister e c h)"

partial_function (option) drainAndRebuildSnapshot :: "env \<Rightarrow> hub \<Rightarrow> hub option" where
  "drainAndRebuildSnapshot e h = (case nextEvent e h of
       None \<Rightarrow> Some (updateClientsSnapshot e h)
     | Some (ev, h1) \<Rightarrow> drainAndRebuildSnapshot e (handleEvent e ev h1))"

definition ensurePool :: "hub \<Rightarrow> hub" where
  "ensurePool h = h\<lparr>h_poolStarted := True\<rparr>"

text \<open>\<open>Run\<close> up to its loop; \<open>sub\<close> is the answer of \<open>adapter.Subscribe\<close>.\<close>

definition runStart :: "env \<Rightarrow> wsError option \<Rightarrow> hub \<Rightarrow> hub" where
  "runStart e sub h =
     (let h1 = h\<lparr>h_alive := True, h_startedAt := Some (e_now e)\<rparr>;
          h2 = (if h_useParallel h1 then ensurePool h1 else h1)
      in if h_adapter h2 \<and> sub \<noteq> None
         then emit (Metric (IncrementErrors ''adapter_subscribe'')) (emit (Log Error ''adapter subscribe failed'') h2)
         else h2)"

text \<open>The \<open>ctx.Done()\<close> case: close every client, log, return (the deferred \<open>alive.Store(0)\<close>).\<close>

definition runStop :: "env \<Rightarrow> hub \<Rightarrow> hub" where
  "runStop e h =
     (emit (Log Info ''Hub shutdown complete'') (fold (Close e) (e_rangeC e (h_clients h)) h))
       \<lparr>h_alive := False\<rparr>"

text \<open>One iteration of the loop on a register or unregister event.\<close>

definition runTurn :: "env \<Rightarrow> hub \<Rightarrow> hub option" where
  "runTurn e h = (case nextEvent e h of
       None \<Rightarrow> None
     | Some (ev, h1) \<Rightarrow> drainAndRebuildSnapshot e (handleEvent e ev h1))"

subsection \<open>Registering keeps the invariant\<close>

lemma answer_frame [frame_simps]:
  "h_mem (answer c r h) = h_mem h" "h_cnext (answer c r h) = h_cnext h"
  "h_rmem (answer c r h) = h_rmem h" "h_rnext (answer c r h) = h_rnext h"
  "h_clients (answer c r h) = h_clients h" "h_clientIndex (answer c r h) = h_clientIndex h"
  "h_clientCount (answer c r h) = h_clientCount h" "h_rooms (answer c r h) = h_rooms h"
  "h_roomVersion (answer c r h) = h_roomVersion h" "h_userIndex (answer c r h) = h_userIndex h"
  "h_limits (answer c r h) = h_limits h" "h_trace (answer c r h) = h_trace h"
  "h_register (answer c r h) = h_register h" "h_unregister (answer c r h) = h_unregister h"
  "h_config (answer c r h) = h_config h" "h_parallelBatchSize (answer c r h) = h_parallelBatchSize h"
  "h_nodeID (answer c r h) = h_nodeID h"
  "h_clientsSnapshot (answer c r h) = h_clientsSnapshot h"
  "h_results (answer c r h) = (h_results h)(c \<mapsto> r)"
  by (simp_all add: answer_def)

lemma same_registry_answer [registry_intros]: "same_registry h (answer c r h)"
  by (simp add: same_registry_def frame_simps gauge_def kept_def)

lemma addClient_frame [frame_simps]:
  "h_mem (addClient c h) = h_mem h" "h_cnext (addClient c h) = h_cnext h"
  "h_rmem (addClient c h) = h_rmem h" "h_rnext (addClient c h) = h_rnext h"
  "h_clients (addClient c h) = insert c (h_clients h)"
  "h_clientIndex (addClient c h) = (h_clientIndex h)(c_ID (h_mem h c) \<mapsto> c)"
  "h_clientCount (addClient c h) = h_clientCount h + 1" "h_rooms (addClient c h) = h_rooms h"
  "h_userIndex (addClient c h) = h_userIndex h" "h_roomVersion (addClient c h) = h_roomVersion h"
  "h_limits (addClient c h) = h_limits h" "h_trace (addClient c h) = h_trace h"
  "h_register (addClient c h) = h_register h" "h_unregister (addClient c h) = h_unregister h"
  "h_config (addClient c h) = h_config h" "h_parallelBatchSize (addClient c h) = h_parallelBatchSize h"
  "h_nodeID (addClient c h) = h_nodeID h" "h_results (addClient c h) = h_results h"
  "h_clientsSnapshot (addClient c h) = h_clientsSnapshot h"
  by (simp_all add: addClient_def)

text \<open>What an accepted registration does to the registry, and nothing else.\<close>

definition registered :: "cref \<Rightarrow> hub \<Rightarrow> hub \<Rightarrow> bool" where
  "registered c h h' \<longleftrightarrow>
     h_clients h' = insert c (h_clients h) \<and>
     h_clientIndex h' = (h_clientIndex h)(c_ID (h_mem h c) \<mapsto> c) \<and>
     h_clientCount h' = h_clientCount h + 1 \<and> h_mem h' = h_mem h \<and> h_cnext h' = h_cnext h \<and>
     h_rmem h' = h_rmem h \<and> h_rnext h' = h_rnext h \<and> h_rooms h' = h_rooms h \<and>
     h_roomVersion h' = h_roomVersion h \<and>
     h_limits h' = h_limits h \<and> h_register h' = h_register h \<and> h_unregister h' = h_unregister h \<and>
     (let u = c_userID (h_mem h c) in
      if u = '''' then h_userIndex h' = h_userIndex h
      else h_userIndex h' = (h_userIndex h)(u \<mapsto> insert c (users h u))) \<and>
     gauge conn_delta h' = gauge conn_delta h + 1 \<and> gauge room_delta h' = gauge room_delta h \<and>
     h_clientsSnapshot h' = h_clientsSnapshot h \<and> kept h h'"

lemma handleRegister_cases:
  obtains (full) "at_limit (MaxConnections (h_limits h)) (card (h_clients h))"
      "handleRegister e c h = answer c \<lparr>rr_client = None, rr_err = Some ErrMaxConnectionsReached\<rparr> h"
  | (user_full) "c_userID (h_mem h c) \<noteq> ''''"
      "at_limit (MaxConnectionsPerUser (h_limits h)) (card (users h (c_userID (h_mem h c))))"
      "handleRegister e c h = answer c \<lparr>rr_client = None, rr_err = Some ErrMaxUserConnectionsReached\<rparr> h"
  | (accepted) "within_limit (MaxConnections (h_limits h)) (Suc (card (h_clients h)))"
      "c_userID (h_mem h c) = '''' \<or>
         within_limit (MaxConnectionsPerUser (h_limits h)) (Suc (card (users h (c_userID (h_mem h c)))))"
      "registered c h (handleRegister e c h)"
      "h_results (handleRegister e c h) c = Some \<lparr>rr_client = Some c, rr_err = None\<rparr>"
proof (cases "at_limit (MaxConnections (h_limits h)) (card (h_clients h))")
  case True
  then show thesis by (intro full) (simp_all add: handleRegister_def)
next
  case False
  let ?u = "c_userID (h_mem h c)"
  show thesis
  proof (cases "?u \<noteq> '''' \<and> at_limit (MaxConnectionsPerUser (h_limits h)) (card (users h ?u))")
    case True
    with False show thesis
      by (intro user_full) (simp_all add: handleRegister_def addToUserIndex_def GetUserID_def del: not_at_limit)
  next
    case False': False
    show thesis
    proof (rule accepted)
      show "registered c h (handleRegister e c h)"
        using False False'
        by (auto simp: handleRegister_def addToUserIndex_def GetUserID_def registered_def Let_def
            frame_simps trace_simps gauge_def indexInsert_def kept_def simp del: not_at_limit)
      show "h_results (handleRegister e c h) c = Some \<lparr>rr_client = Some c, rr_err = None\<rparr>"
        using False False'
        by (auto simp: handleRegister_def addToUserIndex_def GetUserID_def Let_def frame_simps
            simp del: not_at_limit)
    qed (use False False' in auto)
  qed
qed

lemma registered_users:
  assumes "registered c h h'"
  shows "users h' = (if c_userID (h_mem h c) = '''' then users h
    else (users h)(c_userID (h_mem h c) := insert c (users h (c_userID (h_mem h c)))))"
  using assms by (intro ext) (auto simp: registered_def users_def Let_def split: if_splits)

lemma registered_members: "registered c h h' \<Longrightarrow> members h' = members h"
  by (rule members_cong) (simp_all add: registered_def)

lemma registered_inv_clients:
  assumes "registered c h h'" and "inv_clients h" and "c \<notin> h_clients h" and "c < h_cnext h"
    and "h_clientIndex h (c_ID (h_mem h c)) = None"
  shows "inv_clients h'"
  using assms by (simp add: registered_def inv_clients_def) (metis option.simps(3))

lemma registered_inv_users:
  assumes r: "registered c h h'" and inv: "inv_users h" and c: "c < h_cnext h"
  shows "inv_users h'"
proof -
  have wf: "index_wf h'"
    using r inv users_finite [OF inv] by (auto simp: registered_def inv_users_def index_wf_def Let_def split: if_splits)
  have frame: "h_mem h' = h_mem h" "h_cnext h' = h_cnext h" "h_clients h' = insert c (h_clients h)"
    using r by (simp_all add: registered_def)
  have "x < h_cnext h' \<and> c_userID (h_mem h' x) = u" if "x \<in> users h' u" for x u
    using that inv_users_owner [OF inv, of x u] c by (auto simp: registered_users [OF r] frame split: if_splits)
  moreover have "x \<in> users h' (c_userID (h_mem h' x))"
    if "x \<in> h_clients h'" "c_userID (h_mem h' x) \<noteq> ''''" for x
    using that inv_users_listed [OF inv, of x] by (auto simp: registered_users [OF r] frame split: if_splits)
  ultimately show ?thesis using wf unfolding inv_users_def by blast
qed

lemma registered_inv:
  assumes r: "registered c h h'" and inv: "registry_inv h"
    and c: "c \<notin> h_clients h" "c < h_cnext h" "h_clientIndex h (c_ID (h_mem h c)) = None"
    and lim: "within_limit (MaxConnections (h_limits h)) (Suc (card (h_clients h)))"
      "c_userID (h_mem h c) = '''' \<or>
         within_limit (MaxConnectionsPerUser (h_limits h)) (Suc (card (users h (c_userID (h_mem h c)))))"
  shows "registry_inv h'"
proof -
  have i: "inv_clients h" "inv_users h" "rooms_struct h" "rooms_agree h" "inv_limits h" "inv_gauges h"
    using inv by (simp_all add: registry_inv_def)
  note m = registered_members [OF r]
  have "rooms_struct h'" "rooms_agree h'"
    using i(3,4) r m by (auto simp: rooms_struct_def rooms_agree_def registered_def)
  moreover have "inv_gauges h'"
    using i(6) r by (simp add: inv_gauges_def registered_def)
  moreover have "inv_limits h'"
  proof -
    have "finite (h_clients h)" using i(1) by (simp add: inv_clients_def)
    moreover have "within_limit (MaxConnectionsPerUser (h_limits h)) (card (users h' u))" for u
      using i(5) lim(2) within_limit_card_insert [OF users_finite [OF i(2)]]
      by (auto simp: registered_users [OF r] inv_limits_def)
    ultimately show ?thesis
      using i(5) r lim(1) m by (simp add: inv_limits_def registered_def within_limit_card_insert)
  qed
  ultimately show ?thesis
    using registered_inv_clients [OF r i(1) c] registered_inv_users [OF r i(2) c(2)]
    by (simp add: registry_inv_def)
qed

lemma handleRegister_inv:
  assumes "registry_inv h" and "c \<notin> h_clients h" "c < h_cnext h" "h_clientIndex h (c_ID (h_mem h c)) = None"
  shows "registry_inv (handleRegister e c h)"
proof (cases rule: handleRegister_cases [of h e c])
  case accepted
  then show ?thesis using assms by - (rule registered_inv)
qed (use assms(1) in \<open>auto intro: same_registry_inv [OF same_registry_answer]\<close>)

subsection \<open>Unregistering keeps the invariant\<close>

lemma drainSend_eq: "drainSend cl = cl\<lparr>c_send := []\<rparr>"
proof (induction cl rule: drainSend.induct)
  case (1 cl)
  then show ?case by (cases "c_send cl") (simp_all add: drainSend.simps [of cl])
qed

lemma drainSend_frame [simp]:
  "c_ID (drainSend cl) = c_ID cl" "c_userID (drainSend cl) = c_userID cl" "c_rooms (drainSend cl) = c_rooms cl"
  "queue_ok cl \<Longrightarrow> queue_ok (drainSend cl)"
  by (simp_all add: drainSend_eq queue_ok_def)

lemma removeClient_frame [frame_simps]:
  "h_mem (removeClient c h) = h_mem h" "h_cnext (removeClient c h) = h_cnext h"
  "h_rmem (removeClient c h) = h_rmem h" "h_rnext (removeClient c h) = h_rnext h"
  "h_clients (removeClient c h) = h_clients h - {c}"
  "h_clientIndex (removeClient c h) = (h_clientIndex h)(c_ID (h_mem h c) := None)"
  "h_clientCount (removeClient c h) = h_clientCount h - 1" "h_rooms (removeClient c h) = h_rooms h"
  "h_roomVersion (removeClient c h) = h_roomVersion h"
  "h_userIndex (removeClient c h) = h_userIndex h"
  "h_limits (removeClient c h) = h_limits h" "h_trace (removeClient c h) = h_trace h"
  "h_register (removeClient c h) = h_register h" "h_unregister (removeClient c h) = h_unregister h"
  "h_config (removeClient c h) = h_config h" "h_parallelBatchSize (removeClient c h) = h_parallelBatchSize h"
  "h_nodeID (removeClient c h) = h_nodeID h" "h_results (removeClient c h) = h_results h"
  "h_clientsSnapshot (removeClient c h) = h_clientsSnapshot h" "h_state (removeClient c h) = h_state h"
  by (simp_all add: removeClient_def)

lemma signalDrained_same [registry_intros]: "same_registry h (signalDrained h)"
  by (simp add: signalDrained_def same_registry_def gauge_def kept_same_mem)

lemma callBeforeDisconnect_same: "hooks_observe e \<Longrightarrow> same_registry h (callBeforeDisconnect e c h)"
proof (cases "BeforeDisconnect (e_hooks e)")
  case (Some f)
  assume "hooks_observe e"
  with Some have "same_registry h (snd (f c h))" by (simp add: hooks_observe_def)
  with Some show ?thesis
    by (auto simp: callBeforeDisconnect_def intro: same_registry_emitI split: prod.split bool.split)
qed (simp add: callBeforeDisconnect_def)

text \<open>What a completed unregistration does to the registry, and nothing else.\<close>

definition unregistered :: "cref \<Rightarrow> hub \<Rightarrow> hub \<Rightarrow> bool" where
  "unregistered c h h' \<longleftrightarrow>
     h_clients h' = h_clients h - {c} \<and> h_clientCount h' = h_clientCount h - 1 \<and>
     h_clientIndex h' = (h_clientIndex h)(c_ID (h_mem h c) := None) \<and>
     (\<forall>u. users h' u = users h u - {c}) \<and> (\<forall>n. members h' n = members h n - {c}) \<and>
     c_rooms (h_mem h' c) = {} \<and> (\<forall>x. x \<noteq> c \<longrightarrow> c_rooms (h_mem h' x) = c_rooms (h_mem h x)) \<and>
     (\<forall>x. c_ID (h_mem h' x) = c_ID (h_mem h x) \<and> c_userID (h_mem h' x) = c_userID (h_mem h x)) \<and>
     h_cnext h' = h_cnext h \<and> h_limits h' = h_limits h \<and> h_register h' = h_register h \<and>
     h_unregister h' = h_unregister h \<and> gauge conn_delta h' = gauge conn_delta h - 1 \<and>
     h_roomVersion h' = h_roomVersion h + int (card (c_rooms (h_mem h c))) \<and>
     index_wf h' \<and> rooms_inv h' \<and> kept h h'"

lemma removeFromUserIndex_users:
  assumes "inv_users h"
  shows "users (removeFromUserIndex c h) u = users h u - {c}"
proof (cases "c \<in> users h u")
  case True
  then have "c_userID (h_mem h c) = u" "u \<noteq> ''''"
    using inv_users_owner [OF assms] index_wf_empty [of h] assms by (auto simp: inv_users_def)
  then show ?thesis by (simp add: removeFromUserIndex_def GetUserID_def)
next
  case False
  then show ?thesis by (auto simp: removeFromUserIndex_def GetUserID_def Let_def)
qed

lemma removeFromUserIndex_frame [frame_simps]:
  "h_mem (removeFromUserIndex c h) = h_mem h" "h_cnext (removeFromUserIndex c h) = h_cnext h"
  "h_rmem (removeFromUserIndex c h) = h_rmem h" "h_rnext (removeFromUserIndex c h) = h_rnext h"
  "h_clients (removeFromUserIndex c h) = h_clients h"
  "h_clientIndex (removeFromUserIndex c h) = h_clientIndex h"
  "h_clientCount (removeFromUserIndex c h) = h_clientCount h"
  "h_rooms (removeFromUserIndex c h) = h_rooms h" "h_limits (removeFromUserIndex c h) = h_limits h"
  "h_roomVersion (removeFromUserIndex c h) = h_roomVersion h"
  "h_trace (removeFromUserIndex c h) = h_trace h" "h_register (removeFromUserIndex c h) = h_register h"
  "h_unregister (removeFromUserIndex c h) = h_unregister h" "h_config (removeFromUserIndex c h) = h_config h"
  "h_parallelBatchSize (removeFromUserIndex c h) = h_parallelBatchSize h" "h_nodeID (removeFromUserIndex c h) = h_nodeID h"
  "h_results (removeFromUserIndex c h) = h_results h"
  by (simp_all add: removeFromUserIndex_def Let_def frame_simps)

lemma removeFromUserIndex_rooms:
  shows "members (removeFromUserIndex c h) = members h"
    and "rooms_inv (removeFromUserIndex c h) = rooms_inv h"
proof -
  show m: "members (removeFromUserIndex c h) = members h"
    by (rule members_cong) (simp_all add: frame_simps)
  show "rooms_inv (removeFromUserIndex c h) = rooms_inv h"
    by (simp add: rooms_inv_def rooms_struct_def rooms_agree_def m frame_simps gauge_def)
qed

lemma removeFromUserIndex_wf: "index_wf h \<Longrightarrow> index_wf (removeFromUserIndex c h)"
  by (simp add: removeFromUserIndex_def Let_def index_wf_indexDelete)

lemma shutClient_same: "same_registry h (shutClient e c h)"
proof -
  let ?h1 = "if h_state h = StateDraining \<and> h_clientCount h = 0 then signalDrained h else h"
  have "same_registry h ?h1" by (simp add: registry_intros)
  moreover have "same_registry ?h1 (shutClient e c h)"
    unfolding shutClient_def Let_def
    by (intro same_registry_trans [OF same_registry_upd_client same_registry_trans [OF same_registry_upd_client
          same_registry_trans [OF same_registry_upd_client same_registry_upd_client]]])
      simp_all
  ultimately show ?thesis by (rule same_registry_trans)
qed

lemma noteUnregistered_same:
  "same_registry (emit (Metric DecrementConnections) h) (noteUnregistered e c h)"
  by (auto simp: noteUnregistered_def Let_def intro!: registry_intros)

lemma dec_rooms_inv [simp]: "rooms_inv (emit (Metric DecrementConnections) h) = rooms_inv h"
  by (simp add: rooms_inv_def rooms_struct_def rooms_agree_def frame_simps trace_simps)

lemma removeClient_rooms_inv:
  assumes "rooms_inv h" and "\<And>n. c \<notin> members h n"
  shows "rooms_inv (removeClient c h)"
proof -
  have m: "members (removeClient c h) = members h" by (rule members_cong) (simp_all add: frame_simps)
  have "rooms_agree (removeClient c h)"
    using assms by (auto simp: rooms_inv_def rooms_agree_def m frame_simps)
  then show ?thesis
    using assms(1) by (simp add: rooms_inv_def rooms_struct_def m frame_simps gauge_def)
qed

lemma removeAll_wf:
  "same_clients h h' \<Longrightarrow> index_wf h' = index_wf h"
  by (simp add: same_clients_def index_wf_def)

lemma handleUnregister_cases [consumes 2]:
  assumes inv: "registry_inv h" and e: "env_ok e"
  obtains (unknown) "c \<notin> h_clients h" "same_registry h (handleUnregister e c h)"
  | (removed) "c \<in> h_clients h" "unregistered c h (handleUnregister e c h)"
proof -
  let ?h1 = "callBeforeDisconnect e c h"
  let ?h2 = "removeFromUserIndex c ?h1"
  let ?h3 = "removeClientFromAllRoomsWithHooks e c ?h2"
  let ?h4 = "removeClient c ?h3"
  let ?h5 = "emit (Metric DecrementConnections) (shutClient e c ?h4)"
  have same1: "same_registry h ?h1" using e by (simp add: env_ok_def callBeforeDisconnect_same)
  then have inv1: "registry_inv ?h1" using inv by (rule same_registry_inv)
  have r2: "rooms_inv ?h2" using registry_inv_rooms [OF inv1] by (simp add: removeFromUserIndex_rooms)
  note l3 = removeAll_rooms [OF r2 e, of c]
  have sc: "same_clients ?h2 ?h3" using l3(1) by (simp add: left_all_def)
  show thesis
  proof (cases "c \<in> h_clients h")
    case False
    with same1 show thesis by (intro unknown) (simp_all add: handleUnregister_def same_registryD)
  next
    case True
    have u1: "inv_users ?h1" using inv1 by (simp add: registry_inv_def)
    have s45: "same_registry ?h4 (shutClient e c ?h4)" by (rule shutClient_same)
    have s5: "same_registry ?h5 (handleUnregister e c h)"
      using True same1 noteUnregistered_same by (simp add: handleUnregister_def Let_def same_registryD)
    have wf: "index_wf ?h3"
      using removeAll_wf [OF sc] removeFromUserIndex_wf [of ?h1 c] u1 by (simp add: inv_users_def)
    have m3: "\<And>n. members ?h3 n = members h n - {c}"
      using l3(1) same_registry_members [OF same1] by (simp add: left_all_def removeFromUserIndex_rooms)
    have m4: "members ?h4 = members ?h3" by (rule members_cong) (simp_all add: frame_simps)
    have us3: "\<And>u. users ?h3 u = users h u - {c}"
      using same_clients_users [OF sc] removeFromUserIndex_users [OF u1] same_registry_users [OF same1] by simp
    have us4: "users ?h4 = users ?h3" by (rule users_cong) (simp add: frame_simps)
    have rinv: "rooms_inv ?h5"
      using same_registry_rooms_inv [OF s45 removeClient_rooms_inv [OF l3(2)]] m3 by simp
    have rf: "rooms_inv (handleUnregister e c h)" using s5 rinv by (rule same_registry_rooms_inv)
    have users': "\<And>u. users (handleUnregister e c h) u = users h u - {c}"
      using same_registry_users [OF s5] same_registry_users [OF s45] us3 us4 by simp
    have members': "\<And>n. members (handleUnregister e c h) n = members h n - {c}"
      using same_registry_members [OF s5] same_registry_members [OF s45] m3 m4 by simp
    have wf': "index_wf (handleUnregister e c h)"
      using wf s5 s45 by (simp add: index_wf_def same_registry_def frame_simps)
    have "kept h ?h1" "kept ?h1 ?h2" "kept ?h2 ?h3" "kept ?h3 ?h4" "kept ?h4 ?h5"
      "kept ?h5 (handleUnregister e c h)"
      using same1 sc s45 s5 by (simp_all add: same_registry_def same_clients_def kept_def frame_simps)
    then have "kept h (handleUnregister e c h)" by (blast intro: kept_trans)
    then have "unregistered c h (handleUnregister e c h)"
      unfolding unregistered_def
      using users' members' wf' rf s5 s45 same1 l3(1) sc
      by (simp add: same_registry_def left_all_def same_clients_def frame_simps trace_simps gauge_def)
    with True show thesis by (rule removed)
  qed
qed

lemma unregistered_inv_clients:
  assumes u: "unregistered c h h'" and i: "inv_clients h" and c: "c \<in> h_clients h"
  shows "inv_clients h'"
proof -
  have fin: "finite (h_clients h)" using i by (simp add: inv_clients_def)
  have eq: "h_clients h' = h_clients h - {c}" "h_clientCount h' = h_clientCount h - 1" "h_cnext h' = h_cnext h"
    "h_clientIndex h' = (h_clientIndex h)(c_ID (h_mem h c) := None)" "\<And>x. c_ID (h_mem h' x) = c_ID (h_mem h x)"
    using u by (simp_all add: unregistered_def)
  have to: "d < h_cnext h \<and> h_clientIndex h (c_ID (h_mem h d)) = Some d" if "d \<in> h_clients h" for d
    using i that by (simp add: inv_clients_def)
  have from': "d \<in> h_clients h \<and> c_ID (h_mem h d) = j" if "h_clientIndex h j = Some d" for j d
    using i that by (simp add: inv_clients_def)
  have "c_ID (h_mem h d) \<noteq> c_ID (h_mem h c)" if "d \<in> h_clients h" "d \<noteq> c" for d
    using to [OF that(1)] to [OF c] that(2) by auto
  then show ?thesis
    unfolding inv_clients_def eq using fin i int_card_remove [OF fin c] to from'
    by (auto simp: inv_clients_def split: if_splits)
qed

lemma unregistered_inv:
  assumes u: "unregistered c h h'" and inv: "registry_inv h" and c: "c \<in> h_clients h"
  shows "registry_inv h'"
proof -
  have i: "inv_clients h" "inv_users h" "inv_limits h" "inv_gauges h"
    using inv by (simp_all add: registry_inv_def)
  have r: "rooms_inv h'" using u by (simp add: unregistered_def)
  have fin: "finite (h_clients h)" using i(1) by (simp add: inv_clients_def)
  have "inv_clients h'"
    using unregistered_inv_clients [OF u i(1) c] .
  moreover have "inv_users h'"
    using u i(2) by (auto simp: unregistered_def inv_users_def)
  moreover have "inv_limits h'"
    using u i(3) fin users_finite [OF i(2)] r
    by (auto simp: unregistered_def inv_limits_def rooms_inv_def intro: within_limit_card_Diff)
  moreover have "inv_gauges h'" "rooms_struct h'" "rooms_agree h'"
    using u i(4) r by (simp_all add: unregistered_def inv_gauges_def rooms_inv_def)
  ultimately show ?thesis by (simp add: registry_inv_def)
qed

lemma handleUnregister_inv:
  assumes "registry_inv h" and "env_ok e"
  shows "registry_inv (handleUnregister e c h)"
  using assms
  by (cases rule: handleUnregister_cases [where c = c])
    (blast intro: same_registry_inv unregistered_inv assms)+

subsection \<open>The invariant of the Run loop\<close>

text \<open>
  \<open>pending_ok\<close>: identifiers are not reused (they are random UUIDs), and a client waits for
  registration at most once and only while it is not registered. \<open>snapshot_ok\<close>: the
  lock-free snapshot the broadcasts iterate over is the registered set.
\<close>

definition pending_ok :: "hub \<Rightarrow> bool" where
  "pending_ok h \<longleftrightarrow> inj_on (\<lambda>c. c_ID (h_mem h c)) {..<h_cnext h} \<and>
     distinct (h_register h) \<and> set (h_register h) \<subseteq> {..<h_cnext h} \<and>
     set (h_register h) \<inter> h_clients h = {}"

definition snapshot_ok :: "hub \<Rightarrow> bool" where
  "snapshot_ok h \<longleftrightarrow> s_set (loadSnapshot h) = h_clients h \<and>
     set (s_slice (loadSnapshot h)) = h_clients h \<and> distinct (s_slice (loadSnapshot h))"

definition loop_inv :: "hub \<Rightarrow> bool" where
  "loop_inv h \<longleftrightarrow> registry_inv h \<and> pending_ok h"

lemma pending_fresh_ID:
  assumes "registry_inv h" and "pending_ok h" and "c \<in> set (h_register h)"
  shows "h_clientIndex h (c_ID (h_mem h c)) = None"
proof (rule ccontr)
  assume "h_clientIndex h (c_ID (h_mem h c)) \<noteq> None"
  then obtain d where d: "h_clientIndex h (c_ID (h_mem h c)) = Some d" by auto
  then have "d \<in> h_clients h" "c_ID (h_mem h d) = c_ID (h_mem h c)" "d < h_cnext h"
    using assms(1) by (auto simp: registry_inv_def inv_clients_def)
  moreover have "c < h_cnext h" "c \<notin> h_clients h" using assms(2,3) by (auto simp: pending_ok_def)
  ultimately show False using assms(2) by (auto simp: pending_ok_def dest: inj_onD)
qed

lemma nextEvent_cases [consumes 1]:
  assumes "nextEvent e h = Some (ev, h1)"
  obtains (reg) c rs where "ev = EvRegister c" "h_register h = c # rs" "h1 = h\<lparr>h_register := rs\<rparr>"
  | (unreg) c us where "ev = EvUnregister c" "h_unregister h = c # us" "h1 = h\<lparr>h_unregister := us\<rparr>"
  using assms by (auto simp: nextEvent_def split: list.splits if_splits)

lemma nextEvent_None: "nextEvent e h = None \<longleftrightarrow> h_register h = [] \<and> h_unregister h = []"
  by (auto simp: nextEvent_def split: list.split)

lemma queue_frame [simp]:
  "registry_inv (h\<lparr>h_register := rs\<rparr>) = registry_inv h"
  "registry_inv (h\<lparr>h_unregister := us\<rparr>) = registry_inv h"
  "pending_ok (h\<lparr>h_unregister := us\<rparr>) = pending_ok h"
proof -
  have m: "members (h\<lparr>h_register := rs\<rparr>) = members h" "members (h\<lparr>h_unregister := us\<rparr>) = members h"
    by (rule members_cong; simp)+
  have u: "users (h\<lparr>h_register := rs\<rparr>) = users h" "users (h\<lparr>h_unregister := us\<rparr>) = users h"
    by (rule users_cong; simp)+
  show "registry_inv (h\<lparr>h_register := rs\<rparr>) = registry_inv h"
    "registry_inv (h\<lparr>h_unregister := us\<rparr>) = registry_inv h"
    by (simp_all add: registry_inv_def registry_inv_defs m u gauge_def)
  show "pending_ok (h\<lparr>h_unregister := us\<rparr>) = pending_ok h" by (simp add: pending_ok_def)
qed

lemma handleRegister_queues:
  "h_register (handleRegister e c h) = h_register h \<and> h_unregister (handleRegister e c h) = h_unregister h \<and>
   h_mem (handleRegister e c h) = h_mem h \<and> h_cnext (handleRegister e c h) = h_cnext h \<and>
   h_clients (handleRegister e c h) \<subseteq> insert c (h_clients h)"
  by (cases rule: handleRegister_cases [of h e c]) (auto simp: registered_def frame_simps)

lemma handleUnregister_queues:
  assumes "registry_inv h" and "env_ok e"
  shows "h_register (handleUnregister e c h) = h_register h \<and>
    h_unregister (handleUnregister e c h) = h_unregister h \<and>
    (\<forall>x. c_ID (h_mem (handleUnregister e c h) x) = c_ID (h_mem h x)) \<and>
    h_cnext (handleUnregister e c h) = h_cnext h \<and> h_clients (handleUnregister e c h) = h_clients h - {c}"
  using assms
  by (cases rule: handleUnregister_cases [where c = c])
    (auto simp: unregistered_def same_registry_def)

lemma handleEvent_loop_inv:
  assumes inv: "loop_inv h" and e: "env_ok e" and ev: "nextEvent e h = Some (ev, h1)"
  shows "loop_inv (handleEvent e ev h1)"
    and "length (h_register (handleEvent e ev h1)) + length (h_unregister (handleEvent e ev h1)) <
      length (h_register h) + length (h_unregister h)"
proof -
  have i: "registry_inv h" "pending_ok h" using inv by (simp_all add: loop_inv_def)
  from ev have "loop_inv (handleEvent e ev h1) \<and>
    length (h_register (handleEvent e ev h1)) + length (h_unregister (handleEvent e ev h1)) <
      length (h_register h) + length (h_unregister h)"
  proof (cases rule: nextEvent_cases)
    case (reg c rs)
    have c: "c \<notin> h_clients h" "c < h_cnext h" "c \<notin> set rs" using i(2) reg(2) by (auto simp: pending_ok_def)
    then have "registry_inv (handleRegister e c h1)"
      using i pending_fresh_ID [OF i, of c] reg by (intro handleRegister_inv) simp_all
    moreover have "pending_ok (handleRegister e c h1)"
      using i(2) c reg handleRegister_queues [of e c h1] by (auto simp: pending_ok_def)
    ultimately show ?thesis
      using reg handleRegister_queues [of e c h1] by (simp add: loop_inv_def handleEvent_def)
  next
    case (unreg c us)
    then have i1: "registry_inv h1" "pending_ok h1" using i by simp_all
    note q = handleUnregister_queues [OF i1(1) e, of c]
    have "pending_ok (handleUnregister e c h1)" using i1(2) q by (auto simp: pending_ok_def)
    then show ?thesis
      using unreg q handleUnregister_inv [OF i1(1) e, of c] by (simp add: loop_inv_def handleEvent_def)
  qed
  then show "loop_inv (handleEvent e ev h1)"
    and "length (h_register (handleEvent e ev h1)) + length (h_unregister (handleEvent e ev h1)) <
      length (h_register h) + length (h_unregister h)" by simp_all
qed

lemma updateClientsSnapshot_ok:
  assumes "loop_inv h" and "env_ok e"
  shows "loop_inv (updateClientsSnapshot e h) \<and> snapshot_ok (updateClientsSnapshot e h)"
proof -
  let ?h = "updateClientsSnapshot e h"
  have m: "members ?h = members h" by (rule members_cong) (simp_all add: updateClientsSnapshot_def)
  have u: "users ?h = users h" by (rule users_cong) (simp_all add: updateClientsSnapshot_def)
  have "registry_inv ?h = registry_inv h"
    by (simp add: registry_inv_def registry_inv_defs m u) (simp add: updateClientsSnapshot_def gauge_def)
  moreover have "pending_ok ?h = pending_ok h" by (simp add: pending_ok_def updateClientsSnapshot_def)
  moreover have "finite (h_clients h)" using assms(1) by (simp add: loop_inv_def registry_inv_def inv_clients_def)
  then have "snapshot_ok ?h"
    using ranges_okD(1) [of e "h_clients h"] assms(2)
    by (simp add: snapshot_ok_def loadSnapshot_def updateClientsSnapshot_def env_ok_def)
  ultimately show ?thesis using assms(1) by (simp add: loop_inv_def)
qed

text \<open>With hooks that only observe, \<open>drainAndRebuildSnapshot\<close> returns, both channels are
  empty, and the invariant and an exact snapshot hold.\<close>

lemma drainAndRebuildSnapshot_returns:
  assumes e: "env_ok e"
  shows "loop_inv h \<Longrightarrow> \<exists>h'. drainAndRebuildSnapshot e h = Some h' \<and> loop_inv h' \<and> snapshot_ok h' \<and>
    h_register h' = [] \<and> h_unregister h' = []"
proof (induction "length (h_register h) + length (h_unregister h)" arbitrary: h rule: less_induct)
  case less
  show ?case
  proof (cases "nextEvent e h")
    case None
    then have "h_register h = []" "h_unregister h = []" by (simp_all add: nextEvent_None)
    then have "h_register (updateClientsSnapshot e h) = []" "h_unregister (updateClientsSnapshot e h) = []"
      by (simp_all add: updateClientsSnapshot_def)
    then show ?thesis
      using updateClientsSnapshot_ok [OF less.prems e] None
      by (simp add: drainAndRebuildSnapshot.simps [of e h])
  next
    case (Some p)
    then obtain ev h1 where ev: "nextEvent e h = Some (ev, h1)" by (cases p) auto
    note step = handleEvent_loop_inv [OF less.prems e ev]
    from less.hyps [OF step(2,1)] ev show ?thesis
      by (simp add: drainAndRebuildSnapshot.simps [of e h])
  qed
qed

lemma runTurn_returns:
  assumes "env_ok e" and "loop_inv h" and "h_register h \<noteq> [] \<or> h_unregister h \<noteq> []"
  shows "\<exists>h'. runTurn e h = Some h' \<and> loop_inv h' \<and> snapshot_ok h' \<and> h_register h' = [] \<and> h_unregister h' = []"
proof -
  obtain ev h1 where ev: "nextEvent e h = Some (ev, h1)"
    using assms(3) nextEvent_None [of e h] by fastforce
  then show ?thesis
    using drainAndRebuildSnapshot_returns [OF assms(1) handleEvent_loop_inv(1) [OF assms(2,1) ev]]
    by (simp add: runTurn_def)
qed

subsection \<open>Properties\<close>

lemma shutClient_closed:
  "h_mem (noteUnregistered e c (shutClient e c h)) =
     (h_mem h)(c := drainSend (closeConn (closeDone (markClosed (e_now e) (h_mem h c)))))"
  by (simp add: noteUnregistered_def shutClient_def Let_def frame_simps signalDrained_def)

lemma handleUnregister_closed:
  assumes "hooks_observe e" and "c \<in> h_clients h"
  shows "c_closed (h_mem (handleUnregister e c h) c) \<and> c_done (h_mem (handleUnregister e c h) c) \<and>
    c_connClosed (h_mem (handleUnregister e c h) c) \<and> c_send (h_mem (handleUnregister e c h) c) = []"
proof -
  have "c \<in> h_clients (callBeforeDisconnect e c h)"
    using assms callBeforeDisconnect_same [OF assms(1), of h c] by (simp add: same_registry_def)
  then show ?thesis
    by (simp add: handleUnregister_def Let_def shutClient_closed drainSend_eq closeConn_def closeDone_def markClosed_def)
qed

lemma exampleHub_loop: "loop_inv exampleHub" "snapshot_ok exampleHub"
proof -
  have "pending_ok exampleHub"
    by (simp add: pending_ok_def inj_on_def)
  then show "loop_inv exampleHub" by (simp add: loop_inv_def exampleHub_inv)
  show "snapshot_ok exampleHub" by (simp add: snapshot_ok_def loadSnapshot_def)
qed

text \<open>C13: Registration is where connection limits are decided: a pending client is refused with
  \<open>ErrMaxConnectionsReached\<close> exactly when the hub is full, with
  \<open>ErrMaxUserConnectionsReached\<close> exactly when its user is, and then the registry is unchanged;
  otherwise it is added to the client map, the ID index and its user's entry, and to nothing
  else. The waiting upgrade gets exactly this answer, and the invariant is kept.\<close>

theorem handleRegister_decides:
  assumes "loop_inv h" and "c \<in> set (h_register h)"
  shows "registry_inv (handleRegister e c h) \<and>
    (if at_limit (MaxConnections (h_limits h)) (card (h_clients h))
     then h_results (handleRegister e c h) c = Some \<lparr>rr_client = None, rr_err = Some ErrMaxConnectionsReached\<rparr> \<and>
          same_registry h (handleRegister e c h)
     else if GetUserID c h \<noteq> '''' \<and> at_limit (MaxConnectionsPerUser (h_limits h)) (card (users h (GetUserID c h)))
     then h_results (handleRegister e c h) c = Some \<lparr>rr_client = None, rr_err = Some ErrMaxUserConnectionsReached\<rparr> \<and>
          same_registry h (handleRegister e c h)
     else h_results (handleRegister e c h) c = Some \<lparr>rr_client = Some c, rr_err = None\<rparr> \<and>
          h_clients (handleRegister e c h) = insert c (h_clients h) \<and>
          GetClient (c_ID (h_mem h c)) (handleRegister e c h) = Some c \<and>
          users (handleRegister e c h) = (if GetUserID c h = '''' then users h
            else (users h)(GetUserID c h := insert c (users h (GetUserID c h)))) \<and>
          members (handleRegister e c h) = members h)"
proof -
  have p: "registry_inv h" "pending_ok h" "c \<notin> h_clients h" "c < h_cnext h"
    using assms by (auto simp: loop_inv_def pending_ok_def)
  have inv: "registry_inv (handleRegister e c h)"
    using p pending_fresh_ID [OF p(1,2) assms(2)] by (intro handleRegister_inv)
  show ?thesis
  proof (cases rule: handleRegister_cases [of h e c])
    case full
    with inv show ?thesis by (simp add: frame_simps registry_intros)
  next
    case user_full
    then show ?thesis
      using inv by (auto simp: frame_simps registry_intros GetUserID_def handleRegister_def addToUserIndex_def Let_def)
  next
    case accepted
    note r = accepted(3)
    from accepted(1,2) have "\<not> at_limit (MaxConnections (h_limits h)) (card (h_clients h))"
      "\<not> (GetUserID c h \<noteq> '''' \<and> at_limit (MaxConnectionsPerUser (h_limits h)) (card (users h (GetUserID c h))))"
      by (auto simp: GetUserID_def)
    with accepted(4) inv registered_users [OF r] registered_members [OF r] show ?thesis
      using r by (simp add: registered_def GetClient_def GetUserID_def)
  qed
qed

theorem handleRegister_decides_witness:
  "h_clients (handleRegister exampleEnv 2 exampleHub) = {0, 1, 2} \<and>
   registry_inv (handleRegister exampleEnv 2 exampleHub)"
  using handleRegister_decides [OF exampleHub_loop(1), of 2 exampleEnv]
  by (auto simp: exampleLimits_def at_limit_def GetUserID_def)

text \<open>C14: Unregistering a registered client removes it from the client map, the ID index, its user's
  entry and every room, closes its \<open>done\<close> channel and its connection, marks it closed and empties
  its send buffer; every other client stays registered and in its rooms, and the invariant
  (with the connection and room gauges) is kept. For a client that is not registered the registry
  stays as it is, so unregistering twice is harmless.\<close>

theorem handleUnregister_removes:
  assumes "registry_inv h" and "env_ok e"
  shows "let h' = handleUnregister e c h in registry_inv h' \<and>
    h_clients h' = h_clients h - {c} \<and> (\<forall>n. members h' n = members h n - {c}) \<and>
    (if c \<in> h_clients h
     then GetClient (c_ID (h_mem h c)) h' = None \<and> (\<forall>u. users h' u = users h u - {c}) \<and>
          ClientCount h' = ClientCount h - 1 \<and>
          IsClosed c h' \<and> c_done (h_mem h' c) \<and> c_connClosed (h_mem h' c) \<and> c_send (h_mem h' c) = []
     else same_registry h h')"
proof (cases "c \<in> h_clients h")
  case False
  with assms have s: "same_registry h (handleUnregister e c h)"
    by (cases rule: handleUnregister_cases [where c = c]) simp_all
  have "members h n - {c} = members h n" for n
    using assms(1) False by (auto simp: registry_inv_def rooms_agree_def)
  with False s show ?thesis
    using same_registry_inv [OF s assms(1)] same_registry_members [OF s] by (simp add: same_registry_def)
next
  case True
  with assms have "unregistered c h (handleUnregister e c h)"
    by (cases rule: handleUnregister_cases [where c = c]) simp_all
  with True show ?thesis
    using handleUnregister_inv [OF assms, of c] handleUnregister_closed [OF _ True, of e] assms(2)
    by (simp add: unregistered_def GetClient_def ClientCount_def IsClosed_def env_ok_def)
qed

theorem handleUnregister_removes_witness:
  "members (handleUnregister exampleEnv 0 exampleHub) ''lobby'' = {} \<and>
   ClientCount (handleUnregister exampleEnv 0 exampleHub) = 1"
  using handleUnregister_removes [OF exampleHub_inv exampleEnv_ok(1), of 0]
  by (simp add: Let_def exampleHub_views ClientCount_def)

text \<open>C15: An iteration of the Run loop that finds an event returns: \<open>drainAndRebuildSnapshot\<close> handles
  every queued event, whatever order \<open>select\<close> picks, both channels are empty afterwards, the
  invariant holds and the snapshot readers see is exactly the set of registered clients.\<close>

theorem runTurn_settles:
  assumes "env_ok e" and "loop_inv h" and "h_register h \<noteq> [] \<or> h_unregister h \<noteq> []"
  shows "\<exists>h'. runTurn e h = Some h' \<and> loop_inv h' \<and> h_register h' = [] \<and> h_unregister h' = [] \<and>
    set (Clients h') = h_clients h' \<and> distinct (Clients h') \<and> ClientCount h' = int (length (Clients h'))"
proof -
  obtain h' where h': "runTurn e h = Some h'" "loop_inv h'" "snapshot_ok h'" "h_register h' = []" "h_unregister h' = []"
    using runTurn_returns [OF assms] by blast
  have "h_clientCount h' = int (card (h_clients h'))"
    using h'(2) by (simp add: loop_inv_def registry_inv_def inv_clients_def)
  with h' show ?thesis
    by (auto simp: snapshot_ok_def Clients_def ClientCount_def dest: distinct_card)
qed

theorem runTurn_settles_witness:
  "\<exists>h'. runTurn exampleEnv exampleHub = Some h' \<and> h_register h' = [] \<and> set (Clients h') = h_clients h'"
  using runTurn_settles [OF exampleEnv_ok(1) exampleHub_loop(1)] by auto

end
