(* ===== verification/Ws_Send.thy ===== *)
theory Ws_Send
  imports Ws_Hub
begin

section \<open>Sending to one client (hub.go: trySendErr and below; client.go: SendMessage)\<close>

text \<open>
  The send buffer of a client is a Go channel; \<open>chanSend\<close> and \<open>chanRecv\<close> are its
  non-blocking operations and interpret the locale \<open>bounded_queue\<close>. On top of them stand
  the drop policies (\<open>trySendErr\<close>, \<open>trySendDropOldest\<close>, \<open>notifySendDropped\<close>) and the
  blocking sends with a context.

  \<open>OnSendDropped\<close> is called in the middle of the evict-and-enqueue loop, so it is threaded
  through it. The facts about buffers assume it touches nothing but the trace
  (\<open>drop_hook_passive\<close>); then a send changes one client by \<open>offerItem\<close> and nothing else.

  A blocking send has the value \<open>None\<close> where it would wait: the buffer is full and the
  context is not done. What a context answers at each attempt is the record \<open>ctxView\<close>.
\<close>

subsection \<open>The channel\<close>

definition chanSend :: "sendItem \<Rightarrow> client \<Rightarrow> client option" where
  "chanSend item cl =
     (if length (c_send cl) < c_sendCap cl then Some (cl\<lparr>c_send := c_send cl @ [item]\<rparr>) else None)"

definition chanRecv :: "client \<Rightarrow> (sendItem \<times> client) option" where
  "chanRecv cl = (case c_send cl of [] \<Rightarrow> None | x # q \<Rightarrow> Some (x, cl\<lparr>c_send := q\<rparr>))"

interpretation sendq: bounded_queue c_send c_sendCap chanSend chanRecv
  by unfold_locales (auto simp: chanSend_def chanRecv_def split: if_splits list.splits)

definition hubSend :: "cref \<Rightarrow> sendItem \<Rightarrow> hub \<Rightarrow> hub option" where
  "hubSend c item h = (case chanSend item (h_mem h c) of
       None \<Rightarrow> None | Some cl \<Rightarrow> Some (h\<lparr>h_mem := (h_mem h)(c := cl)\<rparr>))"

definition hubRecv :: "cref \<Rightarrow> hub \<Rightarrow> (sendItem \<times> hub) option" where
  "hubRecv c h = (case chanRecv (h_mem h c) of
       None \<Rightarrow> None | Some (x, cl) \<Rightarrow> Some (x, h\<lparr>h_mem := (h_mem h)(c := cl)\<rparr>))"

subsection \<open>Drop policies\<close>

definition notifySendDropped :: "env \<Rightarrow> cref \<Rightarrow> bytes \<Rightarrow> hub \<Rightarrow> hub" where
  "notifySendDropped e c data h =
     (let h1 = emit (Metric IncrementMessagesDropped)
                 (emit (Log Warn ''Client send buffer full, message dropped'') h)
      in case OnSendDropped (e_hooks e) of None \<Rightarrow> h1 | Some f \<Rightarrow> f c data h1)"

text \<open>\<open>for range n\<close>: evict the oldest message, then try to enqueue the new one.\<close>

fun evictLoop :: "env \<Rightarrow> cref \<Rightarrow> sendItem \<Rightarrow> nat \<Rightarrow> hub \<Rightarrow> bool \<times> hub" where
  "evictLoop e c item 0 h = (False, h)"
| "evictLoop e c item (Suc n) h =
     (let h1 = (case hubRecv c h of
                  None \<Rightarrow> h
                | Some (dropped, h') \<Rightarrow> notifySendDropped e c (si_data dropped) h')
      in case hubSend c item h1 of
           Some h2 \<Rightarrow> (True, h2)
         | None \<Rightarrow> evictLoop e c item n h1)"

definition trySendDropOldest :: "env \<Rightarrow> cref \<Rightarrow> sendItem \<Rightarrow> hub \<Rightarrow> bool \<times> hub" where
  "trySendDropOldest e c item h =
     (case hubSend c item h of Some h1 \<Rightarrow> (True, h1) | None \<Rightarrow> evictLoop e c item 2 h)"

definition trySendErr :: "env \<Rightarrow> cref \<Rightarrow> sendItem \<Rightarrow> hub \<Rightarrow> bool \<times> hub" where
  "trySendErr e c item h =
     (if c_closed (h_mem h c) then (False, h)
      else case hubSend c item h of
             Some h1 \<Rightarrow> (True, h1)
           | None \<Rightarrow>
               (case (case h_dropPolicy h of
                        DropOldest \<Rightarrow> trySendDropOldest e c item h
                      | DropNewest \<Rightarrow> (False, h)) of
                  (True, h1) \<Rightarrow> (True, h1)
                | (False, h1) \<Rightarrow> (False, notifySendDropped e c (si_data item) h1)))"

definition trySend :: "env \<Rightarrow> cref \<Rightarrow> sendItem \<Rightarrow> hub \<Rightarrow> hub" where
  "trySend e c item h = snd (trySendErr e c item h)"

subsection \<open>The client's send methods\<close>

definition SendMessage :: "env \<Rightarrow> cref \<Rightarrow> int \<Rightarrow> bytes \<Rightarrow> hub \<Rightarrow> wsError option \<times> hub" where
  "SendMessage e c msgType data h =
     (if c_closed (h_mem h c) then (Some ErrConnectionClosed, h)
      else case trySendErr e c \<lparr>si_msgType = msgType, si_data = data\<rparr> h of
             (True, h1) \<Rightarrow> (None, h1)
           | (False, h1) \<Rightarrow> (Some ErrSendBufferFull, h1))"

definition Send :: "env \<Rightarrow> cref \<Rightarrow> bytes \<Rightarrow> hub \<Rightarrow> wsError option \<times> hub" where
  "Send e c data h = SendMessage e c TextMessage data h"

definition SendText :: "env \<Rightarrow> cref \<Rightarrow> string \<Rightarrow> hub \<Rightarrow> wsError option \<times> hub" where
  "SendText e c text h = Send e c text h"

text \<open>\<open>enc\<close> is the outcome of \<open>json.Marshal\<close>.\<close>

definition SendJSON :: "env \<Rightarrow> cref \<Rightarrow> wsError + bytes \<Rightarrow> hub \<Rightarrow> wsError option \<times> hub" where
  "SendJSON e c enc h = (case enc of Inl err \<Rightarrow> (Some err, h) | Inr data \<Rightarrow> Send e c data h)"

definition SendRawJSON :: "env \<Rightarrow> cref \<Rightarrow> bytes \<Rightarrow> hub \<Rightarrow> wsError option \<times> hub" where
  "SendRawJSON e c data h = Send e c data h"

definition SendBinary :: "env \<Rightarrow> cref \<Rightarrow> bytes \<Rightarrow> hub \<Rightarrow> wsError option \<times> hub" where
  "SendBinary e c data h = SendMessage e c BinaryMessage data h"

record ctxView =
  cx_done :: "cref \<Rightarrow> bool"
  cx_pick :: "cref \<Rightarrow> bool"
  cx_err :: wsError

text \<open>\<open>select { case c.send <- item: ... case <-ctx.Done(): ... }\<close>. When both are ready
  \<open>cx_pick\<close> chooses; \<open>None\<close> when neither is.\<close>

definition selectSend :: "ctxView \<Rightarrow> cref \<Rightarrow> sendItem \<Rightarrow> hub \<Rightarrow> (bool \<times> hub) option" where
  "selectSend ctx c item h = (case hubSend c item h of
       Some h1 \<Rightarrow> if cx_done ctx c \<and> cx_pick ctx c then Some (False, h) else Some (True, h1)
     | None \<Rightarrow> if cx_done ctx c then Some (False, h) else None)"

definition SendMessageWithContext ::
  "ctxView \<Rightarrow> cref \<Rightarrow> int \<Rightarrow> bytes \<Rightarrow> hub \<Rightarrow> (wsError option \<times> hub) option" where
  "SendMessageWithContext ctx c msgType data h =
     (if c_closed (h_mem h c) then Some (Some ErrConnectionClosed, h)
      else case selectSend ctx c \<lparr>si_msgType = msgType, si_data = data\<rparr> h of
             None \<Rightarrow> None
           | Some (True, h1) \<Rightarrow> Some (None, h1)
           | Some (False, h1) \<Rightarrow> Some (Some (cx_err ctx), h1))"

definition SendWithContext :: "ctxView \<Rightarrow> cref \<Rightarrow> bytes \<Rightarrow> hub \<Rightarrow> (wsError option \<times> hub) option" where
  "SendWithContext ctx c data h = SendMessageWithContext ctx c TextMessage data h"

definition trySendWithContext :: "ctxView \<Rightarrow> cref \<Rightarrow> sendItem \<Rightarrow> hub \<Rightarrow> (bool \<times> hub) option" where
  "trySendWithContext ctx c item h = selectSend ctx c item h"

subsection \<open>The effect of a send on the client\<close>

definition drop_hook_passive :: "env \<Rightarrow> bool" where
  "drop_hook_passive e \<longleftrightarrow> (\<forall>f c d h. OnSendDropped (e_hooks e) = Some f \<longrightarrow>
     f c d h = h\<lparr>h_trace := h_trace (f c d h)\<rparr> \<and> gauge conn_delta (f c d h) = gauge conn_delta h \<and>
     gauge room_delta (f c d h) = gauge room_delta h \<and> gauge drop_delta (f c d h) = gauge drop_delta h \<and>
     published (f c d h) = published h)"

text \<open>The specification of a send: refused by a closed client, appended when there is room,
  and otherwise decided by the drop policy.\<close>

definition offerItem :: "DropPolicy \<Rightarrow> sendItem \<Rightarrow> client \<Rightarrow> client" where
  "offerItem pol item cl =
     (if c_closed cl then cl
      else if length (c_send cl) < c_sendCap cl then cl\<lparr>c_send := c_send cl @ [item]\<rparr>
      else case pol of
             DropNewest \<Rightarrow> cl
           | DropOldest \<Rightarrow> cl\<lparr>c_send := tl (c_send cl) @ [item]\<rparr>)"

definition offerOk :: "DropPolicy \<Rightarrow> client \<Rightarrow> bool" where
  "offerOk pol cl \<longleftrightarrow> \<not> c_closed cl \<and> (length (c_send cl) < c_sendCap cl \<or> pol = DropOldest)"

definition drops :: "DropPolicy \<Rightarrow> client \<Rightarrow> int" where
  "drops pol cl = (if c_closed cl \<or> length (c_send cl) < c_sendCap cl then 0 else 1)"

lemma offerItem_queue_ok [simp]: "queue_ok cl \<Longrightarrow> queue_ok (offerItem pol item cl)"
  by (auto simp: queue_ok_def offerItem_def split: DropPolicy.split)

lemma offerItem_frame [simp]:
  "c_ID (offerItem pol item cl) = c_ID cl" "c_userID (offerItem pol item cl) = c_userID cl"
  "c_rooms (offerItem pol item cl) = c_rooms cl" "c_closed (offerItem pol item cl) = c_closed cl"
  "c_sendCap (offerItem pol item cl) = c_sendCap cl"
  by (simp_all add: offerItem_def split: DropPolicy.split)

lemma traced_trans:
  fixes h :: hub
  assumes "h2 = h1\<lparr>h_trace := t2\<rparr>" and "h1 = h\<lparr>h_trace := t1\<rparr>"
  shows "h2 = h\<lparr>h_trace := h_trace h2\<rparr>"
  by (simp add: assms)

lemma notifySendDropped_passive:
  assumes "drop_hook_passive e"
  shows "notifySendDropped e c d h = h\<lparr>h_trace := h_trace (notifySendDropped e c d h)\<rparr>"
    and "gauge drop_delta (notifySendDropped e c d h) = gauge drop_delta h + 1"
    and "gauge conn_delta (notifySendDropped e c d h) = gauge conn_delta h"
    and "gauge room_delta (notifySendDropped e c d h) = gauge room_delta h"
    and "published (notifySendDropped e c d h) = published h"
proof -
  let ?h1 = "emit (Metric IncrementMessagesDropped) (emit (Log Warn ''Client send buffer full, message dropped'') h)"
  have e1: "?h1 = h\<lparr>h_trace := h_trace ?h1\<rparr>" by (simp add: emit_def)
  have "notifySendDropped e c d h = h\<lparr>h_trace := h_trace (notifySendDropped e c d h)\<rparr> \<and>
    gauge drop_delta (notifySendDropped e c d h) = gauge drop_delta h + 1 \<and>
    gauge conn_delta (notifySendDropped e c d h) = gauge conn_delta h \<and>
    gauge room_delta (notifySendDropped e c d h) = gauge room_delta h \<and>
    published (notifySendDropped e c d h) = published h"
  proof (cases "OnSendDropped (e_hooks e)")
    case None
    then show ?thesis using e1 by (simp add: notifySendDropped_def Let_def trace_simps)
  next
    case (Some f)
    with assms have f: "f c d ?h1 = ?h1\<lparr>h_trace := h_trace (f c d ?h1)\<rparr>"
      "gauge conn_delta (f c d ?h1) = gauge conn_delta ?h1" "gauge room_delta (f c d ?h1) = gauge room_delta ?h1"
      "gauge drop_delta (f c d ?h1) = gauge drop_delta ?h1" "published (f c d ?h1) = published ?h1"
      unfolding drop_hook_passive_def by blast+
    have "f c d ?h1 = h\<lparr>h_trace := h_trace (f c d ?h1)\<rparr>"
      using f(1) e1 by (rule traced_trans)
    then show ?thesis using Some f by (simp add: notifySendDropped_def Let_def trace_simps)
  qed
  then show "notifySendDropped e c d h = h\<lparr>h_trace := h_trace (notifySendDropped e c d h)\<rparr>"
    "gauge drop_delta (notifySendDropped e c d h) = gauge drop_delta h + 1"
    "gauge conn_delta (notifySendDropped e c d h) = gauge conn_delta h"
    "gauge room_delta (notifySendDropped e c d h) = gauge room_delta h"
    "published (notifySendDropped e c d h) = published h" by simp_all
qed

text \<open>A hub after messages were offered: only the clients, the trace and the
  lazily started worker pool differ.\<close>

definition sent :: "(cref \<Rightarrow> client) \<Rightarrow> hub \<Rightarrow> hub \<Rightarrow> bool" where
  "sent m h h' \<longleftrightarrow> (\<exists>t p. h' = h\<lparr>h_mem := m, h_trace := t, h_poolStarted := p\<rparr>) \<and>
     gauge conn_delta h' = gauge conn_delta h \<and> gauge room_delta h' = gauge room_delta h \<and>
     published h' = published h"

lemma sentI:
  "h' = h\<lparr>h_mem := m, h_trace := t\<rparr> \<Longrightarrow> gauge conn_delta h' = gauge conn_delta h \<Longrightarrow>
   gauge room_delta h' = gauge room_delta h \<Longrightarrow> published h' = published h \<Longrightarrow> sent m h h'"
  unfolding sent_def by (auto intro!: exI [where x = t] exI [where x = "h_poolStarted h"])

lemma sentD:
  assumes "sent m h h'"
  shows "h_mem h' = m" "h_dropPolicy h' = h_dropPolicy h" "h_useParallel h' = h_useParallel h"
    "h_parallelBatchSize h' = h_parallelBatchSize h" "h_clients h' = h_clients h"
    "h_clientsSnapshot h' = h_clientsSnapshot h" "h_rooms h' = h_rooms h" "h_rmem h' = h_rmem h"
    "h_userIndex h' = h_userIndex h" "h_adapter h' = h_adapter h" "h_nodeID h' = h_nodeID h"
    "h_presenceCache h' = h_presenceCache h" "h_clientIndex h' = h_clientIndex h"
    "published h' = published h"
  using assms by (auto simp: sent_def)

lemma sent_refl: "sent (h_mem h) h h"
  by (rule sentI [where t = "h_trace h"]) simp_all

lemma sent_trans:
  assumes "sent m h h1" and "sent m' h1 h2"
  shows "sent m' h h2"
  using assms by (simp add: sent_def) (elim conjE exE, simp, blast)

lemma sent_registry:
  assumes "sent m h h'" and "\<And>c. c_ID (m c) = c_ID (h_mem h c) \<and> c_userID (m c) = c_userID (h_mem h c) \<and>
    c_rooms (m c) = c_rooms (h_mem h c) \<and> (queue_ok (h_mem h c) \<longrightarrow> queue_ok (m c))"
  shows "same_registry h h'"
  using assms by (auto simp: sent_def same_registry_def kept_def)

lemma emit_sent: "quiet x \<Longrightarrow> pub_part x = [] \<Longrightarrow> sent (h_mem h) h (emit x h)"
  by (rule sentI [where t = "h_trace h @ [x]"]) (simp_all add: emit_def gauge_def quiet_def published_def)

lemma notifySendDropped_sent:
  assumes "drop_hook_passive e"
  shows "sent (h_mem h) h (notifySendDropped e c d h)"
  by (rule sentI [where t = "h_trace (notifySendDropped e c d h)"])
    (use notifySendDropped_passive [OF assms, of c d h] in simp_all)

lemma hubSend_sent:
  "hubSend c item h = Some h' \<Longrightarrow>
     sent ((h_mem h)(c := (h_mem h c)\<lparr>c_send := c_send (h_mem h c) @ [item]\<rparr>)) h h' \<and>
     gauge drop_delta h' = gauge drop_delta h"
  by (auto simp: hubSend_def chanSend_def gauge_def published_def split: if_splits intro!: sentI [where t = "h_trace h"])

lemma hubSend_None: "hubSend c item h = None \<longleftrightarrow> c_sendCap (h_mem h c) \<le> length (c_send (h_mem h c))"
  by (auto simp: hubSend_def chanSend_def)

text \<open>When the buffer is full, one turn of the evict loop is enough.\<close>

lemma evictLoop_full:
  assumes "drop_hook_passive e" and ok: "queue_ok (h_mem h c)" and full: "hubSend c item h = None"
  shows "\<exists>h'. evictLoop e c item (Suc n) h = (True, h') \<and>
    sent ((h_mem h)(c := (h_mem h c)\<lparr>c_send := tl (c_send (h_mem h c)) @ [item]\<rparr>)) h h' \<and>
    gauge drop_delta h' = gauge drop_delta h + 1"
proof -
  let ?cl = "h_mem h c"
  have len: "length (c_send ?cl) = c_sendCap ?cl" "0 < c_sendCap ?cl"
    using ok full by (auto simp: queue_ok_def hubSend_None)
  then obtain x q where q: "c_send ?cl = x # q" by (cases "c_send ?cl") auto
  let ?h1 = "h\<lparr>h_mem := (h_mem h)(c := ?cl\<lparr>c_send := q\<rparr>)\<rparr>"
  let ?h2 = "notifySendDropped e c (si_data x) ?h1"
  have recv: "hubRecv c h = Some (x, ?h1)" using q by (simp add: hubRecv_def chanRecv_def)
  have s1: "sent (h_mem ?h1) h ?h1" by (rule sentI [where t = "h_trace h"]) (simp_all add: gauge_def published_def)
  have s2: "sent (h_mem ?h1) ?h1 ?h2" by (rule notifySendDropped_sent [OF assms(1)])
  have g2: "gauge drop_delta ?h2 = gauge drop_delta h + 1"
    using notifySendDropped_passive(2) [OF assms(1)] by (simp add: gauge_def)
  have m2: "h_mem ?h2 c = ?cl\<lparr>c_send := q\<rparr>" using sentD(1) [OF s2] by simp
  then have "hubSend c item ?h2 \<noteq> None" using len q by (simp add: hubSend_None)
  then obtain h3 where h3: "hubSend c item ?h2 = Some h3" by auto
  have "sent ((h_mem h)(c := ?cl\<lparr>c_send := q @ [item]\<rparr>)) h h3"
    using sent_trans [OF sent_trans [OF s1 s2] conjunct1 [OF hubSend_sent [OF h3]]] m2 sentD(1) [OF s2] by simp
  then show ?thesis
    using recv h3 q g2 hubSend_sent [OF h3] by (simp add: Let_def)
qed

lemma trySendErr_spec:
  assumes "drop_hook_passive e" and "queue_ok (h_mem h c)" and "trySendErr e c item h = (ok, h')"
  shows "ok = offerOk (h_dropPolicy h) (h_mem h c)"
    and "sent ((h_mem h)(c := offerItem (h_dropPolicy h) item (h_mem h c))) h h'"
    and "gauge drop_delta h' = gauge drop_delta h + drops (h_dropPolicy h) (h_mem h c)"
proof -
  let ?cl = "h_mem h c"
  have "ok = offerOk (h_dropPolicy h) ?cl \<and> sent ((h_mem h)(c := offerItem (h_dropPolicy h) item ?cl)) h h' \<and>
    gauge drop_delta h' = gauge drop_delta h + drops (h_dropPolicy h) ?cl"
  proof (cases "c_closed ?cl")
    case True
    then show ?thesis using assms(3) sent_refl [of h]
      by (auto simp: trySendErr_def offerOk_def offerItem_def drops_def)
  next
    case open': False
    show ?thesis
    proof (cases "hubSend c item h")
      case (Some h1)
      then have "length (c_send ?cl) < c_sendCap ?cl" using hubSend_None [of c item h] by simp
      then show ?thesis using open' assms(3) hubSend_sent [OF Some] Some
        by (auto simp: trySendErr_def offerOk_def offerItem_def drops_def)
    next
      case None
      then have full: "\<not> length (c_send ?cl) < c_sendCap ?cl" by (simp add: hubSend_None)
      show ?thesis
      proof (cases "h_dropPolicy h")
        case DropNewest
        then show ?thesis
          using open' full None assms(3) notifySendDropped_sent [OF assms(1)] notifySendDropped_passive(2) [OF assms(1)]
          by (auto simp: trySendErr_def offerOk_def offerItem_def drops_def)
      next
        case DropOldest
        obtain h1 where "evictLoop e c item 2 h = (True, h1)"
          "sent ((h_mem h)(c := ?cl\<lparr>c_send := tl (c_send ?cl) @ [item]\<rparr>)) h h1"
          "gauge drop_delta h1 = gauge drop_delta h + 1"
          using evictLoop_full [OF assms(1,2) None, of 1] by (auto simp: numeral_2_eq_2)
        then show ?thesis
          using DropOldest open' full None assms(3)
          by (auto simp: trySendErr_def trySendDropOldest_def offerOk_def offerItem_def drops_def)
      qed
    qed
  qed
  then show "ok = offerOk (h_dropPolicy h) ?cl" "sent ((h_mem h)(c := offerItem (h_dropPolicy h) item ?cl)) h h'"
    "gauge drop_delta h' = gauge drop_delta h + drops (h_dropPolicy h) ?cl" by simp_all
qed

lemma trySend_spec:
  assumes "drop_hook_passive e" and "queue_ok (h_mem h c)"
  shows "sent ((h_mem h)(c := offerItem (h_dropPolicy h) item (h_mem h c))) h (trySend e c item h)"
proof -
  obtain ok h' where r: "trySendErr e c item h = (ok, h')" by force
  with trySendErr_spec(2) [OF assms r] show ?thesis by (simp add: trySend_def)
qed

subsection \<open>Properties\<close>



lemma SendMessage_trySend:
  assumes "\<not> c_closed (h_mem h c)" and "trySendErr e c \<lparr>si_msgType = k, si_data = d\<rparr> h = (ok, h1)"
  shows "SendMessage e c k d h = (if ok then None else Some ErrSendBufferFull, h1)"
  using assms by (simp add: SendMessage_def split: bool.split)

text \<open>C29: Sending to a client, on every branch. A closed client refuses with
  \<open>ErrConnectionClosed\<close>; with room in the buffer the message is appended; with a full buffer
  \<open>DropOldest\<close> drops exactly the oldest message, appends the new one and reports success, and
  \<open>DropNewest\<close> leaves the buffer alone and returns \<open>ErrSendBufferFull\<close>. Each dropped message is
  counted once, and no other client is touched.\<close>

theorem SendMessage_outcome:
  assumes "drop_hook_passive e" and "queue_ok (h_mem h c)" and "SendMessage e c k d h = (res, h')"
  shows "let cl = h_mem h c; item = \<lparr>si_msgType = k, si_data = d\<rparr> in
    (\<forall>x. x \<noteq> c \<longrightarrow> h_mem h' x = h_mem h x) \<and>
    (if c_closed cl then res = Some ErrConnectionClosed \<and> h' = h
     else if length (c_send cl) < c_sendCap cl
     then res = None \<and> c_send (h_mem h' c) = c_send cl @ [item] \<and> gauge drop_delta h' = gauge drop_delta h
     else case h_dropPolicy h of
            DropOldest \<Rightarrow> res = None \<and> c_send (h_mem h' c) = tl (c_send cl) @ [item] \<and>
              gauge drop_delta h' = gauge drop_delta h + 1
          | DropNewest \<Rightarrow> res = Some ErrSendBufferFull \<and> c_send (h_mem h' c) = c_send cl \<and>
              gauge drop_delta h' = gauge drop_delta h + 1)"
proof (cases "c_closed (h_mem h c)")
  case True
  with assms(3) show ?thesis by (simp add: SendMessage_def)
next
  case False
  obtain ok h1 where t: "trySendErr e c \<lparr>si_msgType = k, si_data = d\<rparr> h = (ok, h1)" by force
  note s = trySendErr_spec [OF assms(1,2) t]
  have r: "h' = h1" "res = (if ok then None else Some ErrSendBufferFull)"
    using SendMessage_trySend [OF False t] assms(3) by auto
  from False s show ?thesis
    by (simp add: r sentD(1) [OF s(2)] offerOk_def offerItem_def drops_def Let_def split: DropPolicy.split)
qed

theorem SendMessage_outcome_witness:
  "fst (SendMessage exampleEnv 0 TextMessage ''hi'' exampleHub) = None \<and>
   c_send (h_mem (snd (SendMessage exampleEnv 0 TextMessage ''hi'' exampleHub)) 0) =
     [\<lparr>si_msgType = TextMessage, si_data = ''hi''\<rparr>]"
proof -
  obtain res h' where r: "SendMessage exampleEnv 0 TextMessage ''hi'' exampleHub = (res, h')" by force
  have "drop_hook_passive exampleEnv" by (simp add: drop_hook_passive_def exampleEnv_def noHooks_def)
  with SendMessage_outcome [OF _ _ r] r show ?thesis by (simp add: queue_ok_def Let_def)
qed

end
