(* ===== verification/Ws_Broadcast.thy ===== *)
theory Ws_Broadcast
  imports Ws_Send
begin

section \<open>Broadcasting (hub.go, workerpool.go: parallelSend, broadcast and the public senders)\<close>

text \<open>
  Every way to send to several clients: the sequential loops, the batches dispatched to the
  worker pool, the exclusion lists with their two representations, and the public methods
  with their publication to the adapter.

  \<open>parallelSend\<close> splits its clients into batches; \<open>e_submit\<close> says which batches the pool
  accepts, and the sends of the workers and of the fallback loop take effect in the order
  \<open>e_sched\<close>. The theorems hold for every such order, because the clients are distinct: the
  result is the one of the sequential loop, whatever the mode.

  \<open>delivers\<close> is the specification: each target is offered the item once, nothing else in the
  hub changes but the trace.
\<close>

subsection \<open>Loops over clients\<close>

definition sendEach :: "env \<Rightarrow> sendItem \<Rightarrow> cref list \<Rightarrow> hub \<Rightarrow> hub" where
  "sendEach e item cs h = fold (\<lambda>c. trySend e c item) cs h"

text \<open>\<open>workerPool.submit\<close>: refused once the pool is stopped, or when \<open>shutdown\<close> closes the
  channel between the check and the send.\<close>

definition submit :: "env \<Rightarrow> nat \<Rightarrow> hub \<Rightarrow> bool" where
  "submit e i h = (\<not> h_poolStopped h \<and> e_submit e i)"

text \<open>The tasks of the \<open>for i := range numBatches\<close> loop: the batches the pool accepts, and the
  slice that is left for the inline loop when a submission is refused.\<close>

definition splitTasks :: "env \<Rightarrow> nat \<Rightarrow> cref list \<Rightarrow> hub \<Rightarrow> cref list list \<times> cref list" where
  "splitTasks e b cs h =
     (let numBatches = (length cs + b - 1) div b;
          k = length (takeWhile (\<lambda>i. submit e i h) [0..<numBatches])
      in (map (batch b cs) [0..<k], if k < numBatches then drop (k * b) cs else []))"

definition parallelSend :: "env \<Rightarrow> cref list \<Rightarrow> sendItem \<Rightarrow> hub \<Rightarrow> hub" where
  "parallelSend e cs item h =
     (if cs = [] then h
      else if int (length cs) \<le> h_parallelBatchSize h then sendEach e item cs h
      else
        let h1 = ensurePool h in
        case splitTasks e (nat (h_parallelBatchSize h)) cs h1 of
          (tasks, inline) \<Rightarrow> sendEach e item (e_sched e (tasks @ [inline])) h1)"

definition recordDuration :: "env \<Rightarrow> hub \<Rightarrow> hub" where
  "recordDuration e h = emit (Metric (RecordBroadcastDuration (e_elapsed e))) h"

definition broadcast :: "env \<Rightarrow> sendItem \<Rightarrow> hub \<Rightarrow> hub" where
  "broadcast e item h =
     (let snap = loadSnapshot h;
          h1 = (if h_useParallel h then parallelSend e (s_slice snap) item h
                else sendEach e item (s_slice snap) h)
      in recordDuration e h1)"

subsection \<open>Exclusion lists\<close>

text \<open>\<open>slices.Contains\<close>, a linear scan.\<close>

fun contains :: "'a list \<Rightarrow> 'a \<Rightarrow> bool" where
  "contains [] x = False"
| "contains (y # ys) x = (if y = x then True else contains ys x)"

lemma contains_iff [simp]: "contains xs x \<longleftrightarrow> x \<in> set xs"
  by (induction xs) auto

definition buildExcludeSet :: "string list \<Rightarrow> string set option" where
  "buildExcludeSet exceptIDs = (if length exceptIDs \<le> 4 then None else Some (set exceptIDs))"

definition isExcludedByID :: "string \<Rightarrow> string list \<Rightarrow> string set option \<Rightarrow> bool" where
  "isExcludedByID i exceptIDs excludeSet =
     (case excludeSet of Some S \<Rightarrow> i \<in> S | None \<Rightarrow> contains exceptIDs i)"

definition buildClientExcludeSet :: "cref list \<Rightarrow> cref set option" where
  "buildClientExcludeSet except = (if length except \<le> 4 then None else Some (set except))"

definition isExcludedClient :: "cref \<Rightarrow> cref list \<Rightarrow> cref set option \<Rightarrow> bool" where
  "isExcludedClient c except excludeSet =
     (case excludeSet of Some S \<Rightarrow> c \<in> S | None \<Rightarrow> contains except c)"

text \<open>\<open>for _, client := range clients { if !excluded { h.trySend(client, item) } }\<close>\<close>

fun sendUnless :: "env \<Rightarrow> (cref \<Rightarrow> bool) \<Rightarrow> sendItem \<Rightarrow> cref list \<Rightarrow> hub \<Rightarrow> hub" where
  "sendUnless e excluded item [] h = h"
| "sendUnless e excluded item (c # cs) h =
     sendUnless e excluded item cs (if excluded c then h else trySend e c item h)"

definition broadcastExceptByIDs :: "env \<Rightarrow> sendItem \<Rightarrow> string list \<Rightarrow> hub \<Rightarrow> hub" where
  "broadcastExceptByIDs e item exceptIDs h =
     (if exceptIDs = [] then broadcast e item h
      else
        let snap = loadSnapshot h; excludeSet = buildExcludeSet exceptIDs
        in sendUnless e (\<lambda>c. isExcludedByID (c_ID (h_mem h c)) exceptIDs excludeSet) item (s_slice snap) h)"

definition broadcastExceptClients ::
  "env \<Rightarrow> cref list \<Rightarrow> sendItem \<Rightarrow> cref list \<Rightarrow> cref set option \<Rightarrow> hub \<Rightarrow> hub" where
  "broadcastExceptClients e clients item except excludeSet h =
     (let h1 = (if h_useParallel h
                then parallelSend e (filter (\<lambda>c. \<not> isExcludedClient c except excludeSet) clients) item h
                else sendUnless e (\<lambda>c. isExcludedClient c except excludeSet) item clients h)
      in recordDuration e h1)"

subsection \<open>Rooms, users, single clients\<close>

definition broadcastToRoomClients :: "env \<Rightarrow> rref \<Rightarrow> sendItem \<Rightarrow> hub \<Rightarrow> hub" where
  "broadcastToRoomClients e r item h =
     (let clients = loadRoomSnapshot (h_rmem h r);
          h1 = (if h_useParallel h then parallelSend e clients item h else sendEach e item clients h)
      in recordDuration e h1)"

definition broadcastToRoomLocal :: "env \<Rightarrow> string \<Rightarrow> sendItem \<Rightarrow> hub \<Rightarrow> hub" where
  "broadcastToRoomLocal e n item h =
     (case h_rooms h n of None \<Rightarrow> h | Some r \<Rightarrow> broadcastToRoomClients e r item h)"

definition broadcastToRoomExceptByIDs :: "env \<Rightarrow> string \<Rightarrow> sendItem \<Rightarrow> string list \<Rightarrow> hub \<Rightarrow> hub" where
  "broadcastToRoomExceptByIDs e n item exceptIDs h =
     (if exceptIDs = [] then broadcastToRoomLocal e n item h
      else case h_rooms h n of
             None \<Rightarrow> h
           | Some r \<Rightarrow>
               let excludeSet = buildExcludeSet exceptIDs
               in sendUnless e (\<lambda>c. isExcludedByID (c_ID (h_mem h c)) exceptIDs excludeSet) item
                    (loadRoomSnapshot (h_rmem h r)) h)"

definition sendToUserLocal :: "env \<Rightarrow> string \<Rightarrow> sendItem \<Rightarrow> hub \<Rightarrow> hub" where
  "sendToUserLocal e userID item h = sendEach e item (GetClientsByUserID e userID h) h"

definition sendToClientLocal :: "env \<Rightarrow> string \<Rightarrow> bytes \<Rightarrow> int \<Rightarrow> hub \<Rightarrow> wsError option \<times> hub" where
  "sendToClientLocal e clientID data msgType h = (case GetClient clientID h of
       None \<Rightarrow> (Some ErrClientNotFound, h)
     | Some c \<Rightarrow> SendMessage e c msgType data h)"

subsection \<open>Publication\<close>

definition publishToAdapter :: "env \<Rightarrow> AdapterMessage \<Rightarrow> hub \<Rightarrow> hub" where
  "publishToAdapter e msg h =
     (if \<not> h_adapter h then h
      else
        let msg = msg\<lparr>am_NodeID := h_nodeID h\<rparr>;
            h1 = emit (Publish msg) h
        in case e_publish e msg of
             None \<Rightarrow> h1
           | Some _ \<Rightarrow> emit (Metric (IncrementErrors ''adapter_publish'')) (emit (Log Error ''adapter publish failed'') h1))"

subsection \<open>Public methods\<close>

definition broadcastWithType :: "env \<Rightarrow> bytes \<Rightarrow> int \<Rightarrow> hub \<Rightarrow> hub" where
  "broadcastWithType e data msgType h =
     publishToAdapter e (zeroAdapterMessage\<lparr>am_Type := AdapterBroadcast, am_MsgType := msgType, am_Data := data\<rparr>)
       (broadcast e \<lparr>si_msgType = msgType, si_data = data\<rparr> h)"

definition Broadcast :: "env \<Rightarrow> bytes \<Rightarrow> hub \<Rightarrow> hub" where
  "Broadcast e data h = broadcastWithType e data TextMessage h"

definition BroadcastBinary :: "env \<Rightarrow> bytes \<Rightarrow> hub \<Rightarrow> hub" where
  "BroadcastBinary e data h = broadcastWithType e data BinaryMessage h"

definition BroadcastText :: "env \<Rightarrow> string \<Rightarrow> hub \<Rightarrow> hub" where
  "BroadcastText e text h = Broadcast e text h"

definition BroadcastJSON :: "env \<Rightarrow> wsError + bytes \<Rightarrow> hub \<Rightarrow> wsError option \<times> hub" where
  "BroadcastJSON e enc h =
     (case enc of Inl err \<Rightarrow> (Some err, h) | Inr data \<Rightarrow> (None, Broadcast e data h))"

definition BroadcastRawJSON :: "env \<Rightarrow> bytes \<Rightarrow> hub \<Rightarrow> hub" where
  "BroadcastRawJSON e data h = Broadcast e data h"

definition broadcastExceptWithType :: "env \<Rightarrow> bytes \<Rightarrow> int \<Rightarrow> cref list \<Rightarrow> hub \<Rightarrow> hub" where
  "broadcastExceptWithType e data msgType except h =
     (let snap = loadSnapshot h;
          item = \<lparr>si_msgType = msgType, si_data = data\<rparr>;
          excludeSet = buildClientExcludeSet except;
          h1 = broadcastExceptClients e (s_slice snap) item except excludeSet h
      in if except \<noteq> []
         then publishToAdapter e (zeroAdapterMessage\<lparr>am_Type := AdapterBroadcastExcept, am_MsgType := msgType,
                am_Data := data, am_ExceptClientIDs := map (\<lambda>c. c_ID (h_mem h1 c)) except\<rparr>) h1
         else publishToAdapter e (zeroAdapterMessage\<lparr>am_Type := AdapterBroadcast, am_MsgType := msgType,
                am_Data := data\<rparr>) h1)"

definition BroadcastExcept :: "env \<Rightarrow> bytes \<Rightarrow> cref list \<Rightarrow> hub \<Rightarrow> hub" where
  "BroadcastExcept e data except h = broadcastExceptWithType e data TextMessage except h"

definition BroadcastBinaryExcept :: "env \<Rightarrow> bytes \<Rightarrow> cref list \<Rightarrow> hub \<Rightarrow> hub" where
  "BroadcastBinaryExcept e data except h = broadcastExceptWithType e data BinaryMessage except h"

definition sendToUserWithType :: "env \<Rightarrow> string \<Rightarrow> bytes \<Rightarrow> int \<Rightarrow> hub \<Rightarrow> hub" where
  "sendToUserWithType e userID data msgType h =
     (let clients = GetClientsByUserID e userID h;
          h1 = sendEach e \<lparr>si_msgType = msgType, si_data = data\<rparr> clients h
      in publishToAdapter e (zeroAdapterMessage\<lparr>am_Type := AdapterUser, am_MsgType := msgType,
           am_Data := data, am_UserID := userID\<rparr>) h1)"

definition SendToUser :: "env \<Rightarrow> string \<Rightarrow> bytes \<Rightarrow> hub \<Rightarrow> hub" where
  "SendToUser e userID data h = sendToUserWithType e userID data TextMessage h"

definition SendBinaryToUser :: "env \<Rightarrow> string \<Rightarrow> bytes \<Rightarrow> hub \<Rightarrow> hub" where
  "SendBinaryToUser e userID data h = sendToUserWithType e userID data BinaryMessage h"

definition sendToClientWithType :: "env \<Rightarrow> string \<Rightarrow> bytes \<Rightarrow> int \<Rightarrow> hub \<Rightarrow> wsError option \<times> hub" where
  "sendToClientWithType e clientID data msgType h = (case GetClient clientID h of
       Some c \<Rightarrow> SendMessage e c msgType data h
     | None \<Rightarrow>
         if h_adapter h
         then (None, publishToAdapter e (zeroAdapterMessage\<lparr>am_Type := AdapterClient, am_MsgType := msgType,
                 am_Data := data, am_ClientID := clientID\<rparr>) h)
         else (Some ErrClientNotFound, h))"

definition SendToClient :: "env \<Rightarrow> string \<Rightarrow> bytes \<Rightarrow> hub \<Rightarrow> wsError option \<times> hub" where
  "SendToClient e clientID data h = sendToClientWithType e clientID data TextMessage h"

definition SendBinaryToClient :: "env \<Rightarrow> string \<Rightarrow> bytes \<Rightarrow> hub \<Rightarrow> wsError option \<times> hub" where
  "SendBinaryToClient e clientID data h = sendToClientWithType e clientID data BinaryMessage h"

definition broadcastToRoomWithType :: "env \<Rightarrow> string \<Rightarrow> bytes \<Rightarrow> int \<Rightarrow> hub \<Rightarrow> wsError option \<times> hub" where
  "broadcastToRoomWithType e n data msgType h =
     (if n = '''' then (Some ErrEmptyRoomName, h)
      else
        let item = \<lparr>si_msgType = msgType, si_data = data\<rparr>;
            h1 = (case h_rooms h n of None \<Rightarrow> h | Some r \<Rightarrow> broadcastToRoomClients e r item h);
            h2 = publishToAdapter e (zeroAdapterMessage\<lparr>am_Type := AdapterRoom, am_MsgType := msgType,
                   am_Data := data, am_Room := n\<rparr>) h1
        in (if h_rooms h n = None \<and> \<not> h_adapter h then Some ErrRoomNotFound else None, h2))"

definition BroadcastToRoom :: "env \<Rightarrow> string \<Rightarrow> bytes \<Rightarrow> hub \<Rightarrow> wsError option \<times> hub" where
  "BroadcastToRoom e n data h = broadcastToRoomWithType e n data TextMessage h"

definition BroadcastBinaryToRoom :: "env \<Rightarrow> string \<Rightarrow> bytes \<Rightarrow> hub \<Rightarrow> wsError option \<times> hub" where
  "BroadcastBinaryToRoom e n data h = broadcastToRoomWithType e n data BinaryMessage h"

definition broadcastToRoomExceptWithType ::
  "env \<Rightarrow> string \<Rightarrow> bytes \<Rightarrow> int \<Rightarrow> cref list \<Rightarrow> hub \<Rightarrow> wsError option \<times> hub" where
  "broadcastToRoomExceptWithType e n data msgType except h =
     (if n = '''' then (Some ErrEmptyRoomName, h)
      else
        let item = \<lparr>si_msgType = msgType, si_data = data\<rparr>;
            h1 = (case h_rooms h n of
                    None \<Rightarrow> h
                  | Some r \<Rightarrow> broadcastExceptClients e (loadRoomSnapshot (h_rmem h r)) item except
                                (buildClientExcludeSet except) h);
            h2 = (if except \<noteq> []
                  then publishToAdapter e (zeroAdapterMessage\<lparr>am_Type := AdapterRoomExcept, am_MsgType := msgType,
                         am_Data := data, am_Room := n, am_ExceptClientIDs := map (\<lambda>c. c_ID (h_mem h1 c)) except\<rparr>) h1
                  else publishToAdapter e (zeroAdapterMessage\<lparr>am_Type := AdapterRoom, am_MsgType := msgType,
                         am_Data := data, am_Room := n\<rparr>) h1)
        in (if h_rooms h n = None \<and> \<not> h_adapter h then Some ErrRoomNotFound else None, h2))"

definition BroadcastToRoomExcept :: "env \<Rightarrow> string \<Rightarrow> bytes \<Rightarrow> cref list \<Rightarrow> hub \<Rightarrow> wsError option \<times> hub" where
  "BroadcastToRoomExcept e n data except h = broadcastToRoomExceptWithType e n data TextMessage except h"

definition BroadcastBinaryToRoomExcept :: "env \<Rightarrow> string \<Rightarrow> bytes \<Rightarrow> cref list \<Rightarrow> hub \<Rightarrow> wsError option \<times> hub" where
  "BroadcastBinaryToRoomExcept e n data except h = broadcastToRoomExceptWithType e n data BinaryMessage except h"

subsection \<open>What a broadcast does\<close>

text \<open>The environment of the delivery theorems: \<open>range\<close> visits each key once, the workers
  perform every send once, and \<open>OnSendDropped\<close> only leaves traces.\<close>

definition send_env :: "env \<Rightarrow> bool" where
  "send_env e \<longleftrightarrow> ranges_ok e \<and> sched_ok e \<and> drop_hook_passive e"

definition queues_ok :: "hub \<Rightarrow> bool" where
  "queues_ok h \<longleftrightarrow> (\<forall>c. queue_ok (h_mem h c))"

definition offered :: "cref set \<Rightarrow> sendItem \<Rightarrow> hub \<Rightarrow> cref \<Rightarrow> client" where
  "offered S item h c = (if c \<in> S then offerItem (h_dropPolicy h) item (h_mem h c) else h_mem h c)"

definition delivers :: "cref set \<Rightarrow> sendItem \<Rightarrow> hub \<Rightarrow> hub \<Rightarrow> bool" where
  "delivers S item h h' \<longleftrightarrow> sent (offered S item h) h h'"

lemma offered_frame [simp]:
  "c_ID (offered S item h c) = c_ID (h_mem h c)" "c_userID (offered S item h c) = c_userID (h_mem h c)"
  "c_rooms (offered S item h c) = c_rooms (h_mem h c)"
  by (simp_all add: offered_def)

lemma delivers_registry: "delivers S item h h' \<Longrightarrow> same_registry h h'"
  unfolding delivers_def by (erule sent_registry) (simp add: offered_def)

lemma offered_none [simp]: "offered {} item h = h_mem h"
  by (simp add: offered_def fun_eq_iff)

lemma delivers_none: "delivers {} item h h"
  using sent_refl [of h] by (simp add: delivers_def)

lemma delivers_traced: "delivers S item h h1 \<Longrightarrow> quiet x \<Longrightarrow> pub_part x = [] \<Longrightarrow> delivers S item h (emit x h1)"
  unfolding delivers_def using sent_trans [of _ h h1] emit_sent [of x h1] sentD(1) [of _ h h1] by metis

lemma delivers_queues_ok: "delivers S item h h' \<Longrightarrow> queues_ok h \<Longrightarrow> queues_ok h'"
  using sentD(1) [of "offered S item h" h h'] by (simp add: delivers_def queues_ok_def offered_def)

lemma delivers_insert:
  assumes "delivers S item h h1" and "sent ((h_mem h1)(c := offerItem (h_dropPolicy h1) item (h_mem h1 c))) h1 h2"
    and "c \<notin> S"
  shows "delivers (insert c S) item h h2"
proof -
  have s: "sent (offered S item h) h h1" using assms(1) by (simp add: delivers_def)
  have "(h_mem h1)(c := offerItem (h_dropPolicy h1) item (h_mem h1 c)) = offered (insert c S) item h"
    using assms(3) by (auto simp: sentD(1,2) [OF s] offered_def)
  with assms(2) have "sent (offered (insert c S) item h) h1 h2" by simp
  then show ?thesis unfolding delivers_def by (rule sent_trans [OF s])
qed

lemma sendEach_from:
  assumes "drop_hook_passive e"
  shows "delivers S item h h1 \<Longrightarrow> queues_ok h1 \<Longrightarrow> distinct cs \<Longrightarrow> S \<inter> set cs = {} \<Longrightarrow>
    delivers (S \<union> set cs) item h (sendEach e item cs h1)"
proof (induction cs arbitrary: S h1)
  case Nil
  then show ?case by (simp add: sendEach_def)
next
  case (Cons c cs)
  let ?h2 = "trySend e c item h1"
  have s: "sent ((h_mem h1)(c := offerItem (h_dropPolicy h1) item (h_mem h1 c))) h1 ?h2"
    using trySend_spec [OF assms] Cons.prems(2) by (simp add: queues_ok_def)
  have d: "delivers (insert c S) item h ?h2"
    using Cons.prems by (intro delivers_insert [OF Cons.prems(1) s]) auto
  have "queues_ok ?h2" using Cons.prems(2) sentD(1) [OF s] by (simp add: queues_ok_def)
  then have "delivers (insert c S \<union> set cs) item h (sendEach e item cs ?h2)"
    using Cons.prems by (intro Cons.IH [OF d]) auto
  then show ?case by (simp add: sendEach_def)
qed

lemma sendEach_delivers:
  assumes "send_env e" and "queues_ok h" and "distinct cs"
  shows "delivers (set cs) item h (sendEach e item cs h)"
  using sendEach_from [of e "{}" item h h cs] assms delivers_none by (simp add: send_env_def)

lemma sendUnless_filter: "sendUnless e P item cs h = sendEach e item (filter (\<lambda>c. \<not> P c) cs) h"
  by (induction cs arbitrary: h) (simp_all add: sendEach_def)

lemma splitTasks_concat:
  assumes "0 < b" and "splitTasks e b cs h = (tasks, inline)"
  shows "concat tasks @ inline = cs"
proof -
  let ?n = "(length cs + b - 1) div b"
  let ?k = "length (takeWhile (\<lambda>i. submit e i h) [0..<?n])"
  have k: "?k \<le> ?n" using length_takeWhile_le [of _ "[0..<?n]"] by simp
  have t: "tasks = map (batch b cs) [0..<?k]" "inline = (if ?k < ?n then drop (?k * b) cs else [])"
    using assms(2) by (auto simp: splitTasks_def Let_def)
  show ?thesis
  proof (cases "?k < ?n")
    case True
    then show ?thesis using concat_batches_drop [of b cs ?k] by (simp add: t)
  next
    case False
    then have "concat (map (batch b cs) [0..<?k]) = cs"
      using k ceil_div_covers [OF assms(1), of "length cs"] by (intro concat_batches) simp
    then show ?thesis using False by (simp add: t)
  qed
qed

lemma ensurePool_sent: "sent (h_mem h) h (ensurePool h)"
  unfolding sent_def ensurePool_def
  by (auto simp: gauge_def published_def intro!: exI [where x = "h_trace h"] exI [where x = True])

text \<open>Parallel and sequential mode have the same effect, for every batch size, every schedule
  of the workers and every point at which the pool stops taking tasks.\<close>

lemma parallelSend_delivers:
  assumes "send_env e" and "queues_ok h" and "distinct cs" and "0 < h_parallelBatchSize h"
  shows "delivers (set cs) item h (parallelSend e cs item h)"
proof (cases "cs = [] \<or> int (length cs) \<le> h_parallelBatchSize h")
  case True
  then show ?thesis
    using delivers_none sendEach_delivers [OF assms(1-3)] by (auto simp: parallelSend_def)
next
  case False
  let ?h1 = "ensurePool h"
  obtain tasks inline where t: "splitTasks e (nat (h_parallelBatchSize h)) cs ?h1 = (tasks, inline)" by force
  then have c: "concat (tasks @ [inline]) = cs" using splitTasks_concat [OF _ t] assms(4) by simp
  let ?order = "e_sched e (tasks @ [inline])"
  have "mset ?order = mset cs" using assms(1) c by (simp add: send_env_def sched_ok_def del: concat_append)
  then have o: "set ?order = set cs" "distinct ?order" using assms(3) by (metis mset_eq_setD, metis mset_eq_imp_distinct_iff)
  have "delivers {} item h ?h1" using ensurePool_sent [of h] by (simp add: delivers_def)
  moreover have "queues_ok ?h1" using assms(2) by (simp add: queues_ok_def ensurePool_def)
  ultimately have "delivers ({} \<union> set ?order) item h (sendEach e item ?order ?h1)"
    using assms(1) o by (intro sendEach_from) (simp_all add: send_env_def)
  then show ?thesis using False t o(1) by (simp add: parallelSend_def Let_def)
qed

subsection \<open>Who receives what\<close>

text \<open>The hub between two turns of the Run loop.\<close>

definition hub_ok :: "hub \<Rightarrow> bool" where
  "hub_ok h \<longleftrightarrow> registry_inv h \<and> snapshot_ok h \<and> queues_ok h \<and> 0 < h_parallelBatchSize h"

lemma hub_okD:
  assumes "hub_ok h"
  shows "registry_inv h" "queues_ok h" "0 < h_parallelBatchSize h"
    "set (s_slice (loadSnapshot h)) = h_clients h" "distinct (s_slice (loadSnapshot h))"
  using assms by (simp_all add: hub_ok_def snapshot_ok_def)

lemma recordDuration_delivers: "delivers S item h h1 \<Longrightarrow> delivers S item h (recordDuration e h1)"
  by (simp add: recordDuration_def delivers_traced)

lemma isExcludedByID_iff [simp]: "isExcludedByID i ids (buildExcludeSet ids) \<longleftrightarrow> i \<in> set ids"
  by (simp add: isExcludedByID_def buildExcludeSet_def)

lemma isExcludedClient_iff [simp]: "isExcludedClient c cs (buildClientExcludeSet cs) \<longleftrightarrow> c \<in> set cs"
  by (simp add: isExcludedClient_def buildClientExcludeSet_def)

lemma roomSnapshot:
  assumes "registry_inv h" and "h_rooms h n = Some r"
  shows "set (loadRoomSnapshot (h_rmem h r)) = members h n" "distinct (loadRoomSnapshot (h_rmem h r))"
proof -
  have "room_ok (h_rmem h r)" using assms by (simp add: registry_inv_def rooms_struct_def)
  then obtain s where "r_snapshot (h_rmem h r) = Some s" "set s = r_clients (h_rmem h r)" "distinct s"
    by (auto simp: room_ok_def)
  then show "set (loadRoomSnapshot (h_rmem h r)) = members h n" "distinct (loadRoomSnapshot (h_rmem h r))"
    using assms(2) by (simp_all add: loadRoomSnapshot_def members_def)
qed

lemma userSnapshot:
  assumes "registry_inv h" and "send_env e"
  shows "set (GetClientsByUserID e u h) = users h u" "distinct (GetClientsByUserID e u h)"
  using ranges_okD(1) [of e "users h u"] users_finite [of h u] assms
  by (simp_all add: registry_inv_def send_env_def GetClientsByUserID_def)

lemma dispatch_delivers:
  assumes "send_env e" and "hub_ok h" and "distinct cs"
  shows "delivers (set cs) item h
    (if h_useParallel h then parallelSend e cs item h else sendEach e item cs h)"
  using sendEach_delivers [OF assms(1) hub_okD(2) [OF assms(2)] assms(3)]
    parallelSend_delivers [OF assms(1) hub_okD(2) [OF assms(2)] assms(3) hub_okD(3) [OF assms(2)]]
  by simp

lemma broadcast_delivers:
  assumes "send_env e" and "hub_ok h"
  shows "delivers (h_clients h) item h (broadcast e item h)"
  using recordDuration_delivers [OF dispatch_delivers [OF assms hub_okD(5) [OF assms(2)]]] hub_okD(4) [OF assms(2)]
  by (simp add: broadcast_def Let_def)

lemma broadcastExceptByIDs_delivers:
  assumes "send_env e" and "hub_ok h"
  shows "delivers {c \<in> h_clients h. c_ID (h_mem h c) \<notin> set ids} item h (broadcastExceptByIDs e item ids h)"
proof (cases "ids = []")
  case True
  then show ?thesis using broadcast_delivers [OF assms] by (simp add: broadcastExceptByIDs_def)
next
  case False
  let ?cs = "filter (\<lambda>c. c_ID (h_mem h c) \<notin> set ids) (s_slice (loadSnapshot h))"
  have "set ?cs = {c \<in> h_clients h. c_ID (h_mem h c) \<notin> set ids}" using hub_okD(4) [OF assms(2)] by auto
  then show ?thesis
    using sendEach_delivers [OF assms(1) hub_okD(2) [OF assms(2)], of ?cs item] hub_okD(5) [OF assms(2)] False
    by (simp add: broadcastExceptByIDs_def sendUnless_filter Let_def)
qed

lemma broadcastExceptClients_delivers:
  assumes "send_env e" and "hub_ok h" and "distinct cs"
  shows "delivers (set cs - set except) item h
    (broadcastExceptClients e cs item except (buildClientExcludeSet except) h)"
proof -
  let ?cs = "filter (\<lambda>c. c \<notin> set except) cs"
  have "set ?cs = set cs - set except" by auto
  then show ?thesis
    using recordDuration_delivers [OF dispatch_delivers [OF assms(1,2), of ?cs item], of e] assms(3)
    by (cases "h_useParallel h") (simp_all add: broadcastExceptClients_def sendUnless_filter Let_def)
qed

lemma broadcastToRoomClients_delivers:
  assumes "send_env e" and "hub_ok h" and "h_rooms h n = Some r"
  shows "delivers (members h n) item h (broadcastToRoomClients e r item h)"
  using recordDuration_delivers [OF dispatch_delivers [OF assms(1,2)
      roomSnapshot(2) [OF hub_okD(1) [OF assms(2)] assms(3)]]]
    roomSnapshot(1) [OF hub_okD(1) [OF assms(2)] assms(3)]
  by (simp add: broadcastToRoomClients_def Let_def)

lemma broadcastToRoomLocal_delivers:
  assumes "send_env e" and "hub_ok h"
  shows "delivers (members h n) item h (broadcastToRoomLocal e n item h)"
  using broadcastToRoomClients_delivers [OF assms] delivers_none members_None [of h n]
  by (cases "h_rooms h n") (simp_all add: broadcastToRoomLocal_def)

lemma broadcastToRoomExceptByIDs_delivers:
  assumes "send_env e" and "hub_ok h"
  shows "delivers {c \<in> members h n. c_ID (h_mem h c) \<notin> set ids} item h
    (broadcastToRoomExceptByIDs e n item ids h)"
proof (cases "ids = [] \<or> h_rooms h n = None")
  case True
  then show ?thesis
    using broadcastToRoomLocal_delivers [OF assms] delivers_none members_None [of h n]
    by (auto simp: broadcastToRoomExceptByIDs_def)
next
  case False
  then obtain r where r: "ids \<noteq> []" "h_rooms h n = Some r" by auto
  let ?cs = "filter (\<lambda>c. c_ID (h_mem h c) \<notin> set ids) (loadRoomSnapshot (h_rmem h r))"
  note snap = roomSnapshot [OF hub_okD(1) [OF assms(2)] r(2)]
  have "set ?cs = {c \<in> members h n. c_ID (h_mem h c) \<notin> set ids}" using snap(1) by auto
  then show ?thesis
    using sendEach_delivers [OF assms(1) hub_okD(2) [OF assms(2)], of ?cs item] snap(2) r
    by (simp add: broadcastToRoomExceptByIDs_def sendUnless_filter Let_def)
qed

lemma sendToUserLocal_delivers:
  assumes "send_env e" and "hub_ok h"
  shows "delivers (users h u) item h (sendToUserLocal e u item h)"
  using sendEach_delivers [OF assms(1) hub_okD(2) [OF assms(2)] userSnapshot(2) [OF hub_okD(1) [OF assms(2)] assms(1)]]
    userSnapshot(1) [OF hub_okD(1) [OF assms(2)] assms(1)]
  by (simp add: sendToUserLocal_def)

lemma SendMessage_delivers:
  assumes "send_env e" and "queue_ok (h_mem h c)" and "SendMessage e c k d h = (res, h')"
  shows "delivers {c} \<lparr>si_msgType = k, si_data = d\<rparr> h h'"
    and "res = (if c_closed (h_mem h c) then Some ErrConnectionClosed
                else if offerOk (h_dropPolicy h) (h_mem h c) then None else Some ErrSendBufferFull)"
proof -
  let ?item = "\<lparr>si_msgType = k, si_data = d\<rparr>"
  have p: "drop_hook_passive e" using assms(1) by (simp add: send_env_def)
  have upd: "(h_mem h)(c := offerItem (h_dropPolicy h) ?item (h_mem h c)) = offered {c} ?item h"
    by (auto simp: offered_def)
  have "delivers {c} ?item h h' \<and> res = (if c_closed (h_mem h c) then Some ErrConnectionClosed
                else if offerOk (h_dropPolicy h) (h_mem h c) then None else Some ErrSendBufferFull)"
  proof (cases "c_closed (h_mem h c)")
    case True
    then have "offered {c} ?item h = h_mem h" by (auto simp: offered_def offerItem_def)
    with True assms(3) sent_refl [of h] show ?thesis by (auto simp: SendMessage_def delivers_def)
  next
    case False
    obtain ok h1 where r: "trySendErr e c ?item h = (ok, h1)" by force
    with assms(3) False have "h' = h1" "res = (if ok then None else Some ErrSendBufferFull)"
      by (auto simp: SendMessage_def split: bool.splits)
    with trySendErr_spec(1,2) [OF p assms(2) r] False show ?thesis by (simp add: delivers_def upd)
  qed
  then show "delivers {c} ?item h h'" and "res = (if c_closed (h_mem h c) then Some ErrConnectionClosed
                else if offerOk (h_dropPolicy h) (h_mem h c) then None else Some ErrSendBufferFull)"
    by simp_all
qed

subsection \<open>Publication\<close>

lemma publishToAdapter_published:
  "published (publishToAdapter e msg h) =
     published h @ (if h_adapter h then [msg\<lparr>am_NodeID := h_nodeID h\<rparr>] else [])"
  by (simp add: publishToAdapter_def Let_def trace_simps split: option.split)

lemma publishToAdapter_mem [simp]: "h_mem (publishToAdapter e msg h) = h_mem h"
  by (simp add: publishToAdapter_def Let_def frame_simps split: option.split)

lemma publishToAdapter_same [registry_intros]: "same_registry h (publishToAdapter e msg h)"
  by (auto simp: publishToAdapter_def Let_def split: option.split intro!: registry_intros)

text \<open>A public send: the local targets are offered the item, then one message goes to the
  adapter when there is one.\<close>

definition sends :: "cref set \<Rightarrow> sendItem \<Rightarrow> AdapterMessage \<Rightarrow> hub \<Rightarrow> hub \<Rightarrow> bool" where
  "sends S item msg h h' \<longleftrightarrow> h_mem h' = offered S item h \<and> same_registry h h' \<and>
     published h' = published h @ (if h_adapter h then [msg\<lparr>am_NodeID := h_nodeID h\<rparr>] else [])"

lemma sendsI:
  assumes "delivers S item h h1"
  shows "sends S item msg h (publishToAdapter e msg h1)"
  using assms sentD [of "offered S item h" h h1] delivers_registry [OF assms]
    same_registry_trans [OF delivers_registry [OF assms] publishToAdapter_same]
  by (simp add: sends_def delivers_def publishToAdapter_published)

lemma Broadcast_sends:
  assumes "send_env e" and "hub_ok h"
  shows "sends (h_clients h) \<lparr>si_msgType = k, si_data = d\<rparr>
    (zeroAdapterMessage\<lparr>am_Type := AdapterBroadcast, am_MsgType := k, am_Data := d\<rparr>) h
    (broadcastWithType e d k h)"
  unfolding broadcastWithType_def by (intro sendsI broadcast_delivers assms)

definition ids_of :: "hub \<Rightarrow> cref list \<Rightarrow> string list" where
  "ids_of h cs = map (\<lambda>c. c_ID (h_mem h c)) cs"

lemma ids_of_Nil [simp]: "ids_of h cs = [] \<longleftrightarrow> cs = []" "ids_of h [] = []"
  by (simp_all add: ids_of_def)

lemma ids_of_delivered: "delivers S item h h1 \<Longrightarrow> map (\<lambda>c. c_ID (h_mem h1 c)) cs = ids_of h cs"
  using sentD(1) [of "offered S item h" h h1] by (simp add: ids_of_def delivers_def)

definition exceptMessage :: "bool \<Rightarrow> string \<Rightarrow> int \<Rightarrow> bytes \<Rightarrow> string list \<Rightarrow> AdapterMessage" where
  "exceptMessage room n k d ids =
     (let m = zeroAdapterMessage\<lparr>am_MsgType := k, am_Data := d, am_Room := n, am_ExceptClientIDs := ids\<rparr>
      in m\<lparr>am_Type := (if ids = [] then (if room then AdapterRoom else AdapterBroadcast)
                       else (if room then AdapterRoomExcept else AdapterBroadcastExcept))\<rparr>)"

lemma BroadcastExcept_sends:
  assumes "send_env e" and "hub_ok h"
  shows "sends (h_clients h - set except) \<lparr>si_msgType = k, si_data = d\<rparr>
    (exceptMessage False '''' k d (ids_of h except)) h (broadcastExceptWithType e d k except h)"
proof -
  let ?item = "\<lparr>si_msgType = k, si_data = d\<rparr>"
  let ?h1 = "broadcastExceptClients e (s_slice (loadSnapshot h)) ?item except (buildClientExcludeSet except) h"
  have d: "delivers (h_clients h - set except) ?item h ?h1"
    using broadcastExceptClients_delivers [OF assms hub_okD(5) [OF assms(2)]] hub_okD(4) [OF assms(2)] by simp
  have "broadcastExceptWithType e d k except h =
      publishToAdapter e (exceptMessage False '''' k d (ids_of h except)) ?h1"
    by (cases "except = []")
      (simp_all add: broadcastExceptWithType_def exceptMessage_def zeroAdapterMessage_def Let_def
        ids_of_delivered [OF d])
  then show ?thesis using sendsI [OF d] by simp
qed

lemma BroadcastToRoom_sends:
  assumes "send_env e" and "hub_ok h" and n: "n \<noteq> ''''" and r: "broadcastToRoomWithType e n d k h = (res, h')"
  shows "sends (members h n) \<lparr>si_msgType = k, si_data = d\<rparr> (exceptMessage True n k d []) h h'"
    and "res = (if members h n = {} \<and> \<not> h_adapter h then Some ErrRoomNotFound else None)"
proof -
  let ?item = "\<lparr>si_msgType = k, si_data = d\<rparr>"
  let ?h1 = "broadcastToRoomLocal e n ?item h"
  have "h' = publishToAdapter e (exceptMessage True n k d []) ?h1"
    using r n by (auto simp: broadcastToRoomWithType_def broadcastToRoomLocal_def exceptMessage_def
        zeroAdapterMessage_def Let_def split: option.splits)
  then show "sends (members h n) ?item (exceptMessage True n k d []) h h'"
    using sendsI [OF broadcastToRoomLocal_delivers [OF assms(1,2)]] by simp
  show "res = (if members h n = {} \<and> \<not> h_adapter h then Some ErrRoomNotFound else None)"
    using r n rooms_struct_exists [of h n] hub_okD(1) [OF assms(2)]
    by (auto simp: broadcastToRoomWithType_def Let_def registry_inv_def split: if_splits)
qed

lemma BroadcastToRoomExcept_sends:
  assumes "send_env e" and "hub_ok h" and n: "n \<noteq> ''''"
    and r: "broadcastToRoomExceptWithType e n d k except h = (res, h')"
  shows "sends (members h n - set except) \<lparr>si_msgType = k, si_data = d\<rparr>
      (exceptMessage True n k d (ids_of h except)) h h'"
    and "res = (if members h n = {} \<and> \<not> h_adapter h then Some ErrRoomNotFound else None)"
proof -
  let ?item = "\<lparr>si_msgType = k, si_data = d\<rparr>"
  let ?h1 = "case h_rooms h n of None \<Rightarrow> h
    | Some r \<Rightarrow> broadcastExceptClients e (loadRoomSnapshot (h_rmem h r)) ?item except (buildClientExcludeSet except) h"
  have d: "delivers (members h n - set except) ?item h ?h1"
  proof (cases "h_rooms h n")
    case None
    then show ?thesis using delivers_none by (simp add: members_None)
  next
    case (Some r)
    note snap = roomSnapshot [OF hub_okD(1) [OF assms(2)] Some]
    show ?thesis
      using broadcastExceptClients_delivers [OF assms(1,2) snap(2), of except ?item] snap(1) Some by simp
  qed
  have "h' = publishToAdapter e (exceptMessage True n k d (ids_of h except)) ?h1"
    using r n
    by (cases "except = []")
      (auto simp: broadcastToRoomExceptWithType_def exceptMessage_def zeroAdapterMessage_def Let_def
        ids_of_delivered [OF d])
  then show "sends (members h n - set except) ?item (exceptMessage True n k d (ids_of h except)) h h'"
    using sendsI [OF d] by simp
  show "res = (if members h n = {} \<and> \<not> h_adapter h then Some ErrRoomNotFound else None)"
    using r n rooms_struct_exists [of h n] hub_okD(1) [OF assms(2)]
    by (auto simp: broadcastToRoomExceptWithType_def Let_def registry_inv_def split: if_splits)
qed

lemma SendToUser_sends:
  assumes "send_env e" and "hub_ok h"
  shows "sends (users h u) \<lparr>si_msgType = k, si_data = d\<rparr>
    (zeroAdapterMessage\<lparr>am_Type := AdapterUser, am_MsgType := k, am_Data := d, am_UserID := u\<rparr>) h
    (sendToUserWithType e u d k h)"
  using sendsI [OF sendToUserLocal_delivers [OF assms]]
  by (simp add: sendToUserWithType_def sendToUserLocal_def Let_def)

subsection \<open>Properties\<close>

lemma exampleHub_ok: "hub_ok exampleHub"
  using exampleHub_inv exampleHub_loop(2) by (simp add: hub_ok_def queues_ok_def queue_ok_def)

lemma exampleEnv_send: "send_env exampleEnv"
  using exampleEnv_ok by (simp add: send_env_def drop_hook_passive_def) (simp add: exampleEnv_def noHooks_def)

text \<open>C19: Parallel broadcasting is equivalent to the sequential loop: for every batch size, every
  schedule of the workers and every batch at which the pool refuses (it may be shut down at any
  moment, the rest is then sent inline), each client's buffer ends up as after sending to the
  clients one by one, so no client is skipped and none is sent to twice.\<close>

theorem parallelSend_sequential:
  assumes "send_env e" and "queues_ok h" and "distinct cs" and "0 < h_parallelBatchSize h"
  shows "h_mem (parallelSend e cs item h) = h_mem (sendEach e item cs h) \<and>
    (\<forall>c. h_mem (parallelSend e cs item h) c =
       (if c \<in> set cs then offerItem (h_dropPolicy h) item (h_mem h c) else h_mem h c))"
  using sentD(1) [OF parallelSend_delivers [OF assms, unfolded delivers_def]]
    sentD(1) [OF sendEach_delivers [OF assms(1-3), unfolded delivers_def]]
  by (simp add: offered_def)

theorem parallelSend_sequential_witness:
  "h_mem (parallelSend exampleEnv [0, 1] \<lparr>si_msgType = 1, si_data = ''x''\<rparr> exampleHub) =
   h_mem (sendEach exampleEnv \<lparr>si_msgType = 1, si_data = ''x''\<rparr> [0, 1] exampleHub)"
  using parallelSend_sequential [OF exampleEnv_send hub_okD(2) [OF exampleHub_ok], of "[0, 1]"] by simp

text \<open>C20: \<open>Broadcast\<close> offers the message to every registered client exactly once and to nobody else,
  and hands exactly one message, stamped with the node's ID, to the adapter when there is one.\<close>

theorem Broadcast_reaches:
  assumes "send_env e" and "hub_ok h"
  shows "(\<forall>c. h_mem (Broadcast e d h) c =
      (if c \<in> h_clients h then offerItem (h_dropPolicy h) \<lparr>si_msgType = TextMessage, si_data = d\<rparr> (h_mem h c)
       else h_mem h c)) \<and>
    published (Broadcast e d h) = published h @
      (if h_adapter h then [zeroAdapterMessage\<lparr>am_NodeID := NodeID h, am_Type := AdapterBroadcast,
         am_MsgType := TextMessage, am_Data := d\<rparr>] else [])"
  using Broadcast_sends [OF assms, of TextMessage d]
  by (simp add: Broadcast_def sends_def offered_def NodeID_def zeroAdapterMessage_def)

theorem Broadcast_reaches_witness:
  "c_send (h_mem (Broadcast exampleEnv ''x'' exampleHub) 1) = [\<lparr>si_msgType = TextMessage, si_data = ''x''\<rparr>]"
  using Broadcast_reaches [OF exampleEnv_send exampleHub_ok, of "''x''"]
  by (simp add: offerItem_def)

text \<open>C21: \<open>BroadcastToRoomExcept\<close> offers the message to exactly the members of the room that are not
  excluded, with a linear scan for up to four exclusions and a set for more, and publishes the
  room, the data and the excluded IDs once. An empty name is refused with
  \<open>ErrEmptyRoomName\<close>; a room nobody is in is \<open>ErrRoomNotFound\<close> exactly when there is no
  adapter to ask other nodes.\<close>

theorem BroadcastToRoomExcept_reaches:
  assumes "send_env e" and "hub_ok h" and "BroadcastToRoomExcept e n d except h = (res, h')"
  shows "if n = '''' then res = Some ErrEmptyRoomName \<and> h' = h
    else res = (if members h n = {} \<and> \<not> h_adapter h then Some ErrRoomNotFound else None) \<and>
      (\<forall>c. h_mem h' c = (if c \<in> members h n - set except
         then offerItem (h_dropPolicy h) \<lparr>si_msgType = TextMessage, si_data = d\<rparr> (h_mem h c) else h_mem h c)) \<and>
      published h' = published h @ (if h_adapter h
        then [(exceptMessage True n TextMessage d (ids_of h except))\<lparr>am_NodeID := h_nodeID h\<rparr>] else [])"
proof (cases "n = ''''")
  case True
  with assms(3) show ?thesis by (simp add: BroadcastToRoomExcept_def broadcastToRoomExceptWithType_def)
next
  case False
  from BroadcastToRoomExcept_sends [OF assms(1,2) False assms(3) [unfolded BroadcastToRoomExcept_def]] False
  show ?thesis by (simp add: sends_def offered_def)
qed

theorem BroadcastToRoomExcept_reaches_witness:
  "h_mem (snd (BroadcastToRoomExcept exampleEnv ''lobby'' ''x'' [0] exampleHub)) 0 = exampleClient 0"
proof -
  obtain res h' where r: "BroadcastToRoomExcept exampleEnv ''lobby'' ''x'' [0] exampleHub = (res, h')" by force
  from BroadcastToRoomExcept_reaches [OF exampleEnv_send exampleHub_ok r] r show ?thesis by simp
qed

text \<open>C22: \<open>SendToClient\<close> sends to a client of this node only through its own buffer, without publishing;
  for an unknown ID it asks the adapter once, or returns \<open>ErrClientNotFound\<close> when there is none;
  \<open>SendToUser\<close> offers the message to every connection of the user and publishes it once.\<close>

theorem SendToUser_SendToClient_reach:
  assumes "send_env e" and "hub_ok h" and "SendToClient e i d h = (res, h1)" and "h2 = SendToUser e u d h"
  shows "(case GetClient i h of
       Some c \<Rightarrow> published h1 = published h \<and> (\<forall>x. h_mem h1 x = (if x = c
           then offerItem (h_dropPolicy h) \<lparr>si_msgType = TextMessage, si_data = d\<rparr> (h_mem h c) else h_mem h x))
     | None \<Rightarrow> h_mem h1 = h_mem h \<and> res = (if h_adapter h then None else Some ErrClientNotFound) \<and>
         published h1 = published h @ (if h_adapter h then [zeroAdapterMessage\<lparr>am_NodeID := h_nodeID h,
           am_Type := AdapterClient, am_MsgType := TextMessage, am_Data := d, am_ClientID := i\<rparr>] else [])) \<and>
    (\<forall>x. h_mem h2 x = (if x \<in> users h u
       then offerItem (h_dropPolicy h) \<lparr>si_msgType = TextMessage, si_data = d\<rparr> (h_mem h x) else h_mem h x)) \<and>
    length (published h2) = length (published h) + (if h_adapter h then 1 else 0)"
proof -
  have u: "(\<forall>x. h_mem h2 x = (if x \<in> users h u
       then offerItem (h_dropPolicy h) \<lparr>si_msgType = TextMessage, si_data = d\<rparr> (h_mem h x) else h_mem h x)) \<and>
    length (published h2) = length (published h) + (if h_adapter h then 1 else 0)"
    using SendToUser_sends [OF assms(1,2), of u TextMessage d] assms(4)
    by (simp add: SendToUser_def sends_def offered_def)
  note r = assms(3) [unfolded SendToClient_def sendToClientWithType_def]
  show ?thesis
  proof (cases "GetClient i h")
    case None
    with r u show ?thesis
      by (auto simp: publishToAdapter_published zeroAdapterMessage_def split: if_splits)
  next
    case (Some c)
    have q: "queue_ok (h_mem h c)" using hub_okD(2) [OF assms(2)] by (simp add: queues_ok_def)
    have "delivers {c} \<lparr>si_msgType = TextMessage, si_data = d\<rparr> h h1"
      using SendMessage_delivers(1) [OF assms(1) q] r Some by simp
    then have "h_mem h1 = offered {c} \<lparr>si_msgType = TextMessage, si_data = d\<rparr> h \<and> published h1 = published h"
      using sentD(1,14) unfolding delivers_def by blast
    with Some u show ?thesis by (simp add: offered_def)
  qed
qed

theorem SendToUser_SendToClient_reach_witness:
  "c_send (h_mem (SendToUser exampleEnv ''u1'' ''x'' exampleHub) 1) = [\<lparr>si_msgType = TextMessage, si_data = ''x''\<rparr>]"
proof -
  obtain res h1 where "SendToClient exampleEnv ''c0'' ''x'' exampleHub = (res, h1)" by force
  from SendToUser_SendToClient_reach [OF exampleEnv_send exampleHub_ok this refl, of "''u1''"] show ?thesis
    by (simp add: exampleHub_views offerItem_def)
qed

end
