(* ===== verification/Ws_Presence.thy ===== *)
theory Ws_Presence
  imports Ws_Broadcast
begin

section \<open>Presence gossip (presence.go)\<close>

text \<open>
  Each node publishes its client and room counts on every tick and caches what the other
  nodes report. \<open>publishPresence\<close> gathers the room counts only when the client count or
  \<open>roomVersion\<close> has changed since the last tick; \<open>version_law\<close> is the property of the other
  components this rests on, and \<open>presence_fresh\<close> the invariant that makes the cached report
  equal to a freshly gathered one.

  JSON encoding is a parameter of the environment.
\<close>

subsection \<open>Operations\<close>

record presenceState =
  ps_lastClientCount :: int
  ps_lastRoomVersion :: int
  ps_cachedPayload :: bytes
  ps_lastPresence :: "nodePresence option"

definition initPresenceState :: presenceState where
  "initPresenceState = \<lparr>ps_lastClientCount = 0, ps_lastRoomVersion = -1, ps_cachedPayload = [],
     ps_lastPresence = None\<rparr>"

definition gatherRooms :: "hub \<Rightarrow> string \<Rightarrow> int option" where
  "gatherRooms h n = (case h_rooms h n of
       None \<Rightarrow> None | Some r \<Rightarrow> Some (int (length (loadRoomSnapshot (h_rmem h r)))))"

definition presenceMarshal :: "env \<Rightarrow> nodePresence \<Rightarrow> presenceState \<times> hub \<Rightarrow> bool \<times> presenceState \<times> hub" where
  "presenceMarshal e p sh = (case sh of (s, h) \<Rightarrow>
     (case e_encPresence e p of
        None \<Rightarrow> (False, s, emit (Log Error ''presence marshal failed'') h)
      | Some data \<Rightarrow> (True, s\<lparr>ps_cachedPayload := data\<rparr>, h)))"

definition publishPresence :: "env \<Rightarrow> presenceState \<Rightarrow> hub \<Rightarrow> presenceState \<times> hub" where
  "publishPresence e s h =
     (let clientCount = ClientCount h;
          roomVersion = h_roomVersion h;
          now = go_div (e_now e) Millisecond;
          r = (if clientCount \<noteq> ps_lastClientCount s \<or> roomVersion \<noteq> ps_lastRoomVersion s
               then
                 let p = \<lparr>np_NodeID = h_nodeID h, np_ClientCount = clientCount,
                          np_Rooms = gatherRooms h, np_Timestamp = now\<rparr>
                 in presenceMarshal e p (s\<lparr>ps_lastClientCount := clientCount,
                      ps_lastRoomVersion := roomVersion, ps_lastPresence := Some p\<rparr>, h)
               else
                 case ps_lastPresence s of
                   None \<Rightarrow> (True, s, h)
                 | Some p \<Rightarrow>
                     let p = p\<lparr>np_Timestamp := now\<rparr>
                     in presenceMarshal e p (s\<lparr>ps_lastPresence := Some p\<rparr>, h))
      in case r of (ok, s1, h1) \<Rightarrow>
           if \<not> ok then (s1, h1)
           else if ps_cachedPayload s1 = [] then (s1, h1)
           else (s1, publishToAdapter e (zeroAdapterMessage\<lparr>am_Type := AdapterPresence,
                       am_Data := ps_cachedPayload s1\<rparr>) h1))"

definition handlePresenceMessage :: "env \<Rightarrow> AdapterMessage \<Rightarrow> hub \<Rightarrow> hub" where
  "handlePresenceMessage e msg h = (case h_presenceCache h of
       None \<Rightarrow> h
     | Some cache \<Rightarrow>
         (case e_decPresence e (am_Data msg) of
            None \<Rightarrow> emit (Log Warn ''presence unmarshal failed'') h
          | Some p \<Rightarrow> h\<lparr>h_presenceCache := Some (cache(np_NodeID p \<mapsto>
              \<lparr>ns_clientCount = np_ClientCount p, ns_rooms = np_Rooms p, ns_lastSeen = e_now e\<rparr>))\<rparr>))"

fun evictLoopNodes :: "int \<Rightarrow> string list \<Rightarrow> (string \<Rightarrow> nodeStats option) \<times> hub \<Rightarrow> (string \<Rightarrow> nodeStats option) \<times> hub" where
  "evictLoopNodes cutoff [] mh = mh"
| "evictLoopNodes cutoff (n # ns) (m, h) =
     (case m n of
        Some st \<Rightarrow>
          if ns_lastSeen st < cutoff
          then evictLoopNodes cutoff ns (m(n := None), emit (Log Info ''evicted stale node'') h)
          else evictLoopNodes cutoff ns (m, h)
      | None \<Rightarrow> evictLoopNodes cutoff ns (m, h))"

definition evictStaleNodes :: "env \<Rightarrow> hub \<Rightarrow> hub" where
  "evictStaleNodes e h = (case h_presenceCache h of
       None \<Rightarrow> h
     | Some m \<Rightarrow>
         (case evictLoopNodes (e_now e - h_presenceTTL h) (e_rangeS e (dom m)) (m, h) of
            (m1, h1) \<Rightarrow> h1\<lparr>h_presenceCache := Some m1\<rparr>))"

text \<open>One tick of \<open>runPresence\<close>.\<close>

definition presenceTick :: "env \<Rightarrow> presenceState \<Rightarrow> hub \<Rightarrow> presenceState \<times> hub" where
  "presenceTick e s h = (case publishPresence e s h of (s1, h1) \<Rightarrow> (s1, evictStaleNodes e h1))"

definition sumCache :: "env \<Rightarrow> (nodeStats \<Rightarrow> int) \<Rightarrow> (string \<Rightarrow> nodeStats option) \<Rightarrow> int \<Rightarrow> int" where
  "sumCache e f m start =
     fold (\<lambda>n acc. case m n of None \<Rightarrow> acc | Some st \<Rightarrow> acc + f st) (e_rangeS e (dom m)) start"

definition GlobalClientCount :: "env \<Rightarrow> hub \<Rightarrow> int" where
  "GlobalClientCount e h = (case h_presenceCache h of
       None \<Rightarrow> ClientCount h
     | Some m \<Rightarrow> sumCache e ns_clientCount m (ClientCount h))"

definition roomEntry :: "string \<Rightarrow> nodeStats \<Rightarrow> int" where
  "roomEntry n st = (case ns_rooms st n of None \<Rightarrow> 0 | Some k \<Rightarrow> k)"

definition GlobalRoomCount :: "env \<Rightarrow> string \<Rightarrow> hub \<Rightarrow> int" where
  "GlobalRoomCount e n h = (case h_presenceCache h of
       None \<Rightarrow> RoomCount n h
     | Some m \<Rightarrow> sumCache e (roomEntry n) m (RoomCount n h))"

subsection \<open>The version law\<close>

text \<open>Room membership cannot change without \<open>roomVersion\<close> growing.\<close>

definition version_law :: "hub \<Rightarrow> hub \<Rightarrow> bool" where
  "version_law h h' \<longleftrightarrow> h_roomVersion h \<le> h_roomVersion h' \<and>
     (h_roomVersion h' = h_roomVersion h \<longrightarrow> members h' = members h)"

lemma version_law_refl [simp]: "version_law h h"
  by (simp add: version_law_def)

lemma version_law_trans: "version_law h h' \<Longrightarrow> version_law h' h'' \<Longrightarrow> version_law h h''"
  by (auto simp: version_law_def)

lemma same_registry_version: "same_registry h h' \<Longrightarrow> version_law h h'"
  by (simp add: version_law_def same_registry_members same_registryD)

lemma same_rooms_version: "same_rooms h h' \<Longrightarrow> version_law h h'"
  by (simp add: version_law_def same_rooms_def)

lemma left_all_version:
  assumes "rooms_inv h" and "left_all c h h'"
  shows "version_law h h'"
proof -
  have "finite (c_rooms (h_mem h c))" using assms(1) by (simp add: rooms_inv_def rooms_agree_def)
  moreover have "members h n - {c} = members h n" if "c_rooms (h_mem h c) = {}" for n
    using assms(1) that by (auto simp: rooms_inv_def rooms_agree_def)
  ultimately show ?thesis
    using assms(2) by (auto simp: version_law_def left_all_def)
qed

lemma JoinRoom_version:
  assumes "registry_inv h" and "hooks_observe e" and "JoinRoom e c n h = (res, h')"
  shows "version_law h h'"
proof -
  have "rooms_struct h" using assms(1) by (simp add: registry_inv_def)
  with assms(3,2) show ?thesis
  proof (cases rule: JoinRoom_cases)
    case (joins h1 r exists h2)
    have "joined c n h1 h'" using joinCommit_joined [OF joins(4)] joins by simp
    then show ?thesis using joins(3) by (simp add: version_law_def joined_def same_registryD)
  qed (auto intro: same_rooms_version same_registry_version)
qed

lemma LeaveRoom_version:
  assumes "registry_inv h" and "hooks_observe e" and "LeaveRoom e c n h = (res, h')"
  shows "version_law h h'"
  using assms(3,2)
proof (cases rule: LeaveRoom_cases)
  case (left r h1)
  have "h_roomVersion (dropMember e c n r (leaveNote c n) h1) = h_roomVersion h1 + 1"
    by (simp add: dropMember_unfold leaveNote_def)
  then have "h_roomVersion h' = h_roomVersion h + 1" using left by (simp add: same_registryD)
  then show ?thesis by (simp add: version_law_def)
qed simp_all

lemma removeAll_version:
  assumes "registry_inv h" and "env_ok e"
  shows "version_law h (removeClientFromAllRoomsWithHooks e c h)"
  using left_all_version [OF registry_inv_rooms [OF assms(1)]] removeAll_spec [OF assms, of c] by blast

lemma registered_version: "registered c h h' \<Longrightarrow> version_law h h'"
  using registered_members [of c h h'] by (simp add: version_law_def registered_def)

lemma handleRegister_version: "version_law h (handleRegister e c h)"
  by (cases rule: handleRegister_cases [of h e c])
    (auto intro: registered_version same_registry_version [OF same_registry_answer])

lemma handleUnregister_version:
  assumes inv: "registry_inv h" and e: "env_ok e"
  shows "version_law h (handleUnregister e c h)"
  using assms
proof (cases rule: handleUnregister_cases [where c = c])
  case unknown
  then show ?thesis by (blast intro: same_registry_version)
next
  case removed
  have a: "rooms_agree h" using inv by (simp add: registry_inv_def)
  have "finite (c_rooms (h_mem h c))" using a by (simp add: rooms_agree_def)
  moreover have "members h n - {c} = members h n" if "c_rooms (h_mem h c) = {}" for n
    using a that by (auto simp: rooms_agree_def)
  ultimately show ?thesis using removed(2) by (auto simp: version_law_def unregistered_def fun_eq_iff)
qed

subsection \<open>The cached report is fresh\<close>

definition report :: "env \<Rightarrow> hub \<Rightarrow> nodePresence" where
  "report e h = \<lparr>np_NodeID = h_nodeID h, np_ClientCount = ClientCount h, np_Rooms = gatherRooms h,
     np_Timestamp = go_div (e_now e) Millisecond\<rparr>"

definition presence_fresh :: "presenceState \<Rightarrow> hub \<Rightarrow> bool" where
  "presence_fresh s h \<longleftrightarrow> ps_lastRoomVersion s \<le> h_roomVersion h \<and>
     (ps_lastRoomVersion s = h_roomVersion h \<longrightarrow>
        (\<exists>p. ps_lastPresence s = Some p \<and> np_Rooms p = gatherRooms h \<and> np_NodeID p = h_nodeID h \<and>
             np_ClientCount p = ps_lastClientCount s))"

lemma gatherRooms_members:
  assumes "registry_inv h"
  shows "gatherRooms h n = (if members h n = {} then None else Some (int (card (members h n))))"
proof (cases "h_rooms h n")
  case None
  then show ?thesis by (simp add: gatherRooms_def members_None)
next
  case (Some r)
  have "members h n \<noteq> {}" using Some rooms_struct_exists [of h n] assms by (simp add: registry_inv_def)
  then show ?thesis
    using Some roomSnapshot [OF assms Some] distinct_card [of "loadRoomSnapshot (h_rmem h r)"]
    by (simp add: gatherRooms_def)
qed

lemma RoomCount_members: "registry_inv h \<Longrightarrow> RoomCount n h = int (card (members h n))"
  using roomSnapshot [of h n] distinct_card [of "loadRoomSnapshot (h_rmem h _)"]
  by (cases "h_rooms h n") (auto simp: RoomCount_def members_None dest: distinct_card)

lemma presence_fresh_init: "0 \<le> h_roomVersion h \<Longrightarrow> presence_fresh initPresenceState h"
  by (simp add: presence_fresh_def initPresenceState_def)

lemma presence_fresh_step:
  assumes "presence_fresh s h" and v: "version_law h h'" and inv: "registry_inv h" "registry_inv h'"
    and "h_nodeID h' = h_nodeID h"
  shows "presence_fresh s h'"
proof -
  have "gatherRooms h' = gatherRooms h" if "h_roomVersion h' = h_roomVersion h"
    using that v by (intro ext) (simp add: gatherRooms_members inv version_law_def)
  then show ?thesis
    using assms(1,5) v by (auto simp: presence_fresh_def version_law_def)
qed

lemma gatherRooms_cong: "h_rooms h' = h_rooms h \<Longrightarrow> h_rmem h' = h_rmem h \<Longrightarrow> gatherRooms h' = gatherRooms h"
  by (rule ext) (simp add: gatherRooms_def split: option.split)

lemma publishPresence_report:
  assumes fresh: "presence_fresh s h" and enc: "e_encPresence e (report e h) = Some data" "data \<noteq> []"
    and r: "publishPresence e s h = (s', h')"
  shows "published h' = published h @
      (if h_adapter h then [zeroAdapterMessage\<lparr>am_NodeID := h_nodeID h, am_Type := AdapterPresence, am_Data := data\<rparr>]
       else [])"
    and "presence_fresh s' h'" and "same_registry h h'"
proof -
  let ?rep = "report e h"
  let ?s1 = "s\<lparr>ps_lastClientCount := ClientCount h, ps_lastRoomVersion := h_roomVersion h,
    ps_lastPresence := Some ?rep, ps_cachedPayload := data\<rparr>"
  have eq: "s' = ?s1 \<and>
    h' = publishToAdapter e (zeroAdapterMessage\<lparr>am_Type := AdapterPresence, am_Data := data\<rparr>) h"
  proof (cases "ClientCount h \<noteq> ps_lastClientCount s \<or> h_roomVersion h \<noteq> ps_lastRoomVersion s")
    case True
    then show ?thesis
      using r enc by (auto simp: publishPresence_def presenceMarshal_def report_def Let_def)
  next
    case False
    then obtain p where p: "ps_lastPresence s = Some p" "np_Rooms p = gatherRooms h" "np_NodeID p = h_nodeID h"
      "np_ClientCount p = ClientCount h" using fresh by (auto simp: presence_fresh_def)
    then have "p\<lparr>np_Timestamp := go_div (e_now e) Millisecond\<rparr> = ?rep" by (simp add: report_def)
    then show ?thesis
      using False p r enc by (auto simp: publishPresence_def presenceMarshal_def Let_def)
  qed
  have same: "same_registry h h'" using eq by (simp add: publishToAdapter_same)
  have "h_nodeID h' = h_nodeID h"
    using eq by (simp add: publishToAdapter_def Let_def frame_simps split: option.split)
  moreover have "gatherRooms h' = gatherRooms h"
    using same by (intro gatherRooms_cong) (simp_all add: same_registryD)
  ultimately show "presence_fresh s' h'"
    using eq same_registryD(10) [OF same] by (simp add: presence_fresh_def report_def)
  show "same_registry h h'" by (rule same)
  show "published h' = published h @
      (if h_adapter h then [zeroAdapterMessage\<lparr>am_NodeID := h_nodeID h, am_Type := AdapterPresence, am_Data := data\<rparr>]
       else [])"
    using eq by (simp add: publishToAdapter_published zeroAdapterMessage_def)
qed

subsection \<open>Global counts\<close>

lemma sumCache_sum:
  assumes "ranges_ok e" and "finite (dom m)"
  shows "sumCache e f m k = k + (\<Sum>n\<in>dom m. f (the (m n)))"
proof -
  have "fold (\<lambda>n acc. case m n of None \<Rightarrow> acc | Some st \<Rightarrow> acc + f st) ns k = k + (\<Sum>n\<leftarrow>ns. f (the (m n)))"
    if "set ns \<subseteq> dom m" for ns
    using that by (induction ns arbitrary: k) auto
  then show ?thesis
    using ranges_okD(2) [OF assms] by (simp add: sumCache_def sum_list_distinct_conv_sum_set)
qed

lemma handlePresenceMessage_same: "same_registry h (handlePresenceMessage e msg h)"
  by (auto simp: handlePresenceMessage_def same_registry_def gauge_def emit_def kept_def split: option.split)

lemma evictLoopNodes_eq:
  "distinct ns \<Longrightarrow> fst (evictLoopNodes cutoff ns (m, h)) =
     (\<lambda>n. if n \<in> set ns then (case m n of Some st \<Rightarrow> if ns_lastSeen st < cutoff then None else Some st | None \<Rightarrow> None)
          else m n)"
proof (induction ns arbitrary: m h)
  case (Cons n ns)
  then show ?case by (cases "m n") (auto simp: fun_eq_iff split: option.split)
qed auto

lemma evictStaleNodes_cache:
  assumes "ranges_ok e" and "h_presenceCache h = Some m" and "finite (dom m)"
  shows "h_presenceCache (evictStaleNodes e h) =
    Some (\<lambda>n. case m n of None \<Rightarrow> None
            | Some st \<Rightarrow> if ns_lastSeen st < e_now e - h_presenceTTL h then None else Some st)"
proof -
  have ns: "set (e_rangeS e (dom m)) = dom m" "distinct (e_rangeS e (dom m))"
    using ranges_okD(2) [OF assms(1,3)] by simp_all
  obtain m1 h1 where l: "evictLoopNodes (e_now e - h_presenceTTL h) (e_rangeS e (dom m)) (m, h) = (m1, h1)" by force
  have "m1 = (\<lambda>n. case m n of None \<Rightarrow> None
            | Some st \<Rightarrow> if ns_lastSeen st < e_now e - h_presenceTTL h then None else Some st)"
    using evictLoopNodes_eq [OF ns(2), of "e_now e - h_presenceTTL h" m h] l ns(1)
    by (auto simp: fun_eq_iff split: option.split)
  then show ?thesis using assms(2) l by (simp add: evictStaleNodes_def)
qed

subsection \<open>Properties\<close>



text \<open>\<open>evictStaleNodes\<close> forgets exactly the nodes that were last heard of longer than the TTL ago,
  and the global client count is the local count plus the counts of the nodes still known.\<close>

lemma evict_global_count:
  assumes "ranges_ok e" and "h_presenceCache h = Some m" and "finite (dom m)"
  shows "GlobalClientCount e (evictStaleNodes e h) = ClientCount h +
    (\<Sum>n | \<exists>st. m n = Some st \<and> e_now e - h_presenceTTL h \<le> ns_lastSeen st. ns_clientCount (the (m n)))"
proof -
  let ?m = "\<lambda>n. case m n of None \<Rightarrow> None
            | Some st \<Rightarrow> if ns_lastSeen st < e_now e - h_presenceTTL h then None else Some st"
  have c: "h_presenceCache (evictStaleNodes e h) = Some ?m" by (rule evictStaleNodes_cache [OF assms])
  have d: "dom ?m = {n. \<exists>st. m n = Some st \<and> e_now e - h_presenceTTL h \<le> ns_lastSeen st}"
    by (force simp: dom_def not_less split: option.splits if_splits)
  have "dom ?m \<subseteq> dom m" by (auto simp: d)
  then have fin: "finite (dom ?m)" using assms(3) by (rule finite_subset)
  have "ClientCount (snd (evictLoopNodes k ns (m1, g))) = ClientCount g" for k ns m1 g
    by (induction ns arbitrary: m1 g) (auto simp: ClientCount_def frame_simps split: option.split)
  then have cc: "ClientCount (evictStaleNodes e h) = ClientCount h"
    using assms(2) by (simp add: evictStaleNodes_def ClientCount_def case_prod_beta)
  have s: "(\<Sum>n\<in>dom ?m. ns_clientCount (the (?m n))) = (\<Sum>n\<in>dom ?m. ns_clientCount (the (m n)))"
    by (rule sum.cong) (auto split: option.splits if_splits)
  show ?thesis
    unfolding GlobalClientCount_def c using sumCache_sum [OF assms(1) fin, of ns_clientCount] s
    by (simp add: cc d)
qed

lemma evict_global_count_example:
  "GlobalClientCount exampleEnv (evictStaleNodes exampleEnv exampleHub) = 2"
  using evict_global_count [OF exampleEnv_ok(2), of exampleHub "\<lambda>_. None"] by (simp add: ClientCount_def)

end
