(* ===== verification/Ws_Adapter.thy ===== *)
theory Ws_Adapter
  imports Ws_Presence
begin

section \<open>Messages from other nodes (hub.go: handleAdapterMessage)\<close>

text \<open>
  The receiving side of the multi-node adapter. \<open>remote_targets\<close> says which local clients a
  message is meant for; \<open>handleAdapterMessage\<close> offers the item to exactly those, publishes
  nothing, and ignores the node's own messages. Together with the \<open>sends\<close> facts of the
  sending side this gives delivery across two nodes.
\<close>

definition adapterItem :: "AdapterMessage \<Rightarrow> sendItem" where
  "adapterItem msg = \<lparr>si_msgType = am_MsgType msg, si_data = am_Data msg\<rparr>"

definition handleAdapterMessage :: "env \<Rightarrow> AdapterMessage \<Rightarrow> hub \<Rightarrow> hub" where
  "handleAdapterMessage e msg h =
     (if am_NodeID msg = h_nodeID h then h
      else
        let item = adapterItem msg; t = am_Type msg in
        if t = AdapterBroadcast then broadcast e item h
        else if t = AdapterBroadcastExcept then broadcastExceptByIDs e item (am_ExceptClientIDs msg) h
        else if t = AdapterRoom then broadcastToRoomLocal e (am_Room msg) item h
        else if t = AdapterRoomExcept
        then broadcastToRoomExceptByIDs e (am_Room msg) item (am_ExceptClientIDs msg) h
        else if t = AdapterUser then sendToUserLocal e (am_UserID msg) item h
        else if t = AdapterClient then snd (sendToClientLocal e (am_ClientID msg) (am_Data msg) (am_MsgType msg) h)
        else if t = AdapterPresence then handlePresenceMessage e msg h
        else h)"

definition remote_targets :: "AdapterMessage \<Rightarrow> hub \<Rightarrow> cref set" where
  "remote_targets msg h =
     (let t = am_Type msg; wanted = (\<lambda>c. c_ID (h_mem h c) \<notin> set (am_ExceptClientIDs msg)) in
      if am_NodeID msg = h_nodeID h then {}
      else if t = AdapterBroadcast then h_clients h
      else if t = AdapterBroadcastExcept then {c \<in> h_clients h. wanted c}
      else if t = AdapterRoom then members h (am_Room msg)
      else if t = AdapterRoomExcept then {c \<in> members h (am_Room msg). wanted c}
      else if t = AdapterUser then users h (am_UserID msg)
      else if t = AdapterClient then set_option (h_clientIndex h (am_ClientID msg))
      else {})"

lemma adapter_types_distinct [simp]:
  "AdapterBroadcast \<noteq> AdapterBroadcastExcept" "AdapterBroadcast \<noteq> AdapterRoom"
  "AdapterBroadcast \<noteq> AdapterRoomExcept" "AdapterBroadcast \<noteq> AdapterUser"
  "AdapterBroadcast \<noteq> AdapterClient" "AdapterBroadcast \<noteq> AdapterPresence"
  "AdapterBroadcastExcept \<noteq> AdapterBroadcast" "AdapterBroadcastExcept \<noteq> AdapterRoom"
  "AdapterBroadcastExcept \<noteq> AdapterRoomExcept" "AdapterBroadcastExcept \<noteq> AdapterUser"
  "AdapterBroadcastExcept \<noteq> AdapterClient" "AdapterBroadcastExcept \<noteq> AdapterPresence"
  "AdapterRoom \<noteq> AdapterBroadcast" "AdapterRoom \<noteq> AdapterBroadcastExcept"
  "AdapterRoom \<noteq> AdapterRoomExcept" "AdapterRoom \<noteq> AdapterUser" "AdapterRoom \<noteq> AdapterClient"
  "AdapterRoom \<noteq> AdapterPresence"
  "AdapterRoomExcept \<noteq> AdapterBroadcast" "AdapterRoomExcept \<noteq> AdapterBroadcastExcept"
  "AdapterRoomExcept \<noteq> AdapterRoom" "AdapterRoomExcept \<noteq> AdapterUser"
  "AdapterRoomExcept \<noteq> AdapterClient" "AdapterRoomExcept \<noteq> AdapterPresence"
  "AdapterUser \<noteq> AdapterBroadcast" "AdapterUser \<noteq> AdapterBroadcastExcept" "AdapterUser \<noteq> AdapterRoom"
  "AdapterUser \<noteq> AdapterRoomExcept" "AdapterUser \<noteq> AdapterClient" "AdapterUser \<noteq> AdapterPresence"
  "AdapterClient \<noteq> AdapterBroadcast" "AdapterClient \<noteq> AdapterBroadcastExcept"
  "AdapterClient \<noteq> AdapterRoom" "AdapterClient \<noteq> AdapterRoomExcept"
  "AdapterClient \<noteq> AdapterUser" "AdapterClient \<noteq> AdapterPresence"
  "AdapterPresence \<noteq> AdapterBroadcast" "AdapterPresence \<noteq> AdapterBroadcastExcept"
  "AdapterPresence \<noteq> AdapterRoom" "AdapterPresence \<noteq> AdapterRoomExcept"
  "AdapterPresence \<noteq> AdapterUser" "AdapterPresence \<noteq> AdapterClient"
  by (simp_all add: adapter_type_defs)

lemma sendToClientLocal_delivers:
  assumes "send_env e" and "hub_ok h"
  shows "delivers (set_option (h_clientIndex h i)) \<lparr>si_msgType = k, si_data = d\<rparr> h
    (snd (sendToClientLocal e i d k h))"
proof (cases "h_clientIndex h i")
  case None
  then show ?thesis using delivers_none by (simp add: sendToClientLocal_def GetClient_def)
next
  case (Some c)
  obtain res h' where r: "SendMessage e c k d h = (res, h')" by force
  have "queue_ok (h_mem h c)" using hub_okD(2) [OF assms(2)] by (simp add: queues_ok_def)
  from SendMessage_delivers(1) [OF assms(1) this r] r Some show ?thesis
    by (simp add: sendToClientLocal_def GetClient_def)
qed

lemma handleAdapterMessage_delivers:
  assumes "send_env e" and "hub_ok h" and "am_Type msg \<noteq> AdapterPresence"
  shows "delivers (remote_targets msg h) (adapterItem msg) h (handleAdapterMessage e msg h)"
proof (cases "am_NodeID msg = h_nodeID h")
  case True
  then show ?thesis using delivers_none by (simp add: handleAdapterMessage_def remote_targets_def)
next
  case False
  note d = broadcast_delivers [OF assms(1,2)] broadcastExceptByIDs_delivers [OF assms(1,2)]
    broadcastToRoomLocal_delivers [OF assms(1,2)] broadcastToRoomExceptByIDs_delivers [OF assms(1,2)]
    sendToUserLocal_delivers [OF assms(1,2)] delivers_none
  have c: "delivers (set_option (h_clientIndex h (am_ClientID msg))) (adapterItem msg) h
      (snd (sendToClientLocal e (am_ClientID msg) (am_Data msg) (am_MsgType msg) h))"
    unfolding adapterItem_def by (rule sendToClientLocal_delivers [OF assms(1,2)])
  consider "am_Type msg = AdapterBroadcast" | "am_Type msg = AdapterBroadcastExcept" | "am_Type msg = AdapterRoom"
    | "am_Type msg = AdapterRoomExcept" | "am_Type msg = AdapterUser" | "am_Type msg = AdapterClient"
    | "am_Type msg \<notin> {AdapterBroadcast, AdapterBroadcastExcept, AdapterRoom, AdapterRoomExcept, AdapterUser, AdapterClient}"
    by blast
  then show ?thesis
    by cases (use False assms(3) d c in \<open>simp_all add: handleAdapterMessage_def remote_targets_def Let_def\<close>)
qed

lemma handlePresenceMessage_published: "published (handlePresenceMessage e msg h) = published h"
  by (simp add: handlePresenceMessage_def published_def emit_def split: option.split)

lemma handleAdapterMessage_published:
  assumes "send_env e" and "hub_ok h"
  shows "published (handleAdapterMessage e msg h) = published h"
proof (cases "am_Type msg = AdapterPresence")
  case True
  then show ?thesis
    using handlePresenceMessage_published by (simp add: handleAdapterMessage_def Let_def)
next
  case False
  from handleAdapterMessage_delivers [OF assms False]
  show ?thesis by (simp add: delivers_def sentD(14))
qed

lemma handleAdapterMessage_same:
  assumes "send_env e" and "hub_ok h"
  shows "same_registry h (handleAdapterMessage e msg h)"
proof (cases "am_Type msg = AdapterPresence")
  case True
  then show ?thesis
    using handlePresenceMessage_same by (simp add: handleAdapterMessage_def Let_def)
next
  case False
  from handleAdapterMessage_delivers [OF assms False] show ?thesis by (rule delivers_registry)
qed

subsection \<open>Two nodes\<close>

text \<open>The message a public send hands to the adapter is the last published one.\<close>

definition relayed :: "hub \<Rightarrow> AdapterMessage" where
  "relayed h = last (published h)"

lemma sends_relayed:
  "sends S item msg h h' \<Longrightarrow> h_adapter h \<Longrightarrow> relayed h' = msg\<lparr>am_NodeID := h_nodeID h\<rparr>"
  by (simp add: relayed_def sends_def)

lemma relay_delivers:
  assumes "send_env e" and "hub_ok hB" and "sends S item msg hA hA'" and "h_adapter hA"
    and "h_nodeID hA \<noteq> h_nodeID hB" and "am_Type msg \<noteq> AdapterPresence"
  shows "delivers (remote_targets (msg\<lparr>am_NodeID := h_nodeID hA\<rparr>) hB) (adapterItem msg) hB
    (handleAdapterMessage e (relayed hA') hB)"
  using handleAdapterMessage_delivers [OF assms(1,2), of "msg\<lparr>am_NodeID := h_nodeID hA\<rparr>"] assms(6)
    sends_relayed [OF assms(3,4)] by (simp add: adapterItem_def)

subsection \<open>Properties\<close>

lemma nodeID_hub_ok:
  assumes "hub_ok h"
  shows "hub_ok (h\<lparr>h_nodeID := i\<rparr>)"
proof -
  have m: "members (h\<lparr>h_nodeID := i\<rparr>) = members h" by (rule members_cong) simp_all
  have u: "users (h\<lparr>h_nodeID := i\<rparr>) = users h" by (rule users_cong) simp
  show ?thesis
    using assms
    by (simp add: hub_ok_def registry_inv_def registry_inv_defs m u gauge_def snapshot_ok_def loadSnapshot_def queues_ok_def)
qed

text \<open>C23: A message from another node is offered to exactly the local clients it is meant for (all,
  all but the excluded IDs, a room, a room but the excluded IDs, a user, one client), and it is
  never published again, so messages cannot loop between nodes. A node ignores its own
  messages.\<close>

theorem handleAdapterMessage_local:
  assumes "send_env e" and "hub_ok h"
  shows "published (handleAdapterMessage e msg h) = published h \<and>
    (am_NodeID msg = h_nodeID h \<longrightarrow> handleAdapterMessage e msg h = h) \<and>
    (\<forall>c. am_Type msg \<noteq> AdapterPresence \<longrightarrow> h_mem (handleAdapterMessage e msg h) c =
       (if c \<in> remote_targets msg h then offerItem (h_dropPolicy h) (adapterItem msg) (h_mem h c) else h_mem h c))"
proof (intro conjI allI impI)
  show "published (handleAdapterMessage e msg h) = published h" by (rule handleAdapterMessage_published [OF assms])
  show "handleAdapterMessage e msg h = h" if "am_NodeID msg = h_nodeID h"
    using that by (simp add: handleAdapterMessage_def)
  show "h_mem (handleAdapterMessage e msg h) c =
      (if c \<in> remote_targets msg h then offerItem (h_dropPolicy h) (adapterItem msg) (h_mem h c) else h_mem h c)"
    if "am_Type msg \<noteq> AdapterPresence" for c
    using sentD(1) [OF handleAdapterMessage_delivers [OF assms that, unfolded delivers_def]] by (simp add: offered_def)
qed

theorem handleAdapterMessage_local_witness:
  "c_send (h_mem (handleAdapterMessage exampleEnv
     (zeroAdapterMessage\<lparr>am_NodeID := ''B'', am_Type := AdapterUser, am_UserID := ''u1'', am_MsgType := 1, am_Data := ''x''\<rparr>)
     exampleHub) 1) = [\<lparr>si_msgType = 1, si_data = ''x''\<rparr>]"
  using handleAdapterMessage_local [OF exampleEnv_send exampleHub_ok,
      of "zeroAdapterMessage\<lparr>am_NodeID := ''B'', am_Type := AdapterUser, am_UserID := ''u1'', am_MsgType := 1, am_Data := ''x''\<rparr>"]
  by (simp add: remote_targets_def exampleHub_views offerItem_def adapterItem_def Let_def)

text \<open>C24: Broadcasting to a room across two nodes: when node A calls \<open>BroadcastToRoomExcept\<close> and the
  adapter carries the published message to node B, exactly the members of the room on A that
  are not excluded and exactly the members on B whose ID is not among the excluded ones are
  offered the message, each once.\<close>

theorem room_broadcast_two_nodes:
  assumes A: "send_env eA" "hub_ok hA" "h_adapter hA" and B: "send_env eB" "hub_ok hB"
    and ids: "h_nodeID hA \<noteq> h_nodeID hB" and n: "n \<noteq> ''''"
    and r: "BroadcastToRoomExcept eA n d except hA = (res, hA')"
  shows "let item = \<lparr>si_msgType = TextMessage, si_data = d\<rparr>; hB' = handleAdapterMessage eB (relayed hA') hB in
    res = None \<and>
    (\<forall>c. h_mem hA' c = (if c \<in> members hA n - set except then offerItem (h_dropPolicy hA) item (h_mem hA c)
                         else h_mem hA c)) \<and>
    (\<forall>c. h_mem hB' c = (if c \<in> members hB n \<and> c_ID (h_mem hB c) \<notin> set (ids_of hA except)
                         then offerItem (h_dropPolicy hB) item (h_mem hB c) else h_mem hB c))"
proof -
  let ?item = "\<lparr>si_msgType = TextMessage, si_data = d\<rparr>"
  let ?msg = "exceptMessage True n TextMessage d (ids_of hA except)"
  note s = BroadcastToRoomExcept_sends [OF A(1,2) n r [unfolded BroadcastToRoomExcept_def]]
  have t: "am_Type ?msg \<noteq> AdapterPresence" "adapterItem ?msg = ?item"
    by (simp_all add: exceptMessage_def Let_def adapterItem_def)
  have targets: "remote_targets (?msg\<lparr>am_NodeID := h_nodeID hA\<rparr>) hB =
      {c \<in> members hB n. c_ID (h_mem hB c) \<notin> set (ids_of hA except)}"
    using ids by (auto simp: remote_targets_def exceptMessage_def Let_def)
  have "delivers (remote_targets (?msg\<lparr>am_NodeID := h_nodeID hA\<rparr>) hB) (adapterItem ?msg) hB
      (handleAdapterMessage eB (relayed hA') hB)"
    by (rule relay_delivers [OF B s(1) A(3) ids t(1)])
  then have "h_mem (handleAdapterMessage eB (relayed hA') hB) =
      offered {c \<in> members hB n. c_ID (h_mem hB c) \<notin> set (ids_of hA except)} ?item hB"
    unfolding targets t(2) delivers_def by (rule sentD)
  with s A(3) show ?thesis by (simp add: sends_def offered_def Let_def)
qed

theorem room_broadcast_two_nodes_witness:
  "c_send (h_mem (handleAdapterMessage exampleEnv
      (relayed (snd (BroadcastToRoomExcept exampleEnv ''lobby'' ''x'' [1] exampleHub)))
      (exampleHub\<lparr>h_nodeID := ''B''\<rparr>)) 0) = [\<lparr>si_msgType = TextMessage, si_data = ''x''\<rparr>]"
proof -
  let ?hB = "exampleHub\<lparr>h_nodeID := ''B''\<rparr>"
  have m: "members ?hB = members exampleHub" by (rule members_cong) simp_all
  have B: "hub_ok ?hB" by (rule nodeID_hub_ok [OF exampleHub_ok])
  obtain res hA' where r: "BroadcastToRoomExcept exampleEnv ''lobby'' ''x'' [1] exampleHub = (res, hA')" by force
  have "\<forall>c. h_mem (handleAdapterMessage exampleEnv (relayed hA') ?hB) c =
      (if c \<in> members ?hB ''lobby'' \<and> c_ID (h_mem ?hB c) \<notin> set (ids_of exampleHub [1])
       then offerItem (h_dropPolicy ?hB) \<lparr>si_msgType = TextMessage, si_data = ''x''\<rparr> (h_mem ?hB c) else h_mem ?hB c)"
    using room_broadcast_two_nodes [OF exampleEnv_send exampleHub_ok _ exampleEnv_send B _ _ r] by (simp add: Let_def)
  then show ?thesis using r by (simp add: m exampleHub_views ids_of_def offerItem_def)
qed

text \<open>C25: Presence across two nodes: after node A has received B's heartbeat, A's global client count
  is its own count, plus B's real count, plus what A knows of the other nodes; the same holds
  for every room.\<close>

theorem presence_two_nodes:
  assumes A: "ranges_ok eA" "h_presenceCache hA = Some m" "finite (dom m)"
    and B: "registry_inv hB" "presence_fresh s hB" "h_adapter hB" "publishPresence eB s hB = (s', hB')"
    and ids: "h_nodeID hA \<noteq> h_nodeID hB"
    and json: "e_encPresence eB (report eB hB) = Some data" "data \<noteq> []" "e_decPresence eA data = Some (report eB hB)"
    and recv: "hA' = handleAdapterMessage eA (relayed hB') hA"
  shows "GlobalClientCount eA hA' = ClientCount hA + int (card (h_clients hB)) +
      (\<Sum>k\<in>dom m - {h_nodeID hB}. ns_clientCount (the (m k))) \<and>
    GlobalRoomCount eA n hA' = RoomCount n hA + int (card (members hB n)) +
      (\<Sum>k\<in>dom m - {h_nodeID hB}. roomEntry n (the (m k)))"
proof -
  let ?st = "\<lparr>ns_clientCount = ClientCount hB, ns_rooms = gatherRooms hB, ns_lastSeen = e_now eA\<rparr>"
  let ?m = "m(h_nodeID hB \<mapsto> ?st)"
  have msg: "relayed hB' = zeroAdapterMessage\<lparr>am_NodeID := h_nodeID hB, am_Type := AdapterPresence, am_Data := data\<rparr>"
    using publishPresence_report(1) [OF B(2) json(1,2) B(4)] B(3) by (simp add: relayed_def)
  have hA': "hA' = hA\<lparr>h_presenceCache := Some ?m\<rparr>"
    using ids json(3) A(2) recv
    by (simp add: msg handleAdapterMessage_def Let_def handlePresenceMessage_def report_def)
  have local: "ClientCount hA' = ClientCount hA" "RoomCount n hA' = RoomCount n hA"
    by (simp_all add: hA' ClientCount_def RoomCount_def cong: option.case_cong)
  have sum: "(\<Sum>k\<in>dom ?m. f (the (?m k))) = f ?st + (\<Sum>k\<in>dom m - {h_nodeID hB}. f (the (m k)))" for f :: "nodeStats \<Rightarrow> int"
  proof -
    have "(\<Sum>k\<in>insert (h_nodeID hB) (dom m). f (the (?m k))) =
        f ?st + (\<Sum>k\<in>dom m - {h_nodeID hB}. f (the (?m k)))"
      using A(3) by (simp add: sum.insert_remove)
    then show ?thesis by simp
  qed
  have cb: "ClientCount hB = int (card (h_clients hB))"
    using B(1) by (simp add: ClientCount_def registry_inv_def inv_clients_def)
  have rb: "roomEntry n ?st = int (card (members hB n))"
    using gatherRooms_members [OF B(1), of n] by (simp add: roomEntry_def)
  have fin: "finite (dom ?m)" using A(3) by simp
  have c': "h_presenceCache hA' = Some ?m" by (simp add: hA')
  show ?thesis
    unfolding GlobalClientCount_def GlobalRoomCount_def c' option.case sumCache_sum [OF A(1) fin] sum local rb
    by (simp add: cb)
qed

theorem presence_two_nodes_witness:
  "GlobalClientCount (exampleEnv\<lparr>e_decPresence := (\<lambda>_. Some (report exampleEnv exampleHub))\<rparr>)
     (handleAdapterMessage (exampleEnv\<lparr>e_decPresence := (\<lambda>_. Some (report exampleEnv exampleHub))\<rparr>)
        (relayed (snd (publishPresence exampleEnv initPresenceState exampleHub)))
        (exampleHub\<lparr>h_nodeID := ''B''\<rparr>)) = 4"
proof -
  let ?eA = "exampleEnv\<lparr>e_decPresence := (\<lambda>_. Some (report exampleEnv exampleHub))\<rparr>"
  let ?hA = "exampleHub\<lparr>h_nodeID := ''B''\<rparr>"
  obtain s' h' where r: "publishPresence exampleEnv initPresenceState exampleHub = (s', h')" by force
  have f: "presence_fresh initPresenceState exampleHub" by (rule presence_fresh_init) simp
  have enc: "e_encPresence exampleEnv (report exampleEnv exampleHub) = Some ''pA''"
    by (simp add: report_def) (simp add: exampleEnv_def)
  have "ranges_ok ?eA" using exampleEnv_ok(2) by (simp add: ranges_ok_def)
  from presence_two_nodes [OF this _ _ exampleHub_inv f _ r _ enc _ _ refl, where hA = ?hA and m = "\<lambda>_. None"] r
  show ?thesis by (simp add: ClientCount_def)
qed

end
