(* ===== verification/Ws_Context.thy ===== *)
theory Ws_Context
  imports Ws_Broadcast
begin

section \<open>Sends with a context (hub.go: sendWithContext and the WithContext methods)\<close>

text \<open>
  The blocking variants ignore the drop policy: each send waits for room in the buffer or for
  the end of the context. The value is \<open>None\<close> where the call would still be waiting. In
  parallel mode each batch stops at its own first failure; the batches, which work on disjoint
  clients, are run one after the other.
\<close>

fun sendSeq :: "ctxView \<Rightarrow> sendItem \<Rightarrow> cref list \<Rightarrow> hub \<Rightarrow> (bool \<times> hub) option" where
  "sendSeq ctx item [] h = Some (True, h)"
| "sendSeq ctx item (c # cs) h = (case trySendWithContext ctx c item h of
       None \<Rightarrow> None
     | Some (False, h1) \<Rightarrow> Some (False, h1)
     | Some (True, h1) \<Rightarrow> sendSeq ctx item cs h1)"

text \<open>\<open>broadcastTask.execute\<close> on each task, and the shared \<open>contextResult\<close>.\<close>

fun runTasks :: "ctxView \<Rightarrow> sendItem \<Rightarrow> cref list list \<Rightarrow> wsError option \<Rightarrow> hub \<Rightarrow> (wsError option \<times> hub) option" where
  "runTasks ctx item [] err h = Some (err, h)"
| "runTasks ctx item (t # ts) err h = (case sendSeq ctx item t h of
       None \<Rightarrow> None
     | Some (ok, h1) \<Rightarrow> runTasks ctx item ts (if ok \<or> err \<noteq> None then err else Some (cx_err ctx)) h1)"

definition sendWithContext ::
  "env \<Rightarrow> ctxView \<Rightarrow> cref list \<Rightarrow> sendItem \<Rightarrow> hub \<Rightarrow> (wsError option \<times> hub) option" where
  "sendWithContext e ctx cs item h =
     (if cs = [] then Some (None, h)
      else if \<not> h_useParallel h \<or> int (length cs) \<le> h_parallelBatchSize h
      then (case sendSeq ctx item cs h of
              None \<Rightarrow> None
            | Some (ok, h1) \<Rightarrow> Some (if ok then None else Some (cx_err ctx), h1))
      else
        let h1 = ensurePool h in
        case splitTasks e (nat (h_parallelBatchSize h)) cs h1 of
          (tasks, inline) \<Rightarrow> runTasks ctx item (tasks @ [inline]) None h1)"

definition BroadcastWithContext :: "env \<Rightarrow> ctxView \<Rightarrow> bytes \<Rightarrow> hub \<Rightarrow> (wsError option \<times> hub) option" where
  "BroadcastWithContext e ctx data h =
     (case sendWithContext e ctx (s_slice (loadSnapshot h)) \<lparr>si_msgType = TextMessage, si_data = data\<rparr> h of
        None \<Rightarrow> None
      | Some (ctxErr, h1) \<Rightarrow> Some (ctxErr, publishToAdapter e (zeroAdapterMessage\<lparr>am_Type := AdapterBroadcast,
          am_MsgType := TextMessage, am_Data := data\<rparr>) h1))"

definition SendToUserWithContext :: "env \<Rightarrow> ctxView \<Rightarrow> string \<Rightarrow> bytes \<Rightarrow> hub \<Rightarrow> (wsError option \<times> hub) option" where
  "SendToUserWithContext e ctx userID data h =
     (case sendWithContext e ctx (GetClientsByUserID e userID h) \<lparr>si_msgType = TextMessage, si_data = data\<rparr> h of
        None \<Rightarrow> None
      | Some (ctxErr, h1) \<Rightarrow> Some (ctxErr, publishToAdapter e (zeroAdapterMessage\<lparr>am_Type := AdapterUser,
          am_MsgType := TextMessage, am_Data := data, am_UserID := userID\<rparr>) h1))"

definition SendToClientWithContext :: "env \<Rightarrow> ctxView \<Rightarrow> string \<Rightarrow> bytes \<Rightarrow> hub \<Rightarrow> (wsError option \<times> hub) option" where
  "SendToClientWithContext e ctx clientID data h = (case GetClient clientID h of
       Some c \<Rightarrow> SendMessageWithContext ctx c TextMessage data h
     | None \<Rightarrow>
         if h_adapter h
         then Some (None, publishToAdapter e (zeroAdapterMessage\<lparr>am_Type := AdapterClient,
                am_MsgType := TextMessage, am_Data := data, am_ClientID := clientID\<rparr>) h)
         else Some (Some ErrClientNotFound, h))"

definition BroadcastToRoomWithContext :: "env \<Rightarrow> ctxView \<Rightarrow> string \<Rightarrow> bytes \<Rightarrow> hub \<Rightarrow> (wsError option \<times> hub) option" where
  "BroadcastToRoomWithContext e ctx n data h =
     (if n = '''' then Some (Some ErrEmptyRoomName, h)
      else
        case (case h_rooms h n of
                None \<Rightarrow> Some (None, h)
              | Some r \<Rightarrow> sendWithContext e ctx (loadRoomSnapshot (h_rmem h r))
                            \<lparr>si_msgType = TextMessage, si_data = data\<rparr> h) of
          None \<Rightarrow> None
        | Some (ctxErr, h1) \<Rightarrow>
            let h2 = publishToAdapter e (zeroAdapterMessage\<lparr>am_Type := AdapterRoom,
                       am_MsgType := TextMessage, am_Data := data, am_Room := n\<rparr>) h1
            in Some (if ctxErr \<noteq> None then ctxErr
                     else if h_rooms h n = None \<and> \<not> h_adapter h then Some ErrRoomNotFound else None, h2))"

subsection \<open>No message is dropped\<close>

definition push :: "sendItem \<Rightarrow> client \<Rightarrow> client" where
  "push item cl = cl\<lparr>c_send := c_send cl @ [item]\<rparr>"

text \<open>The clients \<open>S\<close> got the item at the end of their buffers, nothing else changed.\<close>

definition pushed :: "cref set \<Rightarrow> sendItem \<Rightarrow> hub \<Rightarrow> hub \<Rightarrow> bool" where
  "pushed S item h h' \<longleftrightarrow> sent (\<lambda>c. if c \<in> S then push item (h_mem h c) else h_mem h c) h h' \<and>
     (\<forall>c\<in>S. length (c_send (h_mem h c)) < c_sendCap (h_mem h c))"

lemma pushed_refl: "pushed {} item h h"
  using sent_refl [of h] by (simp add: pushed_def)

lemma pushed_registry: "pushed S item h h' \<Longrightarrow> same_registry h h'"
  unfolding pushed_def by (elim conjE sent_registry) (auto simp: push_def queue_ok_def)

lemma selectSend_cases [consumes 1]:
  assumes "selectSend ctx c item h = Some (ok, h')"
  obtains (yes) "ok" "pushed {c} item h h'" | (no) "\<not> ok" "cx_done ctx c" "h' = h"
proof (cases "hubSend c item h")
  case None
  with assms no show thesis by (auto simp: selectSend_def split: if_splits)
next
  case (Some h1)
  have "length (c_send (h_mem h c)) < c_sendCap (h_mem h c)" using Some hubSend_None [of c item h] by simp
  moreover have "(\<lambda>x. if x \<in> {c} then push item (h_mem h x) else h_mem h x) =
      (h_mem h)(c := (h_mem h c)\<lparr>c_send := c_send (h_mem h c) @ [item]\<rparr>)" by (auto simp: push_def)
  ultimately have "pushed {c} item h h1" using hubSend_sent [OF Some] by (simp add: pushed_def)
  with assms Some yes no show thesis by (auto simp: selectSend_def split: if_splits)
qed

lemma pushed_trans:
  assumes "pushed S item h h1" and "pushed T item h1 h2" and "S \<inter> T = {}"
  shows "pushed (S \<union> T) item h h2"
proof -
  have s: "sent (\<lambda>c. if c \<in> S then push item (h_mem h c) else h_mem h c) h h1" using assms(1) by (simp add: pushed_def)
  have m: "h_mem h1 = (\<lambda>c. if c \<in> S then push item (h_mem h c) else h_mem h c)" using s by (rule sentD)
  have "(\<lambda>c. if c \<in> T then push item (h_mem h1 c) else h_mem h1 c) =
      (\<lambda>c. if c \<in> S \<union> T then push item (h_mem h c) else h_mem h c)" using assms(3) by (auto simp: m fun_eq_iff)
  then have "sent (\<lambda>c. if c \<in> S \<union> T then push item (h_mem h c) else h_mem h c) h h2"
    using sent_trans [OF s] assms(2) by (simp add: pushed_def)
  moreover have "length (c_send (h_mem h c)) < c_sendCap (h_mem h c)" if "c \<in> S \<union> T" for c
  proof (cases "c \<in> S")
    case True
    then show ?thesis using assms(1) by (simp add: pushed_def)
  next
    case False
    then have "length (c_send (h_mem h1 c)) < c_sendCap (h_mem h1 c)" using that assms(2) by (simp add: pushed_def)
    then show ?thesis using False by (simp add: m)
  qed
  ultimately show ?thesis by (simp add: pushed_def)
qed

lemma sendSeq_pushed:
  "distinct cs \<Longrightarrow> sendSeq ctx item cs h = Some (ok, h') \<Longrightarrow>
     \<exists>S\<subseteq>set cs. pushed S item h h' \<and> (ok \<longrightarrow> S = set cs) \<and> (\<not> ok \<longrightarrow> (\<exists>c\<in>set cs. cx_done ctx c))"
proof (induction cs arbitrary: h)
  case Nil
  then show ?case using pushed_refl by simp
next
  case (Cons c cs)
  obtain ok1 h1 where t: "selectSend ctx c item h = Some (ok1, h1)"
    using Cons.prems(2) by (auto simp: trySendWithContext_def split: option.splits)
  from t show ?case
  proof (cases rule: selectSend_cases)
    case yes
    then have "sendSeq ctx item cs h1 = Some (ok, h')" using Cons.prems(2) t by (simp add: trySendWithContext_def)
    with Cons.IH [of h1] Cons.prems(1) obtain S where S: "S \<subseteq> set cs" "pushed S item h1 h'"
      "ok \<longrightarrow> S = set cs" "\<not> ok \<longrightarrow> (\<exists>c\<in>set cs. cx_done ctx c)" by auto
    have "pushed ({c} \<union> S) item h h'" using yes(2) S(2) Cons.prems(1) S(1) by (intro pushed_trans) auto
    then show ?thesis using S by (intro exI [where x = "insert c S"]) auto
  next
    case no
    then show ?thesis using Cons.prems(2) t pushed_refl by (auto simp: trySendWithContext_def)
  qed
qed

lemma runTasks_pushed:
  "distinct (concat ts) \<Longrightarrow> runTasks ctx item ts err h = Some (err', h') \<Longrightarrow>
     \<exists>S\<subseteq>set (concat ts). pushed S item h h' \<and> (err' = None \<longrightarrow> err = None \<and> S = set (concat ts)) \<and>
       (err' \<noteq> None \<longrightarrow> err' = err \<or> err' = Some (cx_err ctx) \<and> (\<exists>c\<in>set (concat ts). cx_done ctx c))"
proof (induction ts arbitrary: h err)
  case Nil
  then show ?case using pushed_refl by auto
next
  case (Cons t ts)
  obtain ok h1 where s: "sendSeq ctx item t h = Some (ok, h1)"
    using Cons.prems(2) by (auto split: option.splits)
  let ?err = "if ok \<or> err \<noteq> None then err else Some (cx_err ctx)"
  have r: "runTasks ctx item ts ?err h1 = Some (err', h')" using Cons.prems(2) s by simp
  obtain S where S: "S \<subseteq> set t" "pushed S item h h1" "ok \<longrightarrow> S = set t" "\<not> ok \<longrightarrow> (\<exists>c\<in>set t. cx_done ctx c)"
    using sendSeq_pushed [OF _ s] Cons.prems(1) by auto
  have "distinct (concat ts)" using Cons.prems(1) by simp
  from Cons.IH [OF this r] obtain T where T: "T \<subseteq> set (concat ts)" "pushed T item h1 h'"
    "err' = None \<longrightarrow> ?err = None \<and> T = set (concat ts)"
    "err' \<noteq> None \<longrightarrow> err' = ?err \<or> err' = Some (cx_err ctx) \<and> (\<exists>c\<in>set (concat ts). cx_done ctx c)" by blast
  have "S \<inter> T = {}" using S(1) T(1) Cons.prems(1) by auto
  with S(2) T(2) have "pushed (S \<union> T) item h h'" by (rule pushed_trans)
  moreover have "S \<union> T \<subseteq> set (concat (t # ts))" using S(1) T(1) by auto
  moreover have "err' = None \<longrightarrow> err = None \<and> S \<union> T = set (concat (t # ts))"
    using S(3) T(3) by (auto split: if_splits)
  moreover have "err' \<noteq> None \<longrightarrow> err' = err \<or> err' = Some (cx_err ctx) \<and> (\<exists>c\<in>set (concat (t # ts)). cx_done ctx c)"
    using S(4) T(4) by (cases "ok \<or> err \<noteq> None") auto
  ultimately show ?case by blast
qed

lemma sendWithContext_pushed:
  assumes "distinct cs" and "0 < h_parallelBatchSize h" and r: "sendWithContext e ctx cs item h = Some (err, h')"
  shows "\<exists>S\<subseteq>set cs. pushed S item h h' \<and> (err = None \<longrightarrow> S = set cs) \<and>
    (err \<noteq> None \<longrightarrow> err = Some (cx_err ctx) \<and> (\<exists>c\<in>set cs. cx_done ctx c))"
proof -
  consider (empty) "cs = []" | (seq) "cs \<noteq> []" "\<not> h_useParallel h \<or> int (length cs) \<le> h_parallelBatchSize h"
    | (par) "cs \<noteq> []" "\<not> (\<not> h_useParallel h \<or> int (length cs) \<le> h_parallelBatchSize h)" by blast
  then show ?thesis
  proof cases
    case empty
    then show ?thesis using r pushed_refl by (auto simp: sendWithContext_def)
  next
    case seq
    then obtain ok where "sendSeq ctx item cs h = Some (ok, h')" "err = (if ok then None else Some (cx_err ctx))"
      using r by (auto simp: sendWithContext_def split: option.splits)
    with sendSeq_pushed [OF assms(1), of ctx item h ok h'] show ?thesis by (cases ok) auto
  next
    case par
    let ?h1 = "ensurePool h"
    obtain tasks inline where t: "splitTasks e (nat (h_parallelBatchSize h)) cs ?h1 = (tasks, inline)" by force
    have c: "concat (tasks @ [inline]) = cs" using splitTasks_concat [OF _ t] assms(2) by simp
    have rt: "runTasks ctx item (tasks @ [inline]) None ?h1 = Some (err, h')"
      using r par t by (simp add: sendWithContext_def Let_def)
    from runTasks_pushed [OF _ rt] assms(1) c obtain S where S: "S \<subseteq> set cs" "pushed S item ?h1 h'"
      "err = None \<longrightarrow> S = set cs" "err \<noteq> None \<longrightarrow> err = Some (cx_err ctx) \<and> (\<exists>c\<in>set cs. cx_done ctx c)"
      by (auto simp del: concat_append)
    have "pushed {} item h ?h1" using ensurePool_sent [of h] by (simp add: pushed_def)
    then have "pushed ({} \<union> S) item h h'" using S(2) by (rule pushed_trans) simp
    then show ?thesis using S by auto
  qed
qed

subsection \<open>Property\<close>



end
