(* ===== verification/Ws_Handler.thy ===== *)
theory Ws_Handler
  imports Ws_Broadcast
begin

section \<open>Messages, middleware and routing (message.go, middleware.go, router.go)\<close>

text \<open>
  A handler gets a client, a message and the hub (it may call the hub's methods); it returns
  an error or \<open>nil\<close>, or it panics. A middleware maps handlers to handlers. The chain caches
  the composed handler; \<open>chain_ok\<close> is the invariant that the cache never goes stale.
  \<open>json.Marshal\<close> results are arguments.
\<close>

subsection \<open>Messages\<close>

definition Text :: "Message \<Rightarrow> string" where
  "Text m = msg_Data m"

text \<open>\<open>unmarshal\<close> is \<open>json.Unmarshal\<close> into the caller's type.\<close>

definition JSON :: "(bytes \<Rightarrow> wsError + 'v) \<Rightarrow> Message \<Rightarrow> wsError + 'v" where
  "JSON unmarshal m = unmarshal (msg_Data m)"

definition NewMessage :: "int \<Rightarrow> bytes \<Rightarrow> Message" where
  "NewMessage now data = \<lparr>msg_Type = TextMessage, msg_Data = data, msg_ClientID = '''', msg_Time = now\<rparr>"

definition NewTextMessage :: "int \<Rightarrow> string \<Rightarrow> Message" where
  "NewTextMessage now text = \<lparr>msg_Type = TextMessage, msg_Data = text, msg_ClientID = '''', msg_Time = now\<rparr>"

definition NewBinaryMessage :: "int \<Rightarrow> bytes \<Rightarrow> Message" where
  "NewBinaryMessage now data = \<lparr>msg_Type = BinaryMessage, msg_Data = data, msg_ClientID = '''', msg_Time = now\<rparr>"

definition NewJSONMessage :: "int \<Rightarrow> wsError + bytes \<Rightarrow> wsError + Message" where
  "NewJSONMessage now enc = (case enc of
       Inl err \<Rightarrow> Inl err
     | Inr data \<Rightarrow> Inr \<lparr>msg_Type = TextMessage, msg_Data = data, msg_ClientID = '''', msg_Time = now\<rparr>)"

definition NewRawJSONMessage :: "int \<Rightarrow> bytes \<Rightarrow> Message" where
  "NewRawJSONMessage now data = \<lparr>msg_Type = TextMessage, msg_Data = data, msg_ClientID = '''', msg_Time = now\<rparr>"

subsection \<open>Middleware\<close>

datatype outcome = Ret "wsError option" | Panic string

type_synonym handlerFunc = "cref \<Rightarrow> Message \<Rightarrow> hub \<Rightarrow> outcome \<times> hub"
type_synonym middleware = "handlerFunc \<Rightarrow> handlerFunc"

record MiddlewareChain =
  mc_middlewares :: "middleware list"
  mc_handler :: handlerFunc
  mc_built :: "handlerFunc option"

definition NewMiddlewareChain :: "handlerFunc \<Rightarrow> MiddlewareChain" where
  "NewMiddlewareChain handler = \<lparr>mc_middlewares = [], mc_handler = handler, mc_built = None\<rparr>"

definition Use :: "middleware \<Rightarrow> MiddlewareChain \<Rightarrow> MiddlewareChain" where
  "Use mw m = m\<lparr>mc_middlewares := mc_middlewares m @ [mw], mc_built := None\<rparr>"

text \<open>\<open>for _, v := range slices.Backward(m.middlewares) { handler = v(handler) }\<close>\<close>

fun wrapBackward :: "middleware list \<Rightarrow> handlerFunc \<Rightarrow> handlerFunc" where
  "wrapBackward [] handler = handler"
| "wrapBackward (v # vs) handler = wrapBackward vs (v handler)"

definition compose :: "MiddlewareChain \<Rightarrow> handlerFunc" where
  "compose m = wrapBackward (rev (mc_middlewares m)) (mc_handler m)"

definition Build :: "MiddlewareChain \<Rightarrow> MiddlewareChain" where
  "Build m = m\<lparr>mc_built := Some (compose m)\<rparr>"

definition Execute :: "cref \<Rightarrow> Message \<Rightarrow> MiddlewareChain \<Rightarrow> hub \<Rightarrow> (outcome \<times> hub) \<times> MiddlewareChain" where
  "Execute c msg m h = (case mc_built m of
       Some built \<Rightarrow> (built c msg h, m)
     | None \<Rightarrow>
         let m1 = (if mc_built m = None then m\<lparr>mc_built := Some (compose m)\<rparr> else m)
         in (the (mc_built m1) c msg h, m1))"

definition LoggingMiddleware :: middleware where
  "LoggingMiddleware nxt c msg h =
     (case nxt c msg (emit (Log Debug ''Message received'') h) of
        (Ret None, h1) \<Rightarrow> (Ret None, h1)
      | (Ret (Some err), h1) \<Rightarrow> (Ret (Some err), emit (Log Error ''Message handling failed'') h1)
      | (Panic v, h1) \<Rightarrow> (Panic v, h1))"

definition RecoveryMiddleware :: middleware where
  "RecoveryMiddleware nxt c msg h =
     (case nxt c msg h of
        (Panic v, h1) \<Rightarrow> (Ret (Some ErrInvalidMessage), emit (Log Error ''Panic recovered in message handler'') h1)
      | (Ret r, h1) \<Rightarrow> (Ret r, h1))"

definition MetricsMiddleware :: "env \<Rightarrow> middleware" where
  "MetricsMiddleware e nxt c msg h =
     (case nxt c msg h of
        (Panic v, h1) \<Rightarrow> (Panic v, h1)
      | (Ret r, h1) \<Rightarrow>
          let h2 = emit (Metric (RecordLatency (e_elapsed e))) h1
          in (Ret r, if r \<noteq> None then emit (Metric (IncrementErrors ''message_handling'')) h2 else h2))"

subsection \<open>Router\<close>

record Router =
  rt_extractor :: "Message \<Rightarrow> string"
  rt_handlers :: "string \<Rightarrow> handlerFunc option"
  rt_notFound :: "handlerFunc option"

definition NewRouter :: "(Message \<Rightarrow> string) \<Rightarrow> Router" where
  "NewRouter extractor = \<lparr>rt_extractor = extractor, rt_handlers = (\<lambda>_. None), rt_notFound = None\<rparr>"

definition On :: "string \<Rightarrow> handlerFunc \<Rightarrow> Router \<Rightarrow> Router" where
  "On event handler r = r\<lparr>rt_handlers := (rt_handlers r)(event \<mapsto> handler)\<rparr>"

definition OnNotFound :: "handlerFunc \<Rightarrow> Router \<Rightarrow> Router" where
  "OnNotFound handler r = r\<lparr>rt_notFound := Some handler\<rparr>"

definition Handle :: "Router \<Rightarrow> handlerFunc" where
  "Handle r c msg h =
     (let event = rt_extractor r msg in
      case rt_handlers r event of
        None \<Rightarrow> (case rt_notFound r of
                   Some nf \<Rightarrow> nf c msg h
                 | None \<Rightarrow> (Ret (Some ErrInvalidMessage), h))
      | Some handler \<Rightarrow> handler c msg h)"

subsection \<open>The chain\<close>

definition chain_ok :: "MiddlewareChain \<Rightarrow> bool" where
  "chain_ok m \<longleftrightarrow> (\<forall>f. mc_built m = Some f \<longrightarrow> f = compose m)"

datatype chainOp = OpUse middleware | OpBuild | OpExecute cref Message hub

fun chainStep :: "chainOp \<Rightarrow> MiddlewareChain \<Rightarrow> MiddlewareChain" where
  "chainStep (OpUse mw) m = Use mw m"
| "chainStep OpBuild m = Build m"
| "chainStep (OpExecute c msg h) m = snd (Execute c msg m h)"

fun used :: "chainOp \<Rightarrow> middleware list" where
  "used (OpUse mw) = [mw]"
| "used _ = []"

lemma wrapBackward_rev: "wrapBackward (rev ms) f = foldr (\<lambda>v g. v g) ms f"
proof -
  have "wrapBackward xs f = fold (\<lambda>v g. v g) xs f" for xs
    by (induction xs arbitrary: f) simp_all
  then show ?thesis by (simp add: foldr_conv_fold)
qed

lemma Execute_ok:
  assumes "chain_ok m"
  shows "fst (Execute c msg m h) = compose m c msg h"
  using assms by (cases "mc_built m") (simp_all add: Execute_def chain_ok_def)

lemma chainStep_ok:
  assumes "chain_ok m"
  shows "chain_ok (chainStep op m) \<and> mc_handler (chainStep op m) = mc_handler m \<and>
    mc_middlewares (chainStep op m) = mc_middlewares m @ used op"
  using assms
  by (cases op) (auto simp: chain_ok_def Use_def Build_def Execute_def compose_def split: option.split)

lemma chain_run_ok:
  "chain_ok m \<Longrightarrow> chain_ok (fold chainStep ops m) \<and> mc_handler (fold chainStep ops m) = mc_handler m \<and>
     mc_middlewares (fold chainStep ops m) = mc_middlewares m @ concat (map used ops)"
proof (induction ops arbitrary: m)
  case (Cons op ops)
  from chainStep_ok [OF Cons.prems, of op] Cons.IH [of "chainStep op m"] show ?case by simp
qed simp

lemma new_chain_ok: "chain_ok (NewMiddlewareChain f)"
  by (simp add: chain_ok_def NewMiddlewareChain_def)

definition never_panics :: "handlerFunc \<Rightarrow> bool" where
  "never_panics f \<longleftrightarrow> (\<forall>c msg h. \<exists>r h'. f c msg h = (Ret r, h'))"

lemma RecoveryMiddleware_safe: "never_panics (RecoveryMiddleware f)"
  unfolding never_panics_def RecoveryMiddleware_def by (auto split: prod.split outcome.split)

subsection \<open>Properties\<close>

lemma chain_executes:
  "fst (Execute c msg (fold chainStep ops (NewMiddlewareChain f)) h) =
     foldr (\<lambda>mw nxt. mw nxt) (concat (map used ops)) f c msg h"
proof -
  have "compose (fold chainStep ops (NewMiddlewareChain f)) = foldr (\<lambda>mw nxt. mw nxt) (concat (map used ops)) f"
    using chain_run_ok [OF new_chain_ok, of ops f] wrapBackward_rev by (simp add: compose_def NewMiddlewareChain_def)
  with Execute_ok [of "fold chainStep ops (NewMiddlewareChain f)"] chain_run_ok [OF new_chain_ok, of ops f]
  show ?thesis by simp
qed

text \<open>C38: The cached middleware chain never goes stale: after any sequence of \<open>Use\<close>, \<open>Build\<close> and
  \<open>Execute\<close>, executing the chain runs the middlewares in the order they were added, the first
  one outermost, around the handler.\<close>

theorem middleware_order:
  "fst (Execute c msg (fold chainStep ops (NewMiddlewareChain f)) h) =
     foldr (\<lambda>mw nxt. mw nxt) (concat (map used ops)) f c msg h"
  by (rule chain_executes)

text \<open>A chain whose first middleware is \<open>RecoveryMiddleware\<close> never panics, whatever the other
  middlewares and the handler do: a panic becomes \<open>ErrInvalidMessage\<close> with one error logged, and
  a handler that returns is passed through unchanged.\<close>

lemma recovery_chain_safe:
  "\<exists>r h'. fst (Execute c msg (fold chainStep (OpUse RecoveryMiddleware # ops) (NewMiddlewareChain f)) h) = (Ret r, h') \<and>
     (case foldr (\<lambda>mw nxt. mw nxt) (concat (map used ops)) f c msg h of
        (Ret r0, h0) \<Rightarrow> r = r0 \<and> h' = h0
      | (Panic v, h0) \<Rightarrow> r = Some ErrInvalidMessage \<and> h' = emit (Log Error ''Panic recovered in message handler'') h0)"
  using chain_executes [of c msg "OpUse RecoveryMiddleware # ops" f h]
  by (auto simp: RecoveryMiddleware_def split: prod.split outcome.split)

text \<open>The router runs the handler registered last for the extracted event, and for an event
  without handler the not-found handler, or returns \<open>ErrInvalidMessage\<close> when there is none.\<close>

lemma router_dispatch:
  "Handle (fold (\<lambda>(ev, f). On ev f) regs (NewRouter extract)) c msg h =
     (case map_of (rev regs) (extract msg) of Some f \<Rightarrow> f c msg h | None \<Rightarrow> (Ret (Some ErrInvalidMessage), h)) \<and>
   Handle (OnNotFound nf (fold (\<lambda>(ev, f). On ev f) regs (NewRouter extract))) c msg h =
     (case map_of (rev regs) (extract msg) of Some f \<Rightarrow> f c msg h | None \<Rightarrow> nf c msg h)"
proof -
  have "rt_handlers (fold (\<lambda>(ev, f). On ev f) regs r) = (\<lambda>ev. case map_of (rev regs) ev of None \<Rightarrow> rt_handlers r ev | Some f \<Rightarrow> Some f) \<and>
      rt_extractor (fold (\<lambda>(ev, f). On ev f) regs r) = rt_extractor r \<and>
      rt_notFound (fold (\<lambda>(ev, f). On ev f) regs r) = rt_notFound r" for r
  proof (induction regs arbitrary: r)
    case (Cons x regs)
    then show ?case by (cases x) (auto simp: On_def fun_eq_iff map_add_def split: option.split)
  qed simp
  from this [of "NewRouter extract"] show ?thesis
    by (auto simp: Handle_def NewRouter_def OnNotFound_def Let_def split: option.split)
qed

end
