(* ===== verification/Ws_ReadPump.thy ===== *)
theory Ws_ReadPump
  imports Ws_Handler
begin

section \<open>The read pump (client.go: readPump, handleReadError, processMessage)\<close>

text \<open>
  The goroutine that reads a connection. \<open>ReadMessage\<close> belongs to gorilla/websocket: a run of
  the pump is driven by the list of its answers, each with the environment (clock, hooks) at
  that time. The callbacks of the application are the record \<open>callbacks\<close>: the handles stored in
  the client and in the hub select a function. \<open>unexpected\<close> stands for
  \<open>websocket.IsUnexpectedCloseError\<close> with the three expected codes.

  A panic in a callback is not recovered by the pump and ends the process; the result is then
  \<open>None\<close>.
\<close>

record callbacks =
  cb_client :: "nat \<Rightarrow> cref \<Rightarrow> Message \<Rightarrow> hub \<Rightarrow> hub"
  cb_hub :: "nat \<Rightarrow> handlerFunc"
  cb_error :: "nat \<Rightarrow> cref \<Rightarrow> wsError \<Rightarrow> hub \<Rightarrow> hub"

definition handleReadError :: "env \<Rightarrow> callbacks \<Rightarrow> (wsError \<Rightarrow> bool) \<Rightarrow> cref \<Rightarrow> wsError \<Rightarrow> hub \<Rightarrow> hub" where
  "handleReadError e cb unexpected c err h =
     (if \<not> unexpected err then h
      else
        let h1 = (case c_onError (h_mem h c) of None \<Rightarrow> h | Some k \<Rightarrow> cb_error cb k c err h);
            h2 = (case OnError (e_hooks e) of None \<Rightarrow> h1 | Some f \<Rightarrow> f c err h1)
        in emit (Metric (IncrementErrors ''read_error'')) h2)"

text \<open>The message after the \<open>BeforeMessage\<close> hook; \<open>None\<close> when the hook rejects it.\<close>

definition callBeforeMessage :: "env \<Rightarrow> cref \<Rightarrow> Message \<Rightarrow> hub \<Rightarrow> Message option \<times> hub" where
  "callBeforeMessage e c msg h = (case BeforeMessage (e_hooks e) of
       None \<Rightarrow> (Some msg, h)
     | Some f \<Rightarrow>
         (case f c msg h of
            ((_, Some err), h1) \<Rightarrow> (None, emit (Log Warn ''Message rejected by BeforeMessage hook'') h1)
          | ((None, None), h1) \<Rightarrow> (Some msg, h1)
          | ((Some modified, None), h1) \<Rightarrow> (Some modified, h1)))"

definition callHubHandler :: "env \<Rightarrow> callbacks \<Rightarrow> cref \<Rightarrow> Message \<Rightarrow> hub \<Rightarrow> (wsError option \<times> hub) option" where
  "callHubHandler e cb c msg h = (case h_onMessage h of
       None \<Rightarrow> Some (None, h)
     | Some k \<Rightarrow>
         (case cb_hub cb k c msg h of
            (Panic _, _) \<Rightarrow> None
          | (Ret r, h1) \<Rightarrow>
              Some (r, if \<not> h_skipHandlerLatency h1 then emit (Metric (RecordLatency (e_elapsed e))) h1 else h1)))"

definition processMessage :: "env \<Rightarrow> callbacks \<Rightarrow> cref \<Rightarrow> int \<Rightarrow> bytes \<Rightarrow> hub \<Rightarrow> hub option" where
  "processMessage e cb c messageType data h =
     (let h1 = emit (Metric (RecordMessageSize (int (length data)))) (emit (Metric IncrementMessagesReceived) h);
          msg = \<lparr>msg_Type = messageType, msg_Data = data, msg_ClientID = c_ID (h_mem h1 c), msg_Time = e_now e\<rparr>
      in case callBeforeMessage e c msg h1 of
           (None, h2) \<Rightarrow> Some h2
         | (Some msg, h2) \<Rightarrow>
             let h3 = (case c_onMessage (h_mem h2 c) of None \<Rightarrow> h2 | Some k \<Rightarrow> cb_client cb k c msg h2)
             in case callHubHandler e cb c msg h3 of
                  None \<Rightarrow> None
                | Some (handlerErr, h4) \<Rightarrow>
                    Some (case AfterMessage (e_hooks e) of None \<Rightarrow> h4 | Some f \<Rightarrow> f c msg handlerErr h4))"

datatype readResult = ReadOk int bytes | ReadErr wsError

text \<open>One message: the rate limiter, then \<open>processMessage\<close>.\<close>

definition readOne :: "env \<Rightarrow> callbacks \<Rightarrow> cref \<Rightarrow> int \<Rightarrow> bytes \<Rightarrow> hub \<Rightarrow> hub option" where
  "readOne e cb c t d h = (case checkRateLimit e c h of
       (False, h1) \<Rightarrow> Some (emit (Metric (IncrementErrors ''rate_limit_exceeded''))
                            (emit (Log Warn ''Rate limit exceeded, dropping message'') h1))
     | (True, h1) \<Rightarrow> processMessage e cb c t d h1)"

text \<open>The deferred part: announce the client to \<open>Run\<close> (the channel holds 64 entries; \<open>None\<close>
  while it is full and the hub is not stopped), then close the connection. With the context
  done \<open>select\<close> may skip the announcement (\<open>skip\<close>).\<close>

definition readPumpExit :: "bool \<Rightarrow> cref \<Rightarrow> hub \<Rightarrow> hub option" where
  "readPumpExit skip c h =
     (if h_ctxDone h \<and> (skip \<or> 64 \<le> length (h_unregister h)) then Some (upd_client c closeConn h)
      else if length (h_unregister h) < 64
      then Some (upd_client c closeConn (h\<lparr>h_unregister := h_unregister h @ [c]\<rparr>))
      else None)"

fun readLoop :: "callbacks \<Rightarrow> (wsError \<Rightarrow> bool) \<Rightarrow> bool \<Rightarrow> cref \<Rightarrow> (env \<times> readResult) list \<Rightarrow> hub \<Rightarrow> hub option" where
  "readLoop cb unexpected skip c [] h = None"
| "readLoop cb unexpected skip c ((e, ReadErr err) # rs) h =
     readPumpExit skip c (handleReadError e cb unexpected c err h)"
| "readLoop cb unexpected skip c ((e, ReadOk t d) # rs) h =
     (case readOne e cb c t d h of None \<Rightarrow> None | Some h1 \<Rightarrow> readLoop cb unexpected skip c rs h1)"

text \<open>The pump: \<open>SetReadDeadline\<close> may fail (\<open>deadlineOk\<close>), which is only counted, then the loop.\<close>

definition readPump ::
  "bool \<Rightarrow> callbacks \<Rightarrow> (wsError \<Rightarrow> bool) \<Rightarrow> bool \<Rightarrow> cref \<Rightarrow> (env \<times> readResult) list \<Rightarrow> hub \<Rightarrow> hub option" where
  "readPump deadlineOk cb unexpected skip c rs h =
     readLoop cb unexpected skip c rs
       (if deadlineOk then h else emit (Metric (IncrementErrors ''read_deadline_error'')) h)"

subsection \<open>What the pump guarantees\<close>

text \<open>Callbacks and hooks that do not touch the registry, do not panic, do not count messages and
  do not shut the hub down.\<close>

fun recv_delta :: "metric \<Rightarrow> int" where
  "recv_delta IncrementMessagesReceived = 1"
| "recv_delta _ = 0"

definition keeps :: "(hub \<Rightarrow> hub) \<Rightarrow> bool" where
  "keeps f \<longleftrightarrow> (\<forall>h. same_registry h (f h) \<and> gauge recv_delta (f h) = gauge recv_delta h \<and>
     h_ctxDone (f h) = h_ctxDone h \<and>
     (\<forall>c. c_tokens (h_mem (f h) c) = c_tokens (h_mem h c) \<and> c_lastRefill (h_mem (f h) c) = c_lastRefill (h_mem h c)))"

definition callbacks_keep :: "env \<Rightarrow> callbacks \<Rightarrow> bool" where
  "callbacks_keep e cb \<longleftrightarrow>
     (\<forall>k c msg. keeps (cb_client cb k c msg)) \<and>
     (\<forall>k c msg h. \<exists>r. fst (cb_hub cb k c msg h) = Ret r) \<and>
     (\<forall>k c msg. keeps (\<lambda>h. snd (cb_hub cb k c msg h))) \<and>
     (\<forall>f c msg. BeforeMessage (e_hooks e) = Some f \<longrightarrow> keeps (\<lambda>h. snd (f c msg h))) \<and>
     (\<forall>f c msg r. AfterMessage (e_hooks e) = Some f \<longrightarrow> keeps (f c msg r))"

lemma keepsD:
  "keeps f \<Longrightarrow> same_registry h (f h)" "keeps f \<Longrightarrow> gauge recv_delta (f h) = gauge recv_delta h"
  "keeps f \<Longrightarrow> c_tokens (h_mem (f h) c) = c_tokens (h_mem h c)"
  "keeps f \<Longrightarrow> c_lastRefill (h_mem (f h) c) = c_lastRefill (h_mem h c)"
  by (simp_all add: keeps_def)

text \<open>What one accepted message may change besides what the callbacks do.\<close>

definition steady :: "int \<Rightarrow> hub \<Rightarrow> hub \<Rightarrow> bool" where
  "steady n h h' \<longleftrightarrow> same_registry h h' \<and> gauge recv_delta h' = gauge recv_delta h + n \<and> h_ctxDone h' = h_ctxDone h \<and>
     (\<forall>c. c_tokens (h_mem h' c) = c_tokens (h_mem h c) \<and> c_lastRefill (h_mem h' c) = c_lastRefill (h_mem h c))"

lemma steady_trans: "steady n h h1 \<Longrightarrow> steady m h1 h2 \<Longrightarrow> steady (n + m) h h2"
  unfolding steady_def by (auto intro: same_registry_trans)

lemma steady_refl: "steady 0 h h"
  by (simp add: steady_def)

lemma keeps_steady: "keeps f \<Longrightarrow> steady 0 h (f h)"
  by (simp add: steady_def keeps_def)

lemma emit_steady: "quiet x \<Longrightarrow> steady (metric_part recv_delta x) h (emit x h)"
  by (simp add: steady_def same_registry_emit trace_simps frame_simps)

lemma steady_emit: "steady n h h1 \<Longrightarrow> quiet x \<Longrightarrow> steady (n + metric_part recv_delta x) h (emit x h1)"
  using steady_trans emit_steady by blast

lemma callBeforeMessage_steady:
  assumes "callbacks_keep e cb" and r: "callBeforeMessage e c msg h = (r, h')"
  shows "steady 0 h h'"
proof (cases "BeforeMessage (e_hooks e)")
  case None
  then show ?thesis using r by (simp add: callBeforeMessage_def steady_refl)
next
  case (Some f)
  obtain a b h1 where f: "f c msg h = ((a, b), h1)" by (metis surj_pair)
  have k: "keeps (\<lambda>h. snd (f c msg h))" using assms(1) Some by (simp add: callbacks_keep_def)
  have "steady 0 h h1" using keeps_steady [OF k, of h] f by simp
  moreover have "h' = h1 \<or> h' = emit (Log Warn ''Message rejected by BeforeMessage hook'') h1"
    using r Some f by (auto simp: callBeforeMessage_def split: option.splits)
  ultimately show ?thesis using steady_emit [of 0 h h1 "Log Warn ''Message rejected by BeforeMessage hook''"] by auto
qed

lemma callHubHandler_steady:
  assumes "callbacks_keep e cb"
  shows "\<exists>r h'. callHubHandler e cb c msg h = Some (r, h') \<and> steady 0 h h'"
proof (cases "h_onMessage h")
  case None
  then show ?thesis by (simp add: callHubHandler_def steady_refl)
next
  case (Some k)
  have "\<exists>r. fst (cb_hub cb k c msg h) = Ret r" using assms by (simp add: callbacks_keep_def)
  then obtain r h1 where f: "cb_hub cb k c msg h = (Ret r, h1)" by (metis prod.collapse)
  have "keeps (\<lambda>h. snd (cb_hub cb k c msg h))" using assms by (simp add: callbacks_keep_def)
  then have "steady 0 h h1" using keeps_steady [of _ h] f by fastforce
  then show ?thesis
    using Some f steady_emit [of 0 h h1 "Metric (RecordLatency (e_elapsed e))"] by (simp add: callHubHandler_def)
qed

lemma processMessage_steady:
  assumes "callbacks_keep e cb"
  shows "\<exists>h'. processMessage e cb c t d h = Some h' \<and> steady 1 h h'"
proof -
  let ?h1 = "emit (Metric (RecordMessageSize (int (length d)))) (emit (Metric IncrementMessagesReceived) h)"
  let ?msg = "\<lparr>msg_Type = t, msg_Data = d, msg_ClientID = c_ID (h_mem ?h1 c), msg_Time = e_now e\<rparr>"
  have s1: "steady 1 h ?h1"
    using steady_emit [OF emit_steady [of "Metric IncrementMessagesReceived" h],
        of "Metric (RecordMessageSize (int (length d)))"] by simp
  obtain r h2 where b: "callBeforeMessage e c ?msg ?h1 = (r, h2)" by force
  have s2: "steady 1 h h2" using steady_trans [OF s1 callBeforeMessage_steady [OF assms b]] by simp
  show ?thesis
  proof (cases r)
    case None
    then show ?thesis using b s2 by (simp add: processMessage_def Let_def)
  next
    case (Some msg)
    let ?h3 = "case c_onMessage (h_mem h2 c) of None \<Rightarrow> h2 | Some k \<Rightarrow> cb_client cb k c msg h2"
    have "steady 0 h2 ?h3"
      using assms by (auto simp: callbacks_keep_def steady_refl intro: keeps_steady split: option.split)
    then have s3: "steady 1 h ?h3" using steady_trans [OF s2] by fastforce
    obtain er h4 where hh: "callHubHandler e cb c msg ?h3 = Some (er, h4)" "steady 0 ?h3 h4"
      using callHubHandler_steady [OF assms] by blast
    have s4: "steady 1 h h4" using steady_trans [OF s3 hh(2)] by simp
    let ?h5 = "case AfterMessage (e_hooks e) of None \<Rightarrow> h4 | Some f \<Rightarrow> f c msg er h4"
    have "steady 0 h4 ?h5"
      using assms by (auto simp: callbacks_keep_def steady_refl intro: keeps_steady split: option.split)
    then have "steady 1 h ?h5" using steady_trans [OF s4] by fastforce
    moreover have "processMessage e cb c t d h = Some ?h5"
      using Some b hh(1) by (simp add: processMessage_def Let_def)
    ultimately show ?thesis by simp
  qed
qed

text \<open>The pump passes on exactly the messages the token bucket allows.\<close>

lemma readOne_rate:
  assumes "callbacks_keep e cb" and "rateStep (MaxMessageRate (h_limits h)) (e_now e) (h_mem h c) = (ok, cl)"
  shows "\<exists>h'. readOne e cb c t d h = Some h' \<and> same_registry h h' \<and> h_ctxDone h' = h_ctxDone h \<and>
    gauge recv_delta h' = gauge recv_delta h + (if ok then 1 else 0) \<and>
    c_tokens (h_mem h' c) = c_tokens cl \<and> c_lastRefill (h_mem h' c) = c_lastRefill cl"
proof -
  let ?h1 = "h\<lparr>h_mem := (h_mem h)(c := cl)\<rparr>"
  have cr: "checkRateLimit e c h = (ok, ?h1)" using assms(2) by (simp add: checkRateLimit_def)
  note s = checkRateLimit_same [OF cr]
  have g: "gauge recv_delta ?h1 = gauge recv_delta h" by (simp add: gauge_def)
  show ?thesis
  proof (cases ok)
    case True
    obtain h' where p: "processMessage e cb c t d ?h1 = Some h'" "steady 1 ?h1 h'"
      using processMessage_steady [OF assms(1)] by blast
    then show ?thesis
      using True cr g same_registry_trans [OF s] by (auto simp: readOne_def steady_def)
  next
    case False
    then show ?thesis
      using cr g s by (auto simp: readOne_def frame_simps trace_simps intro!: registry_intros)
  qed
qed

text \<open>The messages of a run before its first read error.\<close>

fun readAll :: "callbacks \<Rightarrow> cref \<Rightarrow> (env \<times> int \<times> bytes) list \<Rightarrow> hub \<Rightarrow> hub option" where
  "readAll cb c [] h = Some h"
| "readAll cb c ((e, t, d) # rs) h = (case readOne e cb c t d h of None \<Rightarrow> None | Some h1 \<Rightarrow> readAll cb c rs h1)"

lemma readLoop_readAll:
  "readLoop cb unexpected skip c (map (\<lambda>(e, t, d). (e, ReadOk t d)) rs @ (e, ReadErr err) # rest) h =
     (case readAll cb c rs h of None \<Rightarrow> None
      | Some h1 \<Rightarrow> readPumpExit skip c (handleReadError e cb unexpected c err h1))"
  by (induction rs arbitrary: h) (auto split: option.split)

lemma rateStep_cong:
  assumes "c_tokens cl = c_tokens cl'" and "c_lastRefill cl = c_lastRefill cl'"
  shows "fst (rateStep r t cl) = fst (rateStep r t cl')"
    and "c_tokens (snd (rateStep r t cl)) = c_tokens (snd (rateStep r t cl'))"
    and "c_lastRefill (snd (rateStep r t cl)) = c_lastRefill (snd (rateStep r t cl'))"
  using assms by (simp_all add: rateStep_def Let_def)

lemma rateRun_cong:
  "c_tokens cl = c_tokens cl' \<Longrightarrow> c_lastRefill cl = c_lastRefill cl' \<Longrightarrow>
     fst (rateRun r ts cl) = fst (rateRun r ts cl')"
proof (induction ts arbitrary: cl cl')
  case (Cons t ts)
  from Cons.IH [OF rateStep_cong(2,3) [OF Cons.prems]] rateStep_cong(1) [OF Cons.prems, of r t]
  show ?case by (simp add: case_prod_beta)
qed simp

lemma readAll_rate:
  "(\<forall>x\<in>set rs. callbacks_keep (fst x) cb) \<Longrightarrow>
     \<exists>h'. readAll cb c rs h = Some h' \<and> same_registry h h' \<and> h_ctxDone h' = h_ctxDone h \<and>
       gauge recv_delta h' = gauge recv_delta h +
         int (allowed (fst (rateRun (MaxMessageRate (h_limits h)) (map (\<lambda>x. e_now (fst x)) rs) (h_mem h c))))"
proof (induction rs arbitrary: h)
  case Nil
  then show ?case by (simp add: allowed_def)
next
  case (Cons x rs)
  obtain e t d where x: "x = (e, t, d)" by (metis surj_pair)
  let ?r = "MaxMessageRate (h_limits h)"
  obtain ok cl where st: "rateStep ?r (e_now e) (h_mem h c) = (ok, cl)" by force
  have cb: "callbacks_keep e cb" using Cons.prems x by simp
  obtain h1 where h1: "readOne e cb c t d h = Some h1" "same_registry h h1" "h_ctxDone h1 = h_ctxDone h"
    "gauge recv_delta h1 = gauge recv_delta h + (if ok then 1 else 0)"
    "c_tokens (h_mem h1 c) = c_tokens cl" "c_lastRefill (h_mem h1 c) = c_lastRefill cl"
    using readOne_rate [OF cb st] by blast
  have l: "h_limits h1 = h_limits h" using h1(2) by (rule same_registryD)
  have "\<forall>x\<in>set rs. callbacks_keep (fst x) cb" using Cons.prems by simp
  from Cons.IH [OF this, of h1] obtain h' where h': "readAll cb c rs h1 = Some h'" "same_registry h1 h'" "h_ctxDone h' = h_ctxDone h1"
    "gauge recv_delta h' = gauge recv_delta h1 +
       int (allowed (fst (rateRun ?r (map (\<lambda>x. e_now (fst x)) rs) (h_mem h1 c))))" by (auto simp: l)
  have "fst (rateRun ?r (map (\<lambda>x. e_now (fst x)) rs) (h_mem h1 c)) = fst (rateRun ?r (map (\<lambda>x. e_now (fst x)) rs) cl)"
    using h1(5,6) by (rule rateRun_cong)
  then show ?case
    using x h1 h' st same_registry_trans [OF h1(2) h'(2)] by (simp add: allowed_def case_prod_beta)
qed

subsection \<open>Property\<close>


end
