(* ===== verification/Ws_WritePump.thy ===== *)
theory Ws_WritePump
  imports Ws_Send
begin

section \<open>The write pump (client.go: writePump, drainQueued, writeCoalescedBatch)\<close>

text \<open>
  The goroutine that moves messages from a client's send buffer to its connection. The
  connection belongs to gorilla/websocket; what the code relies on is that each call either
  succeeds or returns an error, that a successful \<open>WriteMessage\<close> sends one frame, and that
  the writer of \<open>NextWriter\<close> sends what was written to it as one frame when it is closed.
  \<open>fails k\<close> says whether the \<open>k\<close>-th call on the connection fails; every theorem holds for every
  such function unless it says otherwise. \<open>pu_wire\<close> is the list of complete frames sent.

  \<open>fmtClose\<close> stands for \<open>websocket.FormatCloseMessage\<close>.
\<close>

type_synonym frame = "int \<times> bytes"

record pump =
  pu_queue :: "sendItem list"
  pu_wire :: "frame list"
  pu_ops :: nat
  pu_metrics :: "metric list"

type_synonym conn = "nat \<Rightarrow> bool"

definition note_metric :: "metric \<Rightarrow> pump \<Rightarrow> pump" where
  "note_metric m p = p\<lparr>pu_metrics := pu_metrics p @ [m]\<rparr>"

definition connCall :: "conn \<Rightarrow> pump \<Rightarrow> bool \<times> pump" where
  "connCall fails p = (\<not> fails (pu_ops p), p\<lparr>pu_ops := Suc (pu_ops p)\<rparr>)"

definition setWriteDeadline :: "conn \<Rightarrow> pump \<Rightarrow> bool \<times> pump" where
  "setWriteDeadline fails p = connCall fails p"

definition writeMessage :: "conn \<Rightarrow> int \<Rightarrow> bytes \<Rightarrow> pump \<Rightarrow> bool \<times> pump" where
  "writeMessage fails t d p = (case connCall fails p of
       (True, p1) \<Rightarrow> (True, p1\<lparr>pu_wire := pu_wire p1 @ [(t, d)]\<rparr>)
     | (False, p1) \<Rightarrow> (False, p1))"

definition recvItem :: "pump \<Rightarrow> (sendItem \<times> pump) option" where
  "recvItem p = (case pu_queue p of [] \<Rightarrow> None | x # q \<Rightarrow> Some (x, p\<lparr>pu_queue := q\<rparr>))"

definition failWith :: "string \<Rightarrow> pump \<Rightarrow> bool \<times> pump" where
  "failWith t p = (False, note_metric (IncrementErrors t) p)"

subsection \<open>Writing one message per frame\<close>

text \<open>\<open>WriteMessage\<close>, its error metric and the sent counter.\<close>

definition writeOne :: "conn \<Rightarrow> sendItem \<Rightarrow> pump \<Rightarrow> bool \<times> pump" where
  "writeOne fails item p = (case writeMessage fails (si_msgType item) (si_data item) p of
       (False, p1) \<Rightarrow> failWith ''write_error'' p1
     | (True, p1) \<Rightarrow> (True, note_metric (IncrementMessagesSent 1) p1))"

fun drainLoop :: "conn \<Rightarrow> nat \<Rightarrow> pump \<Rightarrow> bool \<times> pump" where
  "drainLoop fails 0 p = (True, p)"
| "drainLoop fails (Suc n) p = (case recvItem p of
       None \<Rightarrow> (True, p)
     | Some (queued, p1) \<Rightarrow>
         (case writeOne fails queued p1 of
            (False, p2) \<Rightarrow> (False, p2)
          | (True, p2) \<Rightarrow> drainLoop fails n p2))"

definition drainQueued :: "conn \<Rightarrow> pump \<Rightarrow> bool \<times> pump" where
  "drainQueued fails p =
     (let n = length (pu_queue p) in
      if n = 0 then (True, p)
      else case setWriteDeadline fails p of
             (False, p1) \<Rightarrow> failWith ''write_deadline_error'' p1
           | (True, p1) \<Rightarrow> drainLoop fails n p1)"

subsection \<open>Coalescing text messages\<close>

text \<open>\<open>w.Close()\<close> of the open frame: it sends what was written.\<close>

definition flushFrame :: "conn \<Rightarrow> bytes \<Rightarrow> int \<Rightarrow> pump \<Rightarrow> bool \<times> pump" where
  "flushFrame fails buf sentCount p = (case connCall fails p of
       (False, p1) \<Rightarrow> failWith ''write_error'' p1
     | (True, p1) \<Rightarrow>
         (True, note_metric (IncrementMessagesSent sentCount)
                  (p1\<lparr>pu_wire := pu_wire p1 @ [(TextMessage, buf)]\<rparr>)))"

fun coalesceLoop :: "conn \<Rightarrow> nat \<Rightarrow> bytes \<Rightarrow> int \<Rightarrow> pump \<Rightarrow> bool \<times> pump" where
  "coalesceLoop fails 0 buf sentCount p = flushFrame fails buf sentCount p"
| "coalesceLoop fails (Suc n) buf sentCount p = (case recvItem p of
       None \<Rightarrow> flushFrame fails buf sentCount p
     | Some (queued, p1) \<Rightarrow>
         if si_msgType queued = TextMessage
         then (case connCall fails p1 of
                 (False, p2) \<Rightarrow> failWith ''write_error'' p2
               | (True, p2) \<Rightarrow>
                   (case connCall fails p2 of
                      (False, p3) \<Rightarrow> failWith ''write_error'' p3
                    | (True, p3) \<Rightarrow>
                        coalesceLoop fails n (buf @ [CHR 0x0A] @ si_data queued) (sentCount + 1) p3))
         else (case flushFrame fails buf sentCount p1 of
                 (False, p2) \<Rightarrow> (False, p2)
               | (True, p2) \<Rightarrow> writeOne fails queued p2))"

definition writeCoalescedBatch :: "conn \<Rightarrow> sendItem \<Rightarrow> nat \<Rightarrow> pump \<Rightarrow> bool \<times> pump" where
  "writeCoalescedBatch fails first n p = (case setWriteDeadline fails p of
       (False, p1) \<Rightarrow> failWith ''write_deadline_error'' p1
     | (True, p1) \<Rightarrow>
         (case connCall fails p1 of
            (False, p2) \<Rightarrow> failWith ''write_error'' p2
          | (True, p2) \<Rightarrow>
              (case connCall fails p2 of
                 (False, p3) \<Rightarrow> failWith ''write_error'' p3
               | (True, p3) \<Rightarrow> coalesceLoop fails n (si_data first) 1 p3)))"

definition drainQueuedCoalesced :: "conn \<Rightarrow> sendItem \<Rightarrow> pump \<Rightarrow> bool \<times> pump" where
  "drainQueuedCoalesced fails first p =
     (let n = length (pu_queue p) in
      if n = 0 \<or> si_msgType first \<noteq> TextMessage
      then (case writeOne fails first p of
              (False, p1) \<Rightarrow> (False, p1)
            | (True, p1) \<Rightarrow> if n = 0 then (True, p1) else drainQueued fails p1)
      else writeCoalescedBatch fails first n p)"

subsection \<open>The pump\<close>

definition writeCloseFrame :: "(int \<Rightarrow> string \<Rightarrow> bytes) \<Rightarrow> conn \<Rightarrow> int \<Rightarrow> string \<Rightarrow> pump \<Rightarrow> pump" where
  "writeCloseFrame fmtClose fails code reason p = (case setWriteDeadline fails p of
       (False, p1) \<Rightarrow> note_metric (IncrementErrors ''write_deadline_error'') p1
     | (True, p1) \<Rightarrow>
         snd (writeMessage fails CloseMessage (if code \<noteq> 0 then fmtClose code reason else []) p1))"

text \<open>The cases of the \<open>select\<close>: \<open>done\<close> closed, a message received, the ping ticker.\<close>

datatype pumpEvent = PumpDone | PumpItem | PumpTick

text \<open>One iteration; the flag says whether the pump goes on. \<open>cl\<close> holds the client's
  configuration, close code and \<open>graceful\<close>. A \<open>PumpItem\<close> event needs a queued message.\<close>

definition writePumpStep :: "(int \<Rightarrow> string \<Rightarrow> bytes) \<Rightarrow> conn \<Rightarrow> client \<Rightarrow> pumpEvent \<Rightarrow> pump \<Rightarrow> bool \<times> pump" where
  "writePumpStep fmtClose fails cl ev p = (case ev of
       PumpDone \<Rightarrow>
         if c_graceful cl
         then (False, writeCloseFrame fmtClose fails (c_closeCode cl) (c_closeReason cl) (snd (drainQueued fails p)))
         else (False, p)
     | PumpItem \<Rightarrow>
         (case recvItem p of
            None \<Rightarrow> (True, p)
          | Some (item, p1) \<Rightarrow>
              (case setWriteDeadline fails p1 of
                 (False, p2) \<Rightarrow> failWith ''write_deadline_error'' p2
               | (True, p2) \<Rightarrow>
                   if CoalesceWrites (c_config cl) then drainQueuedCoalesced fails item p2
                   else (case writeOne fails item p2 of
                           (False, p3) \<Rightarrow> (False, p3)
                         | (True, p3) \<Rightarrow> drainQueued fails p3)))
     | PumpTick \<Rightarrow>
         (case setWriteDeadline fails p of
            (False, p1) \<Rightarrow> failWith ''write_deadline_error'' p1
          | (True, p1) \<Rightarrow>
              (case writeMessage fails PingMessage [] p1 of
                 (False, p2) \<Rightarrow> failWith ''ping_error'' p2
               | (True, p2) \<Rightarrow> (True, p2))))"

text \<open>The loop, driven by the sequence of events and of messages that arrive between them; the
  flag says whether the pump is still running. \<open>cl\<close> is the client as the pump reads it: its
  configuration never changes, and close code, reason and \<open>graceful\<close> are read when \<open>done\<close> is
  found closed, after \<open>CloseWithCode\<close> has set them.\<close>

fun writeLoop :: "(int \<Rightarrow> string \<Rightarrow> bytes) \<Rightarrow> conn \<Rightarrow> client \<Rightarrow> (sendItem list \<times> pumpEvent) list \<Rightarrow> pump \<Rightarrow> bool \<times> pump" where
  "writeLoop fmtClose fails cl [] p = (True, p)"
| "writeLoop fmtClose fails cl ((arrived, ev) # evs) p =
     (case writePumpStep fmtClose fails cl ev (p\<lparr>pu_queue := pu_queue p @ arrived\<rparr>) of
        (False, p1) \<Rightarrow> (False, p1)
      | (True, p1) \<Rightarrow> writeLoop fmtClose fails cl evs p1)"

text \<open>The pump with its deferred \<open>closeConn\<close>.\<close>

definition writePump :: "(int \<Rightarrow> string \<Rightarrow> bytes) \<Rightarrow> conn \<Rightarrow> client \<Rightarrow> (sendItem list \<times> pumpEvent) list \<Rightarrow> pump \<Rightarrow> pump \<times> client" where
  "writePump fmtClose fails cl evs p = (case writeLoop fmtClose fails cl evs p of
       (running, p1) \<Rightarrow> (p1, if running then cl else closeConn cl))"

subsection \<open>Which messages a frame carries\<close>

definition joinNL :: "bytes list \<Rightarrow> bytes" where
  "joinNL ds = (case ds of [] \<Rightarrow> [] | d # ds \<Rightarrow> d @ concat (map (\<lambda>x. CHR 0x0A # x) ds))"

text \<open>A control frame carries no message, a plain frame one, a coalesced frame several text
  messages joined by newlines.\<close>

definition carriesFrame :: "frame \<Rightarrow> sendItem list \<Rightarrow> bool" where
  "carriesFrame f xs \<longleftrightarrow>
     xs = [] \<and> fst f \<in> {PingMessage, CloseMessage} \<or>
     (\<exists>x. xs = [x] \<and> f = (si_msgType x, si_data x)) \<or>
     xs \<noteq> [] \<and> (\<forall>x\<in>set xs. si_msgType x = TextMessage) \<and> f = (TextMessage, joinNL (map si_data xs))"

definition carried :: "frame list \<Rightarrow> sendItem list \<Rightarrow> bool" where
  "carried frs ms \<longleftrightarrow> (\<exists>gs. list_all2 carriesFrame frs gs \<and> ms = concat gs)"

definition sentOf :: "pump \<Rightarrow> int" where
  "sentOf p = tally sent_delta (pu_metrics p)"

text \<open>From \<open>p\<close> to \<open>p'\<close> frames carrying exactly \<open>ms\<close> were sent and counted.\<close>

definition wrote :: "sendItem list \<Rightarrow> pump \<Rightarrow> pump \<Rightarrow> bool" where
  "wrote ms p p' \<longleftrightarrow> (\<exists>frs. carried frs ms \<and> pu_wire p' = pu_wire p @ frs) \<and>
     sentOf p' = sentOf p + int (length ms)"

lemma carried_Nil [simp]: "carried [] []"
  by (simp add: carried_def)

lemma carried_append: "carried frs ms \<Longrightarrow> carried frs' ms' \<Longrightarrow> carried (frs @ frs') (ms @ ms')"
  unfolding carried_def by (metis concat_append list_all2_appendI)

lemma carried_single: "carriesFrame f xs \<Longrightarrow> carried [f] xs"
  unfolding carried_def by (intro exI [where x = "[xs]"]) simp

lemma wrote_trans: "wrote ms p p1 \<Longrightarrow> wrote ms' p1 p2 \<Longrightarrow> wrote (ms @ ms') p p2"
  unfolding wrote_def using carried_append by fastforce

lemma wrote_none: "pu_wire p' = pu_wire p \<Longrightarrow> sentOf p' = sentOf p \<Longrightarrow> wrote [] p p'"
  by (simp add: wrote_def)

lemma wrote_frame:
  "carriesFrame f xs \<Longrightarrow> pu_wire p' = pu_wire p @ [f] \<Longrightarrow> sentOf p' = sentOf p + int (length xs) \<Longrightarrow> wrote xs p p'"
  unfolding wrote_def using carried_single by auto

lemmas pump_unfold = connCall_def setWriteDeadline_def failWith_def note_metric_def sentOf_def

text \<open>The outcome of a function that takes messages off \<open>src\<close>: what was written, what was lost
  to a connection error, what is left.\<close>

definition progress :: "conn \<Rightarrow> sendItem list \<Rightarrow> pump \<Rightarrow> bool \<times> pump \<Rightarrow> bool" where
  "progress fails src p r \<longleftrightarrow> (\<exists>ms lost. wrote ms p (snd r) \<and> src = ms @ lost @ pu_queue (snd r) \<and>
     (fst r \<longrightarrow> lost = []) \<and> ((\<forall>k. \<not> fails k) \<longrightarrow> fst r))"

lemma progressI:
  "wrote ms p p' \<Longrightarrow> src = ms @ lost @ pu_queue p' \<Longrightarrow> (ok \<Longrightarrow> lost = []) \<Longrightarrow> ((\<forall>k. \<not> fails k) \<Longrightarrow> ok) \<Longrightarrow>
     progress fails src p (ok, p')"
  unfolding progress_def by auto

lemma progress_after:
  assumes "wrote ms p p1" and "progress fails src p1 r"
  shows "progress fails (ms @ src) p r"
  using assms(2) wrote_trans [OF assms(1)] unfolding progress_def by fastforce

lemma connCall_cases [consumes 1]:
  assumes "connCall fails p = (ok, p1)"
  obtains "ok \<longleftrightarrow> \<not> fails (pu_ops p)" "pu_queue p1 = pu_queue p" "pu_wire p1 = pu_wire p"
    "pu_metrics p1 = pu_metrics p" "wrote [] p p1"
  using assms by (intro that) (auto simp: connCall_def wrote_def sentOf_def)

lemma progress_fail:
  assumes "connCall fails p = (False, p1)" and "pu_wire p = pu_wire p0" "sentOf p = sentOf p0"
    and "src = lost @ pu_queue p"
  shows "progress fails src p0 (failWith t p1)"
  using assms(1)
proof (cases rule: connCall_cases)
  case 1
  then show ?thesis
    using assms(2-4) unfolding failWith_def
    by (intro progressI [where ms = "[]" and lost = lost])
      (auto simp: note_metric_def sentOf_def intro!: wrote_none)
qed

lemma writeOne_progress:
  "progress fails (item # pu_queue p) p (writeOne fails item p)"
  "fst (writeOne fails item p) \<Longrightarrow> wrote [item] p (snd (writeOne fails item p)) \<and>
     pu_queue (snd (writeOne fails item p)) = pu_queue p"
proof -
  obtain ok p1 where c: "connCall fails p = (ok, p1)" by force
  have w: "wrote [item] p (snd (writeOne fails item p)) \<and> pu_queue (snd (writeOne fails item p)) = pu_queue p
      \<and> fst (writeOne fails item p)" if ok
    using c that
    by (auto simp: writeOne_def writeMessage_def note_metric_def connCall_def sentOf_def carriesFrame_def
        intro!: wrote_frame [where f = "(si_msgType item, si_data item)"])
  have f: "writeOne fails item p = failWith ''write_error'' p1" if "\<not> ok"
    using c that by (simp add: writeOne_def writeMessage_def)
  show "fst (writeOne fails item p) \<Longrightarrow> wrote [item] p (snd (writeOne fails item p)) \<and>
     pu_queue (snd (writeOne fails item p)) = pu_queue p"
    using w f by (cases ok) (auto simp: failWith_def)
  show "progress fails (item # pu_queue p) p (writeOne fails item p)"
  proof (cases ok)
    case True
    with w show ?thesis unfolding progress_def by (intro exI [where x = "[item]"] exI [where x = "[]"]) simp
  next
    case False
    with f c show ?thesis by (auto intro!: progress_fail [where lost = "[item]"])
  qed
qed

lemma drainLoop_progress: "progress fails (pu_queue p) p (drainLoop fails n p)"
proof (induction n arbitrary: p)
  case 0
  then show ?case by (auto intro!: progressI [where ms = "[]" and lost = "[]"] wrote_none)
next
  case (Suc n)
  show ?case
  proof (cases "pu_queue p")
    case Nil
    then show ?thesis by (auto simp: recvItem_def intro!: progressI [where ms = "[]" and lost = "[]"] wrote_none)
  next
    case (Cons x q)
    let ?p1 = "p\<lparr>pu_queue := q\<rparr>"
    have n1: "wrote [] p ?p1" by (rule wrote_none) (simp_all add: sentOf_def)
    obtain ok p2 where w: "writeOne fails x ?p1 = (ok, p2)" by force
    show ?thesis
    proof (cases ok)
      case True
      then have "wrote [x] p p2" "pu_queue p2 = q"
        using writeOne_progress(2) [of fails x ?p1] w wrote_trans [OF n1, of "[x]" p2] by auto
      with Suc [of p2] have "progress fails ([x] @ q) p (drainLoop fails n p2)"
        by (intro progress_after [of "[x]"]) simp_all
      then show ?thesis using True w Cons by (simp add: recvItem_def)
    next
      case False
      have "progress fails ([] @ x # q) p (False, p2)"
        using writeOne_progress(1) [of fails x ?p1] w False by (intro progress_after [OF n1]) simp
      then show ?thesis using False w Cons by (simp add: recvItem_def)
    qed
  qed
qed

lemma drainLoop_all: "fst (drainLoop fails n p) \<Longrightarrow> length (pu_queue p) \<le> n \<Longrightarrow> pu_queue (snd (drainLoop fails n p)) = []"
proof (induction n arbitrary: p)
  case (Suc n)
  show ?case
  proof (cases "pu_queue p")
    case (Cons x q)
    let ?p1 = "p\<lparr>pu_queue := q\<rparr>"
    obtain ok p2 where w: "writeOne fails x ?p1 = (ok, p2)" by force
    then have ok using Suc.prems(1) Cons by (cases ok) (auto simp: recvItem_def)
    then have "pu_queue p2 = q" using writeOne_progress(2) [of fails x ?p1] w by simp
    then show ?thesis using Suc Cons w \<open>ok\<close> by (simp add: recvItem_def)
  qed (simp add: recvItem_def)
qed simp

lemma drainQueued_progress: "progress fails (pu_queue p) p (drainQueued fails p)"
proof (cases "pu_queue p = []")
  case True
  then show ?thesis
    by (auto simp: drainQueued_def intro!: progressI [where ms = "[]" and lost = "[]"] wrote_none)
next
  case False
  obtain ok p1 where c: "connCall fails p = (ok, p1)" by force
  show ?thesis
  proof (cases ok)
    case True
    have "progress fails ([] @ pu_queue p1) p (drainLoop fails (length (pu_queue p)) p1)"
      using c by (intro progress_after [OF _ drainLoop_progress]) (auto elim: connCall_cases)
    then show ?thesis
      using True False c by (auto simp: drainQueued_def setWriteDeadline_def elim: connCall_cases)
  next
    case f: False
    then show ?thesis
      using False c by (auto simp: drainQueued_def setWriteDeadline_def intro!: progress_fail [where lost = "[]"])
  qed
qed

lemma drainQueued_all: "fst (drainQueued fails p) \<Longrightarrow> pu_queue (snd (drainQueued fails p)) = []"
  using drainLoop_all [of fails "length (pu_queue p)" "p\<lparr>pu_ops := Suc (pu_ops p)\<rparr>"]
  by (auto simp: drainQueued_def pump_unfold split: if_splits prod.splits bool.splits)

lemma joinNL_snoc: "ds \<noteq> [] \<Longrightarrow> joinNL (ds @ [d]) = joinNL ds @ [CHR 0x0A] @ d"
  by (cases ds) (simp_all add: joinNL_def)

text \<open>An open frame: the text messages written to it so far.\<close>

definition openFrame :: "sendItem list \<Rightarrow> bytes \<Rightarrow> int \<Rightarrow> bool" where
  "openFrame pend buf sentCount \<longleftrightarrow> pend \<noteq> [] \<and> (\<forall>x\<in>set pend. si_msgType x = TextMessage) \<and>
     buf = joinNL (map si_data pend) \<and> sentCount = int (length pend)"

lemma openFrame_snoc:
  "openFrame pend buf k \<Longrightarrow> si_msgType x = TextMessage \<Longrightarrow>
     openFrame (pend @ [x]) (buf @ [CHR 0x0A] @ si_data x) (k + 1)"
  using joinNL_snoc [of "map si_data pend" "si_data x"] by (auto simp: openFrame_def)

lemma flushFrame_progress:
  assumes "openFrame pend buf k"
  shows "progress fails (pend @ pu_queue p) p (flushFrame fails buf k p)"
    and "fst (flushFrame fails buf k p) \<Longrightarrow> wrote pend p (snd (flushFrame fails buf k p)) \<and>
      pu_queue (snd (flushFrame fails buf k p)) = pu_queue p"
proof -
  obtain ok p1 where c: "connCall fails p = (ok, p1)" by force
  have w: "wrote pend p (snd (flushFrame fails buf k p)) \<and> pu_queue (snd (flushFrame fails buf k p)) = pu_queue p
      \<and> fst (flushFrame fails buf k p)" if ok
    using c that assms
    by (auto simp: flushFrame_def note_metric_def connCall_def sentOf_def carriesFrame_def openFrame_def
        intro!: wrote_frame [where f = "(TextMessage, buf)"])
  have f: "flushFrame fails buf k p = failWith ''write_error'' p1" if "\<not> ok"
    using c that by (simp add: flushFrame_def)
  show "fst (flushFrame fails buf k p) \<Longrightarrow> wrote pend p (snd (flushFrame fails buf k p)) \<and>
      pu_queue (snd (flushFrame fails buf k p)) = pu_queue p"
    using w f by (cases ok) (auto simp: failWith_def)
  show "progress fails (pend @ pu_queue p) p (flushFrame fails buf k p)"
  proof (cases ok)
    case True
    with w show ?thesis unfolding progress_def by (intro exI [where x = pend] exI [where x = "[]"]) simp
  next
    case False
    with f c show ?thesis by (auto intro!: progress_fail [where lost = pend])
  qed
qed

lemma coalesceLoop_progress:
  "openFrame pend buf k \<Longrightarrow> progress fails (pend @ pu_queue p) p (coalesceLoop fails n buf k p)"
proof (induction n arbitrary: pend buf k p)
  case 0
  then show ?case using flushFrame_progress(1) by simp
next
  case (Suc n)
  show ?case
  proof (cases "pu_queue p")
    case Nil
    then show ?thesis using flushFrame_progress(1) [OF Suc.prems, of fails p] by (simp add: recvItem_def)
  next
    case (Cons x q)
    let ?p1 = "p\<lparr>pu_queue := q\<rparr>"
    have n1: "wrote [] p ?p1" by (rule wrote_none) (simp_all add: sentOf_def)
    obtain ok2 p2 where c2: "connCall fails ?p1 = (ok2, p2)" by force
    obtain ok3 p3 where c3: "connCall fails p2 = (ok3, p3)" by force
    have n2: "wrote [] ?p1 p2" "pu_queue p2 = q" "pu_wire p2 = pu_wire p" "sentOf p2 = sentOf p"
      using c2 by (auto simp: sentOf_def elim: connCall_cases)
    have n3: "wrote [] p2 p3" "pu_queue p3 = q" using c3 n2(2) by (auto elim: connCall_cases)
    show ?thesis
    proof (cases "si_msgType x = TextMessage")
      case is_text: True
      show ?thesis
      proof (cases "ok2 \<and> ok3")
        case True
        note IH = Suc.IH [OF openFrame_snoc [OF Suc.prems is_text], of p3]
        have "wrote [] p p3" using wrote_trans [OF wrote_trans [OF n1 n2(1)] n3(1)] by simp
        from progress_after [OF this IH] True is_text Cons c2 c3 n3(2) show ?thesis by (simp add: recvItem_def)
      next
        case False
        have "progress fails (pend @ x # q) p (failWith ''write_error'' p2)" if "\<not> ok2"
          using c2 that by (intro progress_fail [where lost = "pend @ [x]" and p = ?p1]) (auto simp: sentOf_def)
        moreover have "progress fails (pend @ x # q) p (failWith ''write_error'' p3)" if "ok2" "\<not> ok3"
          using c3 that n2 by (intro progress_fail [where lost = "pend @ [x]" and p = p2]) auto
        ultimately show ?thesis
          using False is_text Cons c2 c3 by (cases ok2) (auto simp: recvItem_def)
      qed
    next
      case other: False
      obtain ok4 p4 where f4: "flushFrame fails buf k ?p1 = (ok4, p4)" by force
      note fl = flushFrame_progress [OF Suc.prems, of fails ?p1]
      show ?thesis
      proof (cases ok4)
        case True
        have "wrote pend p p4" "pu_queue p4 = q"
          using fl(2) f4 True wrote_trans [OF n1, of pend p4] by auto
        with progress_after [OF this(1) writeOne_progress(1) [of fails x p4]] show ?thesis
          using True f4 other Cons by (simp add: recvItem_def)
      next
        case False
        have "flushFrame fails buf k ?p1 = failWith ''write_error'' p2" "\<not> ok2"
          using f4 False c2 by (auto simp: flushFrame_def split: bool.splits)
        then have "progress fails (pend @ x # q) p (False, p4)"
          using c2 f4 False progress_fail [of fails ?p1 p2 p "pend @ x # q" "pend @ [x]" "''write_error''"]
          by (simp add: sentOf_def)
        then show ?thesis using other Cons f4 False by (simp add: recvItem_def)
      qed
    qed
  qed
qed

lemma writeCoalescedBatch_progress:
  assumes "si_msgType first = TextMessage"
  shows "progress fails (first # pu_queue p) p (writeCoalescedBatch fails first n p)"
proof -
  obtain ok1 p1 where c1: "connCall fails p = (ok1, p1)" by force
  obtain ok2 p2 where c2: "connCall fails p1 = (ok2, p2)" by force
  obtain ok3 p3 where c3: "connCall fails p2 = (ok3, p3)" by force
  have n1: "wrote [] p p1" "pu_queue p1 = pu_queue p" "pu_wire p1 = pu_wire p" "sentOf p1 = sentOf p"
    using c1 by (auto simp: sentOf_def elim: connCall_cases)
  have n2: "wrote [] p1 p2" "pu_queue p2 = pu_queue p" "pu_wire p2 = pu_wire p" "sentOf p2 = sentOf p"
    using c2 n1 by (auto simp: sentOf_def elim: connCall_cases)
  have n3: "wrote [] p2 p3" "pu_queue p3 = pu_queue p" using c3 n2 by (auto elim: connCall_cases)
  have op: "openFrame [first] (si_data first) 1" using assms by (simp add: openFrame_def joinNL_def)
  have "wrote [] p p3" using wrote_trans [OF wrote_trans [OF n1(1) n2(1)] n3(1)] by simp
  from progress_after [OF this coalesceLoop_progress [OF op, of fails p3 n]]
  have go: "progress fails (first # pu_queue p) p (coalesceLoop fails n (si_data first) 1 p3)" using n3 by simp
  have "progress fails (first # pu_queue p) p (failWith t p1)" if "\<not> ok1" for t
    using c1 that by (intro progress_fail [where lost = "[first]"]) auto
  moreover have "progress fails (first # pu_queue p) p (failWith t p2)" if "\<not> ok2" for t
    using c2 that n1 by (intro progress_fail [where lost = "[first]" and p = p1]) auto
  moreover have "progress fails (first # pu_queue p) p (failWith t p3)" if "\<not> ok3" for t
    using c3 that n2 by (intro progress_fail [where lost = "[first]" and p = p2]) auto
  ultimately show ?thesis
    using go c1 c2 c3
    by (cases ok1; cases ok2; cases ok3) (simp_all add: writeCoalescedBatch_def setWriteDeadline_def)
qed

lemma writeThenDrain_progress:
  assumes "writeOne fails item p = (True, p1)"
  shows "progress fails (item # pu_queue p) p (drainQueued fails p1)"
  using progress_after [OF _ drainQueued_progress, of "[item]" p p1 fails] writeOne_progress(2) [of fails item p] assms
  by simp

lemma drainQueuedCoalesced_progress:
  "progress fails (item # pu_queue p) p (drainQueuedCoalesced fails item p)"
proof (cases "length (pu_queue p) = 0 \<or> si_msgType item \<noteq> TextMessage")
  case True
  obtain ok p1 where w: "writeOne fails item p = (ok, p1)" by force
  show ?thesis
    using True writeOne_progress(1) [of fails item p] w writeThenDrain_progress [of fails item p p1]
    by (cases ok) (auto simp: drainQueuedCoalesced_def Let_def)
next
  case False
  then show ?thesis using writeCoalescedBatch_progress by (simp add: drainQueuedCoalesced_def Let_def)
qed

subsection \<open>The pump delivers in order\<close>

lemma writePumpStep_item:
  "progress fails (pu_queue p) p (writePumpStep fmtClose fails cl PumpItem p)"
proof (cases "pu_queue p")
  case Nil
  then show ?thesis
    by (auto simp: writePumpStep_def recvItem_def intro!: progressI [where ms = "[]" and lost = "[]"] wrote_none)
next
  case (Cons x q)
  let ?p1 = "p\<lparr>pu_queue := q\<rparr>"
  obtain ok p2 where c: "connCall fails ?p1 = (ok, p2)" by force
  have n2: "pu_queue p2 = q" "wrote [] p p2"
    using c by (auto simp: wrote_def sentOf_def elim: connCall_cases)
  have "progress fails (x # q) p2 (if CoalesceWrites (c_config cl) then drainQueuedCoalesced fails x p2
      else (case writeOne fails x p2 of (False, p3) \<Rightarrow> (False, p3) | (True, p3) \<Rightarrow> drainQueued fails p3))"
  proof (cases "CoalesceWrites (c_config cl)")
    case True
    then show ?thesis using drainQueuedCoalesced_progress [of fails x p2] n2 by simp
  next
    case False
    obtain ok3 p3 where w: "writeOne fails x p2 = (ok3, p3)" by force
    show ?thesis
      using False writeOne_progress(1) [of fails x p2] writeThenDrain_progress [of fails x p2 p3] w n2
      by (cases ok3) simp_all
  qed
  from progress_after [OF n2(2) this] have "progress fails (x # q) p (writePumpStep fmtClose fails cl PumpItem p)" if ok
    using that c Cons by (simp add: writePumpStep_def recvItem_def setWriteDeadline_def)
  moreover have "progress fails (x # q) p (writePumpStep fmtClose fails cl PumpItem p)" if "\<not> ok"
    using that c Cons progress_fail [of fails ?p1 p2 p "x # q" "[x]" "''write_deadline_error''"]
    by (simp add: writePumpStep_def recvItem_def setWriteDeadline_def sentOf_def)
  ultimately show ?thesis using Cons by auto
qed

lemma writePumpStep_tick:
  "progress fails (pu_queue p) p (writePumpStep fmtClose fails cl PumpTick p)"
proof -
  obtain ok1 p1 where c1: "connCall fails p = (ok1, p1)" by force
  obtain ok2 p2 where c2: "connCall fails p1 = (ok2, p2)" by force
  have n1: "pu_queue p1 = pu_queue p" "pu_wire p1 = pu_wire p" "sentOf p1 = sentOf p"
    using c1 by (auto simp: sentOf_def elim: connCall_cases)
  have "progress fails (pu_queue p) p (failWith t p1)" if "\<not> ok1" for t
    using c1 that by (intro progress_fail [where lost = "[]" and p = p]) auto
  moreover have "progress fails (pu_queue p) p (failWith t p2)" if "\<not> ok2" for t
    using c2 that n1 by (intro progress_fail [where lost = "[]" and p = p1]) auto
  moreover have "progress fails (pu_queue p) p (True, p2\<lparr>pu_wire := pu_wire p2 @ [(PingMessage, [])]\<rparr>)"
  proof (rule progressI [where ms = "[]" and lost = "[]"])
    show "wrote [] p (p2\<lparr>pu_wire := pu_wire p2 @ [(PingMessage, [])]\<rparr>)"
      using n1 c2 by (intro wrote_frame [where f = "(PingMessage, [])"])
        (auto simp: carriesFrame_def sentOf_def elim: connCall_cases)
  qed (use n1 c2 in \<open>auto elim: connCall_cases\<close>)
  ultimately show ?thesis
    using c1 c2 by (cases ok1; cases ok2) (simp_all add: writePumpStep_def setWriteDeadline_def writeMessage_def)
qed

lemma writeCloseFrame_wrote:
  "wrote [] p (writeCloseFrame fmtClose fails code reason p)"
  "pu_queue (writeCloseFrame fmtClose fails code reason p) = pu_queue p"
proof -
  obtain ok1 p1 where c1: "connCall fails p = (ok1, p1)" by force
  obtain ok2 p2 where c2: "connCall fails p1 = (ok2, p2)" by force
  have n1: "pu_queue p1 = pu_queue p" "pu_wire p1 = pu_wire p" "sentOf p1 = sentOf p"
    using c1 by (auto simp: sentOf_def elim: connCall_cases)
  have n2: "pu_queue p2 = pu_queue p" "pu_wire p2 = pu_wire p" "sentOf p2 = sentOf p"
    using c2 n1 by (auto simp: sentOf_def elim: connCall_cases)
  let ?d = "if code \<noteq> 0 then fmtClose code reason else []"
  have "wrote [] p (p2\<lparr>pu_wire := pu_wire p2 @ [(CloseMessage, ?d)]\<rparr>)"
    by (intro wrote_frame [where f = "(CloseMessage, ?d)"]) (use n2 in \<open>auto simp: carriesFrame_def sentOf_def\<close>)
  then show "wrote [] p (writeCloseFrame fmtClose fails code reason p)"
    "pu_queue (writeCloseFrame fmtClose fails code reason p) = pu_queue p"
    using c1 c2 n1 n2
    by (cases ok1; cases ok2; simp add: writeCloseFrame_def setWriteDeadline_def writeMessage_def
        note_metric_def sentOf_def wrote_none)+
qed

lemma writePumpStep_done:
  "\<exists>ms lost. wrote ms p (snd (writePumpStep fmtClose fails cl PumpDone p)) \<and>
     pu_queue p = ms @ lost @ pu_queue (snd (writePumpStep fmtClose fails cl PumpDone p)) \<and>
     ((\<forall>k. \<not> fails k) \<longrightarrow> lost = [])"
proof (cases "c_graceful cl")
  case True
  let ?d = "drainQueued fails p"
  obtain ms lost where d: "wrote ms p (snd ?d)" "pu_queue p = ms @ lost @ pu_queue (snd ?d)"
    "(\<forall>k. \<not> fails k) \<longrightarrow> lost = []"
    using drainQueued_progress [of fails p] by (auto simp: progress_def)
  note cf = writeCloseFrame_wrote [where p = "snd ?d" and fmtClose = fmtClose and fails = fails
      and code = "c_closeCode cl" and reason = "c_closeReason cl"]
  from wrote_trans [OF d(1) cf(1)] d cf(2) True show ?thesis
    by (intro exI [where x = ms] exI [where x = lost]) (simp add: writePumpStep_def)
next
  case False
  then show ?thesis by (auto simp: writePumpStep_def intro!: wrote_none)
qed

text \<open>Every step writes a prefix of the queue, and loses messages only when the connection
  fails.\<close>

lemma writePumpStep_prefix:
  "\<exists>ms lost. wrote ms p (snd (writePumpStep fmtClose fails cl ev p)) \<and>
     pu_queue p = ms @ lost @ pu_queue (snd (writePumpStep fmtClose fails cl ev p)) \<and>
     (fst (writePumpStep fmtClose fails cl ev p) \<or> (\<forall>k. \<not> fails k) \<longrightarrow> lost = [])"
proof (cases ev)
  case PumpDone
  have "\<not> fst (writePumpStep fmtClose fails cl PumpDone p)" by (simp add: writePumpStep_def)
  with PumpDone writePumpStep_done [of p fmtClose fails cl] show ?thesis by auto
next
  case PumpItem
  with writePumpStep_item [of fails p fmtClose cl] show ?thesis by (auto simp: progress_def)
next
  case PumpTick
  with writePumpStep_tick [of fails p fmtClose cl] show ?thesis by (auto simp: progress_def)
qed

lemma wrote_arrived: "wrote ms (p\<lparr>pu_queue := q\<rparr>) p' \<Longrightarrow> wrote ms p p'"
  by (simp add: wrote_def sentOf_def)

lemma writeLoop_prefix:
  "\<exists>n ms lost. n \<le> length evs \<and> wrote ms p (snd (writeLoop fmtClose fails cl evs p)) \<and>
     pu_queue p @ concat (map fst (take n evs)) = ms @ lost @ pu_queue (snd (writeLoop fmtClose fails cl evs p)) \<and>
     ((\<forall>k. \<not> fails k) \<longrightarrow> lost = [])"
proof (induction evs arbitrary: p)
  case Nil
  then show ?case
    by (intro exI [where x = 0] exI [where x = "[]"]) (auto intro: wrote_none)
next
  case (Cons ae evs)
  obtain arrived ev where ae: "ae = (arrived, ev)" by force
  let ?p0 = "p\<lparr>pu_queue := pu_queue p @ arrived\<rparr>"
  obtain ok p1 where st: "writePumpStep fmtClose fails cl ev ?p0 = (ok, p1)" by force
  obtain ms lost where s: "wrote ms ?p0 p1" "pu_queue ?p0 = ms @ lost @ pu_queue p1"
    "ok \<or> (\<forall>k. \<not> fails k) \<longrightarrow> lost = []" 
    using writePumpStep_prefix [of ?p0 fmtClose fails cl ev] unfolding st fst_conv snd_conv by blast
  have w: "wrote ms p p1" using s(1) by (rule wrote_arrived)
  show ?case
  proof (cases ok)
    case False
    then have "snd (writeLoop fmtClose fails cl (ae # evs) p) = p1" using ae st by simp
    with w s show ?thesis by (intro exI [where x = 1] exI [where x = ms] exI [where x = lost]) (auto simp: ae)
  next
    case True
    let ?p' = "snd (writeLoop fmtClose fails cl evs p1)"
    obtain n ms' lost' where IH: "n \<le> length evs" "wrote ms' p1 ?p'"
      "pu_queue p1 @ concat (map fst (take n evs)) = ms' @ lost' @ pu_queue ?p'" "(\<forall>k. \<not> fails k) \<longrightarrow> lost' = []"
      using Cons.IH [of p1] by blast
    have r: "snd (writeLoop fmtClose fails cl (ae # evs) p) = ?p'" using True ae st by simp
    have "pu_queue p @ arrived = ms @ pu_queue p1" using s(2,3) True by simp
    then have "pu_queue p @ concat (map fst (take (Suc n) (ae # evs))) =
        ms @ pu_queue p1 @ concat (map fst (take n evs))" by (simp add: ae append_assoc [symmetric] del: append_assoc)
    then have "pu_queue p @ concat (map fst (take (Suc n) (ae # evs))) = (ms @ ms') @ lost' @ pu_queue ?p'"
      by (simp only: IH(3) append_assoc)
    with wrote_trans [OF w IH(2)] IH(1,4) show ?thesis unfolding r
      by (intro exI [where x = "Suc n"] exI [where x = "ms @ ms'"] exI [where x = lost']) simp
  qed
qed

subsection \<open>Reading coalesced frames\<close>

text \<open>What a peer does with a coalesced stream: it splits text frames at newlines.\<close>

fun splitNL :: "bytes \<Rightarrow> bytes list" where
  "splitNL [] = [[]]"
| "splitNL (ch # s) =
     (if ch = CHR 0x0A then [] # splitNL s else (case splitNL s of [] \<Rightarrow> [[ch]] | d # ds \<Rightarrow> (ch # d) # ds))"

definition readFrame :: "frame \<Rightarrow> sendItem list" where
  "readFrame f = (if fst f \<in> {PingMessage, CloseMessage} then []
     else if fst f = TextMessage then map (\<lambda>d. \<lparr>si_msgType = TextMessage, si_data = d\<rparr>) (splitNL (snd f))
     else [\<lparr>si_msgType = fst f, si_data = snd f\<rparr>])"

definition readStream :: "frame list \<Rightarrow> sendItem list" where
  "readStream frs = concat (map readFrame frs)"

definition plainItem :: "sendItem \<Rightarrow> bool" where
  "plainItem x \<longleftrightarrow> si_msgType x \<notin> {PingMessage, CloseMessage} \<and>
     (si_msgType x = TextMessage \<longrightarrow> CHR 0x0A \<notin> set (si_data x))"

lemma splitNL_plain: "CHR 0x0A \<notin> set d \<Longrightarrow> splitNL d = [d]"
  by (induction d) auto

lemma splitNL_nonempty: "splitNL s \<noteq> []"
  by (cases s) (auto split: list.split)

lemma splitNL_line: "CHR 0x0A \<notin> set d \<Longrightarrow> splitNL (d @ CHR 0x0A # s) = d # splitNL s"
  by (induction d) auto

lemma splitNL_joinNL:
  "ds \<noteq> [] \<Longrightarrow> (\<forall>d\<in>set ds. CHR 0x0A \<notin> set d) \<Longrightarrow> splitNL (joinNL ds) = ds"
proof (induction ds rule: list_nonempty_induct)
  case (single d)
  then show ?case by (simp add: joinNL_def splitNL_plain)
next
  case (cons d ds)
  have "joinNL (d # ds) = d @ CHR 0x0A # joinNL ds" using cons.hyps by (cases ds) (simp_all add: joinNL_def)
  then show ?case using cons splitNL_line by simp
qed

lemma text_items: "\<forall>x\<in>set xs. si_msgType x = TextMessage \<Longrightarrow>
  map (\<lambda>d. \<lparr>si_msgType = TextMessage, si_data = d\<rparr>) (map si_data xs) = xs"
  by (induction xs) auto

lemma readFrame_carries:
  assumes "carriesFrame f xs" and "\<forall>x\<in>set xs. plainItem x"
  shows "readFrame f = xs"
proof -
  have ne: "TextMessage \<notin> {PingMessage, CloseMessage}" by (simp add: message_type_defs)
  consider "xs = []" "fst f \<in> {PingMessage, CloseMessage}" | x where "xs = [x]" "f = (si_msgType x, si_data x)"
    | "xs \<noteq> []" "\<forall>x\<in>set xs. si_msgType x = TextMessage" "f = (TextMessage, joinNL (map si_data xs))"
    using assms(1) unfolding carriesFrame_def by blast
  then show ?thesis
  proof cases
    case 1
    then show ?thesis by (simp add: readFrame_def)
  next
    case (2 x)
    then show ?thesis using assms(2) by (auto simp: readFrame_def plainItem_def splitNL_plain)
  next
    case 3
    then have "splitNL (joinNL (map si_data xs)) = map si_data xs"
      using assms(2) by (intro splitNL_joinNL) (auto simp: plainItem_def)
    then show ?thesis using 3 ne text_items [OF 3(2)] by (simp add: readFrame_def)
  qed
qed

lemma readStream_carried:
  assumes "carried frs ms" and "\<forall>x\<in>set ms. plainItem x"
  shows "readStream frs = ms"
proof -
  obtain gs where g: "list_all2 carriesFrame frs gs" "ms = concat gs" using assms(1) by (auto simp: carried_def)
  from g(1) assms(2) [unfolded g(2)] have "concat (map readFrame frs) = concat gs"
    by (induction rule: list_all2_induct) (auto simp: readFrame_carries)
  then show ?thesis by (simp add: g(2) readStream_def)
qed

subsection \<open>Properties\<close>

text \<open>C31: The write pump is FIFO and loses nothing while the connection works. For every sequence of
  events, every arrival of messages and every failing call on the connection, the frames sent
  carry, in order and each once, a prefix of the messages that were queued; the sent counter equals
  the number of messages carried; and without a connection error the rest is still queued. When
  the pump has stopped, the connection is closed.\<close>

theorem writePump_fifo:
  assumes "writePump fmtClose fails cl evs p = (p', cl')"
  shows "\<exists>n ms lost frs. n \<le> length evs \<and> carried frs ms \<and> pu_wire p' = pu_wire p @ frs \<and>
    pu_queue p @ concat (map fst (take n evs)) = ms @ lost @ pu_queue p' \<and>
    sentOf p' = sentOf p + int (length ms) \<and>
    ((\<forall>k. \<not> fails k) \<longrightarrow> lost = []) \<and>
    (fst (writeLoop fmtClose fails cl evs p) \<or> c_connClosed cl')"
proof -
  have p': "p' = snd (writeLoop fmtClose fails cl evs p)"
    and cl': "cl' = (if fst (writeLoop fmtClose fails cl evs p) then cl else closeConn cl)"
    using assms by (simp_all add: writePump_def case_prod_beta)
  from writeLoop_prefix [of evs p fmtClose fails cl] cl' show ?thesis
    unfolding wrote_def p' by (fastforce simp: closeConn_def)
qed

theorem writePump_fifo_witness:
  "let r = writePump (\<lambda>_ _. []) (\<lambda>_. False) (exampleClient 0) [([\<lparr>si_msgType = 1, si_data = ''a''\<rparr>], PumpItem)]
       \<lparr>pu_queue = [], pu_wire = [], pu_ops = 0, pu_metrics = []\<rparr>
   in \<exists>ms. carried (pu_wire (fst r)) ms"
proof -
  let ?p = "\<lparr>pu_queue = [], pu_wire = [], pu_ops = 0, pu_metrics = []\<rparr>"
  obtain p' cl' where r: "writePump (\<lambda>_ _. []) (\<lambda>_. False) (exampleClient 0) [([\<lparr>si_msgType = 1, si_data = ''a''\<rparr>], PumpItem)] ?p = (p', cl')"
    by force
  from writePump_fifo [OF r] r show ?thesis by (auto simp: Let_def)
qed

lemma writeOne_works:
  assumes "\<forall>k. \<not> fails k"
  shows "writeOne fails item p = (True, p\<lparr>pu_ops := Suc (pu_ops p), pu_wire := pu_wire p @ [(si_msgType item, si_data item)],
    pu_metrics := pu_metrics p @ [IncrementMessagesSent 1]\<rparr>)"
  using assms by (simp add: writeOne_def writeMessage_def connCall_def note_metric_def)

lemma drainLoop_works:
  assumes "\<forall>k. \<not> fails k"
  shows "length (pu_queue p) \<le> n \<Longrightarrow> \<exists>p'. drainLoop fails n p = (True, p') \<and> pu_queue p' = [] \<and>
    pu_wire p' = pu_wire p @ map (\<lambda>x. (si_msgType x, si_data x)) (pu_queue p)"
proof (induction n arbitrary: p)
  case (Suc n)
  show ?case
  proof (cases "pu_queue p")
    case (Cons x q)
    let ?p1 = "p\<lparr>pu_queue := q, pu_ops := Suc (pu_ops p), pu_wire := pu_wire p @ [(si_msgType x, si_data x)],
      pu_metrics := pu_metrics p @ [IncrementMessagesSent 1]\<rparr>"
    have "drainLoop fails (Suc n) p = drainLoop fails n ?p1"
      using Cons writeOne_works [OF assms, of x "p\<lparr>pu_queue := q\<rparr>"] by (simp add: recvItem_def)
    with Suc.IH [of ?p1] Suc.prems Cons show ?thesis by simp
  qed (simp add: recvItem_def)
qed simp

text \<open>C32: A graceful close flushes before it says goodbye: when \<open>CloseWithCode\<close> has closed \<open>done\<close> and the
  connection works, the pump sends every queued message, one frame each and in order, then the
  close frame with the stored code and reason, and stops with an empty queue and the connection
  closed.\<close>

theorem graceful_close_flushes:
  assumes "\<forall>k. \<not> fails k" and "c_graceful cl"
    and "writePump fmtClose fails cl [(arrived, PumpDone)] p = (p', cl')"
  shows "pu_wire p' = pu_wire p @ map (\<lambda>x. (si_msgType x, si_data x)) (pu_queue p @ arrived) @
      [(CloseMessage, if c_closeCode cl \<noteq> 0 then fmtClose (c_closeCode cl) (c_closeReason cl) else [])] \<and>
    pu_queue p' = [] \<and> c_connClosed cl'"
proof -
  let ?q = "p\<lparr>pu_queue := pu_queue p @ arrived\<rparr>"
  have f: "fails = (\<lambda>_. False)" using assms(1) by auto
  have "\<exists>p1. drainQueued fails ?q = (True, p1) \<and> pu_queue p1 = [] \<and>
      pu_wire p1 = pu_wire p @ map (\<lambda>x. (si_msgType x, si_data x)) (pu_queue p @ arrived)"
    using drainLoop_works [OF assms(1), of "?q\<lparr>pu_ops := Suc (pu_ops p)\<rparr>" "length (pu_queue ?q)"]
    by (auto simp: f drainQueued_def setWriteDeadline_def connCall_def Let_def)
  then obtain p1 where p1: "drainQueued fails ?q = (True, p1)" "pu_queue p1 = []"
    "pu_wire p1 = pu_wire p @ map (\<lambda>x. (si_msgType x, si_data x)) (pu_queue p @ arrived)" by blast
  with assms show ?thesis
    by (auto simp: writePump_def writePumpStep_def writeCloseFrame_def setWriteDeadline_def connCall_def
        writeMessage_def closeConn_def)
qed

theorem graceful_close_flushes_witness:
  "let cl = closeWithCode 5 CloseGoingAway ''bye'' (exampleClient 0);
       p' = fst (writePump (\<lambda>_ r. r) (\<lambda>_. False) cl [([], PumpDone)]
              \<lparr>pu_queue = [\<lparr>si_msgType = 1, si_data = ''a''\<rparr>], pu_wire = [], pu_ops = 0, pu_metrics = []\<rparr>)
   in pu_wire p' = [(1, ''a''), (CloseMessage, ''bye'')]"
proof -
  let ?cl = "closeWithCode 5 CloseGoingAway ''bye'' (exampleClient 0)"
  let ?p = "\<lparr>pu_queue = [\<lparr>si_msgType = 1, si_data = ''a''\<rparr>], pu_wire = [], pu_ops = 0, pu_metrics = []\<rparr>"
  obtain p' cl' where r: "writePump (\<lambda>_ r. r) (\<lambda>_. False) ?cl [([], PumpDone)] ?p = (p', cl')" by force
  have c: "c_graceful ?cl" "c_closeCode ?cl = CloseGoingAway" "c_closeReason ?cl = ''bye''"
    by (simp_all add: closeWithCode_def closeDone_def)
  from graceful_close_flushes [OF _ c(1) r] r c show ?thesis by (simp add: Let_def CloseGoingAway_def)
qed

text \<open>C33: Coalesced writing loses no boundaries: a peer that splits text frames at newlines reads
  exactly the messages the pump sent, in order, provided no text message contains a newline
  itself (and nobody queues control frames); this holds with and without coalescing.\<close>

theorem coalesced_roundtrip:
  assumes "writePump fmtClose fails cl evs p = (p', cl')" and "pu_wire p = []" and "\<forall>k. \<not> fails k"
    and "\<forall>x\<in>set (pu_queue p) \<union> (\<Union>a\<in>set evs. set (fst a)). plainItem x"
  shows "\<exists>n \<le> length evs. pu_queue p @ concat (map fst (take n evs)) = readStream (pu_wire p') @ pu_queue p'"
proof -
  have p': "p' = snd (writeLoop fmtClose fails cl evs p)" using assms(1) by (simp add: writePump_def case_prod_beta)
  obtain n ms frs where n: "n \<le> length evs" "carried frs ms" "pu_wire p' = frs"
    "pu_queue p @ concat (map fst (take n evs)) = ms @ pu_queue p'"
    using writeLoop_prefix [of evs p fmtClose fails cl] assms(2,3) unfolding wrote_def p' by auto
  have "set ms \<subseteq> set (pu_queue p @ concat (map fst (take n evs)))" unfolding n(4) by simp
  also have "\<dots> \<subseteq> set (pu_queue p) \<union> (\<Union>a\<in>set evs. set (fst a))" by (auto dest: in_set_takeD)
  finally have "\<forall>x\<in>set ms. plainItem x" using assms(4) by blast
  with n show ?thesis using readStream_carried by auto
qed

theorem coalesced_roundtrip_witness:
  "let r = writePump (\<lambda>_ _. []) (\<lambda>_. False) ((exampleClient 0)\<lparr>c_config := WithCoalesceWrites True exampleConfig\<rparr>)
       [([\<lparr>si_msgType = 1, si_data = ''a''\<rparr>, \<lparr>si_msgType = 1, si_data = ''b''\<rparr>], PumpItem)]
       \<lparr>pu_queue = [], pu_wire = [], pu_ops = 0, pu_metrics = []\<rparr>
   in \<exists>n \<le> 1. concat (map fst (take n [([\<lparr>si_msgType = 1, si_data = ''a''\<rparr>, \<lparr>si_msgType = 1, si_data = ''b''\<rparr>], PumpItem)])) =
        readStream (pu_wire (fst r)) @ pu_queue (fst r)"
proof -
  let ?cl = "(exampleClient 0)\<lparr>c_config := WithCoalesceWrites True exampleConfig\<rparr>"
  let ?evs = "[([\<lparr>si_msgType = 1, si_data = ''a''\<rparr>, \<lparr>si_msgType = 1, si_data = ''b''\<rparr>], PumpItem)]"
  let ?p = "\<lparr>pu_queue = [], pu_wire = [], pu_ops = 0, pu_metrics = []\<rparr>"
  obtain p' cl' where r: "writePump (\<lambda>_ _. []) (\<lambda>_. False) ?cl ?evs ?p = (p', cl')" by force
  have "\<forall>x\<in>set (pu_queue ?p) \<union> (\<Union>a\<in>set ?evs. set (fst a)). plainItem x"
    by (simp add: plainItem_def message_type_defs)
  from coalesced_roundtrip [OF r _ _ this] r show ?thesis by (simp add: Let_def)
qed

end
