(* ===== verification/Ws_Lifecycle.thy ===== *)
theory Ws_Lifecycle
  imports Ws_Broadcast
begin

section \<open>Lifecycle: upgrade, drain, shutdown, health (hub.go, health.go)\<close>

text \<open>
  The operations around the Run loop. A blocking operation is split where it waits:
  \<open>upgradeStart\<close> ends with the registration request in the channel and \<open>upgradeFinish\<close> takes
  the answer; \<open>drainStart\<close> does the state change of \<open>Drain\<close> and \<open>drainWait\<close> its \<open>select\<close>.

  \<open>upgrader.Upgrade\<close> belongs to gorilla/websocket. It is an argument: it gets the origin check
  as a callback and answers with an error or not. \<open>NewHub\<close> always sets an origin checker, so
  the \<open>None\<close> case of \<open>checkOrigin\<close> does not arise.
\<close>

subsection \<open>Health\<close>

definition Alive :: "hub \<Rightarrow> bool" where "Alive h = h_alive h"

definition Ready :: "hub \<Rightarrow> bool" where "Ready h = (Alive h \<and> State h = StateRunning)"

definition Uptime :: "env \<Rightarrow> hub \<Rightarrow> int" where
  "Uptime e h = (if \<not> Alive h then 0
     else case h_startedAt h of None \<Rightarrow> 0 | Some t \<Rightarrow> e_now e - t)"

record HealthStatus =
  hs_Alive :: bool
  hs_Ready :: bool
  hs_State :: string
  hs_Uptime :: int
  hs_Clients :: int

definition Health :: "env \<Rightarrow> hub \<Rightarrow> HealthStatus" where
  "Health e h = \<lparr>hs_Alive = Alive h, hs_Ready = Ready h, hs_State = HubState_String (State h),
     hs_Uptime = Uptime e h, hs_Clients = ClientCount h\<rparr>"

definition StatusOK :: int where "StatusOK = 200"
definition StatusForbidden :: int where "StatusForbidden = 403"
definition StatusServiceUnavailable :: int where "StatusServiceUnavailable = 503"

definition healthJSON :: "int \<Rightarrow> HealthStatus \<Rightarrow> effect" where
  "healthJSON code hs = HttpJSON code (hs_Alive hs) (hs_Ready hs) (hs_State hs) (hs_Uptime hs) (hs_Clients hs)"

definition HealthHandler :: "env \<Rightarrow> hub \<Rightarrow> hub" where
  "HealthHandler e h =
     (let hs = Health e h
      in emit (healthJSON (if \<not> hs_Alive hs then StatusServiceUnavailable else StatusOK) hs) h)"

definition ReadyHandler :: "env \<Rightarrow> hub \<Rightarrow> hub" where
  "ReadyHandler e h =
     (let hs = Health e h
      in emit (healthJSON (if \<not> hs_Ready hs then StatusServiceUnavailable else StatusOK) hs) h)"

subsection \<open>Logs an unauthenticated client can trigger\<close>

definition handshakeLogInterval :: int where "handshakeLogInterval = Minute"
definition maxLoggedOriginLen :: nat where "maxLoggedOriginLen = 128"

text \<open>\<open>logLimiter.allow\<close>, the verdict and the new value of \<open>last\<close>.\<close>

definition allow :: "int \<Rightarrow> int \<Rightarrow> int \<Rightarrow> bool \<times> int" where
  "allow interval now lastAt = (if now - lastAt < interval then (False, lastAt) else (True, now))"

fun allowRun :: "int \<Rightarrow> int list \<Rightarrow> int \<Rightarrow> int list" where
  "allowRun interval [] lastAt = []"
| "allowRun interval (t # ts) lastAt =
     (case allow interval t lastAt of
        (True, l) \<Rightarrow> t # allowRun interval ts l
      | (False, l) \<Rightarrow> allowRun interval ts l)"

definition logHandshakeFailure :: "env \<Rightarrow> string \<Rightarrow> hub \<Rightarrow> hub" where
  "logHandshakeFailure e msg h = (case allow handshakeLogInterval (e_now e) (h_upgradeFailLog h) of
       (True, l) \<Rightarrow> emit (Log Error msg) (h\<lparr>h_upgradeFailLog := l\<rparr>)
     | (False, l) \<Rightarrow> h)"

text \<open>Valid UTF-8: the length in bytes of the rune at the front, 0 when there is none. This is
  the table of Go's \<open>unicode/utf8\<close> (no surrogates, no overlong forms, at most U+10FFFF).\<close>

definition contByte :: "char \<Rightarrow> bool" where
  "contByte ch \<longleftrightarrow> 0x80 \<le> (of_char ch :: nat) \<and> (of_char ch :: nat) \<le> 0xBF"

definition between :: "nat \<Rightarrow> nat \<Rightarrow> char \<Rightarrow> bool" where
  "between lo hi ch \<longleftrightarrow> lo \<le> of_char ch \<and> of_char ch \<le> hi"

definition rune1 :: "char \<Rightarrow> bool" where
  "rune1 a \<longleftrightarrow> between 0 0x7F a"

definition rune2 :: "char \<Rightarrow> char \<Rightarrow> bool" where
  "rune2 a b \<longleftrightarrow> between 0xC2 0xDF a \<and> contByte b"

definition rune3 :: "char \<Rightarrow> char \<Rightarrow> char \<Rightarrow> bool" where
  "rune3 a b c \<longleftrightarrow> between 0xE0 0xEF a \<and> contByte c \<and>
     (if between 0xE0 0xE0 a then between 0xA0 0xBF b
      else if between 0xED 0xED a then between 0x80 0x9F b else contByte b)"

definition rune4 :: "char \<Rightarrow> char \<Rightarrow> char \<Rightarrow> char \<Rightarrow> bool" where
  "rune4 a b c d \<longleftrightarrow> between 0xF0 0xF4 a \<and> contByte c \<and> contByte d \<and>
     (if between 0xF0 0xF0 a then between 0x90 0xBF b
      else if between 0xF4 0xF4 a then between 0x80 0x8F b else contByte b)"

definition runeLen :: "bytes \<Rightarrow> nat" where
  "runeLen s = (case s of [] \<Rightarrow> 0 | a # s1 \<Rightarrow>
     if rune1 a then 1
     else case s1 of [] \<Rightarrow> 0 | b # s2 \<Rightarrow>
       if rune2 a b then 2
       else case s2 of [] \<Rightarrow> 0 | c # s3 \<Rightarrow>
         if rune3 a b c then 3
         else case s3 of [] \<Rightarrow> 0 | d # s4 \<Rightarrow> if rune4 a b c d then 4 else 0)"

text \<open>\<open>strings.ToValidUTF8(s, "")\<close>: bytes that belong to no rune are dropped.\<close>

function ToValidUTF8 :: "bytes \<Rightarrow> bytes" where
  "ToValidUTF8 [] = []"
| "ToValidUTF8 (a # s) =
     (let n = runeLen (a # s)
      in if n = 0 then ToValidUTF8 s else take n (a # s) @ ToValidUTF8 (drop n (a # s)))"
  by pat_completeness auto
termination
  by (relation "measure length") auto

declare ToValidUTF8.simps(2) [simp del]

definition truncateOrigin :: "string \<Rightarrow> string" where
  "truncateOrigin origin =
     (if length origin \<le> maxLoggedOriginLen then origin
      else ToValidUTF8 (take maxLoggedOriginLen origin) @ [CHR 0xE2, CHR 0x80, CHR 0xA6])"

definition checkOrigin :: "env \<Rightarrow> request \<Rightarrow> hub \<Rightarrow> bool \<times> hub" where
  "checkOrigin e r h =
     (case CheckOrigin (h_config h) of
        Some chk \<Rightarrow>
          if chk r then (True, h)
          else
            let h1 = emit (Metric (IncrementErrors ''origin_rejected'')) h in
            (case allow handshakeLogInterval (e_now e) (h_originRejectLog h1) of
               (True, l) \<Rightarrow> (False, emit (Log Warn (''WebSocket upgrade rejected: origin not allowed. '' @
                              truncateOrigin (rq_Origin r))) (h1\<lparr>h_originRejectLog := l\<rparr>))
             | (False, l) \<Rightarrow> (False, h1))
      | None \<Rightarrow> (False, h))"

subsection \<open>Upgrading a connection\<close>

type_synonym upgrader = "(request \<Rightarrow> hub \<Rightarrow> bool \<times> hub) \<Rightarrow> request \<Rightarrow> hub \<Rightarrow> wsError option \<times> hub"

definition WithUserID :: "string \<Rightarrow> client \<Rightarrow> client" where
  "WithUserID userID cl = cl\<lparr>c_userID := userID\<rparr>"

definition allocClient :: "env \<Rightarrow> string \<Rightarrow> request \<Rightarrow> (client \<Rightarrow> client) list \<Rightarrow> hub \<Rightarrow> cref \<times> hub" where
  "allocClient e uuid r opts h =
     (let c = h_cnext h;
          cl = fold (\<lambda>opt. opt) opts (newClient (h_limits h) (h_config h) r uuid (e_now e))
      in (c, h\<lparr>h_mem := (h_mem h)(c := cl), h_cnext := Suc c, h_results := (h_results h)(c := None)\<rparr>))"

definition writeCloseAndClose :: "cref \<Rightarrow> int \<Rightarrow> string \<Rightarrow> hub \<Rightarrow> hub" where
  "writeCloseAndClose c code reason h = upd_client c closeConn (emit (CloseFrame c code reason) h)"

definition CloseTryAgainLater :: int where "CloseTryAgainLater = 1013"

definition remoteErr :: "request \<Rightarrow> wsError \<Rightarrow> wsError" where
  "remoteErr r err = Wrap (''remote '' @ rq_RemoteAddr r) err"

definition reject :: "string \<Rightarrow> string \<Rightarrow> hub \<Rightarrow> hub" where
  "reject metric body h = emit (HttpError body StatusServiceUnavailable) (emit (Metric (IncrementErrors metric)) h)"

text \<open>\<open>UpgradeConnection\<close> up to the registration request. \<open>Inl\<close> is an error returned to the
  caller, \<open>Inr\<close> the client whose request is in the channel; \<open>None\<close> while the channel (64
  entries) is full. \<open>skip\<close> is the choice of \<open>select\<close> when the context is done as well.\<close>

definition upgradeStart ::
  "env \<Rightarrow> upgrader \<Rightarrow> string \<Rightarrow> bool \<Rightarrow> request \<Rightarrow> (client \<Rightarrow> client) list \<Rightarrow> hub \<Rightarrow> ((wsError + cref) \<times> hub) option" where
  "upgradeStart e up uuid skip r opts h =
     (if \<not> Alive h
      then Some (Inl (remoteErr r ErrHubNotStarted), reject ''connection_rejected_not_ready'' ''Service not ready'' h)
      else if State h \<noteq> StateRunning
      then Some (Inl (remoteErr r (if State h = StateDraining then ErrHubDraining else ErrHubStopped)),
                 reject ''connection_rejected_draining'' ''Service draining'' h)
      else case (case BeforeConnect (e_hooks e) of None \<Rightarrow> (None, h) | Some f \<Rightarrow> f r h) of
             (Some err, h1) \<Rightarrow>
               Some (Inl err, emit (HttpError ''Connection rejected'' StatusForbidden)
                 (emit (Metric (IncrementErrors ''connection_rejected''))
                   (emit (Log Warn ''Connection rejected by BeforeConnect hook'') h1)))
           | (None, h1) \<Rightarrow>
               if 0 < MaxConnections (h_limits h1) \<and> MaxConnections (h_limits h1) \<le> h_clientCount h1
               then Some (Inl (remoteErr r ErrMaxConnectionsReached),
                          reject ''connection_limit'' (errorText ErrMaxConnectionsReached) (emit (Log Warn ''Connection limit reached'') h1))
               else case up (checkOrigin e) r h1 of
                      (Some err, h2) \<Rightarrow>
                        Some (Inl err, emit (Metric (IncrementErrors ''upgrade_failed''))
                          (logHandshakeFailure e ''Failed to upgrade connection'' h2))
                    | (None, h2) \<Rightarrow>
                        (case allocClient e uuid r opts h2 of (c, h3) \<Rightarrow>
                           if h_ctxDone h3 \<and> (skip \<or> 64 \<le> length (h_register h3))
                           then Some (Inl (CtxErr ''context canceled''),
                                      writeCloseAndClose c CloseGoingAway ''server shutting down'' h3)
                           else if length (h_register h3) < 64
                           then Some (Inr c, h3\<lparr>h_register := h_register h3 @ [c]\<rparr>)
                           else None))"

text \<open>The second half: the answer of the Run goroutine, or shutdown. \<open>None\<close> while waiting.\<close>

definition upgradeFinish :: "bool \<Rightarrow> request \<Rightarrow> cref \<Rightarrow> hub \<Rightarrow> ((wsError + cref) \<times> hub) option" where
  "upgradeFinish skip r c h =
     (case h_results h c of
        Some res \<Rightarrow>
          if h_ctxDone h \<and> skip
          then Some (Inl (CtxErr ''context canceled''), writeCloseAndClose c CloseGoingAway ''server shutting down'' h)
          else (case rr_err res of
                  Some err \<Rightarrow>
                    Some (Inl (remoteErr r err),
                      writeCloseAndClose c CloseTryAgainLater (errorText err)
                        (emit (Metric (IncrementErrors ''connection_limit'')) (emit (Log Warn ''Connection limit reached'') h)))
                | None \<Rightarrow> Some (Inr c, h))
      | None \<Rightarrow>
          if h_ctxDone h
          then Some (Inl (CtxErr ''context canceled''), writeCloseAndClose c CloseGoingAway ''server shutting down'' h)
          else None)"

definition HandleHTTP :: "env \<Rightarrow> ((wsError + cref) \<times> hub) \<Rightarrow> hub" where
  "HandleHTTP e res = (case res of
       (Inl _, h) \<Rightarrow> logHandshakeFailure e ''WebSocket upgrade failed'' h
     | (Inr _, h) \<Rightarrow> h)"

subsection \<open>Drain and shutdown\<close>

datatype drainVerdict = DrainReturn | DrainWait bool

text \<open>\<open>DrainWait b\<close>: wait for \<open>drainDone\<close>; \<open>b\<close> says that this call started the idle reaper.\<close>

definition drainStart :: "hub \<Rightarrow> drainVerdict \<times> hub" where
  "drainStart h =
     (if h_state h = StateRunning
      then
        let h1 = emit (Log Info ''Hub drain initiated'') (h\<lparr>h_state := StateDraining\<rparr>) in
        if h_clientCount h1 = 0
        then (DrainReturn, emit (Log Info ''Hub drain complete'') (signalDrained h1))
        else (DrainWait (h_drainTimeout h1 > 0), h1)
      else if h_state h = StateStopped then (DrainReturn, h)
      else (DrainWait False, h))"

definition drainWait :: "wsError option \<Rightarrow> bool \<Rightarrow> hub \<Rightarrow> (wsError option \<times> hub) option" where
  "drainWait ctx pick h =
     (if h_drainDone h \<and> (ctx = None \<or> pick) then Some (None, emit (Log Info ''Hub drain complete'') h)
      else case ctx of
             Some err \<Rightarrow> Some (Some err, emit (Log Warn ''Hub drain timeout'') h)
           | None \<Rightarrow> None)"

definition reaperInterval :: "int \<Rightarrow> int" where
  "reaperInterval d = max (go_div d 4) (100 * Millisecond)"

text \<open>One tick of \<open>runDrainReaper\<close>; \<open>firstIdleAt\<close> is the goroutine's own map.\<close>

definition forgetGone :: "cref set \<Rightarrow> (cref \<Rightarrow> int option) \<Rightarrow> cref \<Rightarrow> int option" where
  "forgetGone S m c = (if c \<in> S then m c else None)"

fun reapLoop :: "env \<Rightarrow> cref list \<Rightarrow> (cref \<Rightarrow> int option) \<times> hub \<Rightarrow> (cref \<Rightarrow> int option) \<times> hub" where
  "reapLoop e [] mh = mh"
| "reapLoop e (c # cs) (m, h) =
     (if c_send (h_mem h c) = []
      then (case m c of
              None \<Rightarrow> reapLoop e cs (m(c \<mapsto> e_now e), h)
            | Some t \<Rightarrow>
                if h_drainTimeout h \<le> e_now e - t
                then reapLoop e cs (m(c := None),
                       CloseWithCode e c CloseGoingAway ''server draining''
                         (emit (Log Info ''Closing idle connection during drain'') h))
                else reapLoop e cs (m, h))
      else reapLoop e cs (m(c := None), h))"

definition reaperTick :: "env \<Rightarrow> (cref \<Rightarrow> int option) \<Rightarrow> hub \<Rightarrow> (cref \<Rightarrow> int option) \<times> hub" where
  "reaperTick e firstIdleAt h =
     (let snap = loadSnapshot h
      in reapLoop e (s_slice snap) (forgetGone (s_set snap) firstIdleAt, h))"

text \<open>\<open>Shutdown\<close> up to the wait for the goroutines; \<open>closeErr\<close> is the answer of \<open>adapter.Close\<close>.\<close>

definition Shutdown :: "wsError option \<Rightarrow> hub \<Rightarrow> hub" where
  "Shutdown closeErr h =
     (let h1 = emit (Log Info ''Shutting down hub'') h;
          h2 = signalDrained (h1\<lparr>h_state := StateStopped\<rparr>);
          h3 = h2\<lparr>h_ctxDone := True\<rparr>;
          h4 = (if h_adapter h3 \<and> closeErr \<noteq> None then emit (Log Error ''adapter close failed'') h3 else h3)
      in if h_poolStarted h4 then h4\<lparr>h_poolStopped := True\<rparr> else h4)"

definition shutdownWait :: "wsError option \<Rightarrow> bool \<Rightarrow> hub \<Rightarrow> (wsError option \<times> hub) option" where
  "shutdownWait ctx allExited h =
     (if allExited then Some (None, emit (Log Info ''Hub shutdown successful'') h)
      else case ctx of
             Some err \<Rightarrow> Some (Some err, emit (Log Warn ''Hub shutdown timeout'') h)
           | None \<Rightarrow> None)"

subsection \<open>Logs: bounds\<close>

lemma runeLen_le: "runeLen s \<le> length s"
  by (auto simp: runeLen_def split: list.split)

lemma ToValidUTF8_length: "length (ToValidUTF8 s) \<le> length s"
proof (induction s rule: ToValidUTF8.induct)
  case (2 a s)
  let ?n = "runeLen (a # s)"
  show ?case
  proof (cases "?n = 0")
    case True
    then show ?thesis using 2(1) [OF refl] by (simp add: ToValidUTF8.simps(2) Let_def)
  next
    case False
    then show ?thesis
      using 2(2) [OF refl] runeLen_le [of "a # s"] by (simp add: ToValidUTF8.simps(2) Let_def)
  qed
qed simp

text \<open>A string of whole runes.\<close>

function validUTF8 :: "bytes \<Rightarrow> bool" where
  "validUTF8 [] = True"
| "validUTF8 (a # s) =
     (if runeLen (a # s) = 0 then False else validUTF8 (drop (runeLen (a # s)) (a # s)))"
  by pat_completeness auto
termination
  by (relation "measure length") auto

declare validUTF8.simps(2) [simp del]

lemma runeLen_append:
  assumes "runeLen (a # s) \<noteq> 0"
  shows "runeLen (take (runeLen (a # s)) (a # s) @ t) = runeLen (a # s)"
  using assms by (auto simp: runeLen_def split: list.splits if_splits)

lemma validUTF8_rune:
  assumes "runeLen (a # s) \<noteq> 0" and "validUTF8 t"
  shows "validUTF8 (take (runeLen (a # s)) (a # s) @ t)"
proof -
  let ?n = "runeLen (a # s)"
  have ne: "take ?n (a # s) = a # take (?n - 1) s" using assms(1) by (cases ?n) auto
  have len: "length (take ?n (a # s)) = ?n" using runeLen_le [of "a # s"] by simp
  have "runeLen (a # take (?n - 1) s @ t) = ?n" using runeLen_append [OF assms(1), of t] ne by simp
  moreover have "drop ?n (a # take (?n - 1) s @ t) = t" using len ne by (metis append_Cons append_eq_conv_conj)
  ultimately show ?thesis using assms by (simp add: ne validUTF8.simps(2) del: drop_Cons')
qed

lemma ToValidUTF8_valid: "validUTF8 (ToValidUTF8 s)"
proof (induction s rule: ToValidUTF8.induct)
  case (2 a s)
  then show ?case
    using validUTF8_rune [of a s] by (cases "runeLen (a # s) = 0") (simp_all add: ToValidUTF8.simps(2) Let_def)
qed simp

lemma validUTF8_append: "validUTF8 s \<Longrightarrow> validUTF8 t \<Longrightarrow> validUTF8 (s @ t)"
proof (induction s rule: validUTF8.induct)
  case (2 a s)
  let ?n = "runeLen (a # s)"
  have n: "?n \<noteq> 0" "validUTF8 (drop ?n (a # s))" using 2(2) by (simp_all add: validUTF8.simps(2) split: if_splits)
  have "take ?n (a # s) @ drop ?n (a # s) @ t = (a # s) @ t" by (simp only: append_assoc [symmetric] append_take_drop_id)
  then show ?case using validUTF8_rune [OF n(1), of "drop ?n (a # s) @ t"] 2(1) n 2(3) by metis
qed simp

lemma ellipsis_valid: "validUTF8 [CHR 0xE2, CHR 0x80, CHR 0xA6]"
  by (simp add: validUTF8.simps(2) runeLen_def rune1_def rune2_def rune3_def between_def contByte_def)

lemma allow_spaced:
  "0 < interval \<Longrightarrow> sorted ts \<Longrightarrow>
     (\<forall>t\<in>set (allowRun interval ts lastAt). lastAt + interval \<le> t) \<and>
     sorted_wrt (\<lambda>a b. a + interval \<le> b) (allowRun interval ts lastAt)"
proof (induction ts arbitrary: lastAt)
  case (Cons t ts)
  show ?case
  proof (cases "t - lastAt < interval")
    case True
    then show ?thesis using Cons by (simp add: allow_def)
  next
    case False
    have "(\<forall>x\<in>set (allowRun interval ts t). t + interval \<le> x) \<and>
        sorted_wrt (\<lambda>a b. a + interval \<le> b) (allowRun interval ts t)" using Cons by simp
    then show ?thesis using False Cons.prems by (fastforce simp: allow_def)
  qed
qed simp

subsection \<open>Properties\<close>

lemma truncateOrigin_safe:
  "length (truncateOrigin origin) \<le> maxLoggedOriginLen + 3 \<and>
   (if length origin \<le> maxLoggedOriginLen then truncateOrigin origin = origin
    else validUTF8 (truncateOrigin origin))"
proof (cases "length origin \<le> maxLoggedOriginLen")
  case False
  have "length (ToValidUTF8 (take maxLoggedOriginLen origin)) \<le> maxLoggedOriginLen"
    using ToValidUTF8_length [of "take maxLoggedOriginLen origin"] by simp
  with False show ?thesis
    using validUTF8_append [OF ToValidUTF8_valid ellipsis_valid] by (simp add: truncateOrigin_def)
qed (simp add: truncateOrigin_def)

text \<open>Unauthenticated clients can neither flood nor garble the log: however often the limiter is asked,
  the lines it lets through are at least the configured interval apart; and a logged origin has at
  most 128 bytes plus the three of the ellipsis, is unchanged when it fits, and is valid UTF-8 when
  it had to be cut, even when the cut falls inside a character.\<close>

lemma handshake_log_bounded:
  assumes "sorted ts"
  shows "sorted_wrt (\<lambda>a b. a + handshakeLogInterval \<le> b) (allowRun handshakeLogInterval ts lastAt) \<and>
    length (truncateOrigin origin) \<le> maxLoggedOriginLen + 3 \<and>
    (if length origin \<le> maxLoggedOriginLen then truncateOrigin origin = origin else validUTF8 (truncateOrigin origin))"
  using allow_spaced [of handshakeLogInterval ts lastAt] assms truncateOrigin_safe [of origin]
  by (simp add: handshakeLogInterval_def duration_defs)

lemma handshake_log_example:
  "sorted_wrt (\<lambda>a b. a + handshakeLogInterval \<le> b) (allowRun handshakeLogInterval [0, 5, handshakeLogInterval] (- handshakeLogInterval)) \<and>
   length (truncateOrigin (replicate 200 CHR ''x'')) \<le> 131"
  using handshake_log_bounded [of "[0, 5, handshakeLogInterval]" "- handshakeLogInterval" "replicate 200 CHR ''x''"]
  by (simp add: handshakeLogInterval_def duration_defs maxLoggedOriginLen_def)

text \<open>A hub that is not ready takes no connection: before \<open>Run\<close>, while draining and after
  \<open>Shutdown\<close>, \<open>UpgradeConnection\<close> answers 503, returns the error for the state, runs no hook and
  creates no client; and \<open>ReadyHandler\<close> answers 503 in exactly these states.\<close>

lemma not_ready_rejects:
  "(if Ready h then HttpJSON StatusOK True True ''running'' (Uptime e h) (ClientCount h) \<in> set (h_trace (ReadyHandler e h))
    else (\<exists>err h'. upgradeStart e up uuid skip r opts h = Some (Inl (remoteErr r err), h') \<and>
            same_registry h h' \<and> h_cnext h' = h_cnext h \<and>
            err = (if \<not> Alive h then ErrHubNotStarted else if State h = StateDraining then ErrHubDraining else ErrHubStopped) \<and>
            (\<exists>body. last (h_trace h') = HttpError body StatusServiceUnavailable)) \<and>
         h_trace (ReadyHandler e h) = h_trace h @ [healthJSON StatusServiceUnavailable (Health e h)])"
proof (cases "Ready h")
  case True
  then show ?thesis
    by (simp add: ReadyHandler_def Let_def Health_def healthJSON_def frame_simps Ready_def HubState_String_def)
next
  case False
  have same: "same_registry h (reject m b h)" for m b by (auto simp: reject_def intro!: registry_intros)
  have "\<exists>err h'. upgradeStart e up uuid skip r opts h = Some (Inl (remoteErr r err), h') \<and>
            same_registry h h' \<and> h_cnext h' = h_cnext h \<and>
            err = (if \<not> Alive h then ErrHubNotStarted else if State h = StateDraining then ErrHubDraining else ErrHubStopped) \<and>
            (\<exists>body. last (h_trace h') = HttpError body StatusServiceUnavailable)"
    using False same by (auto simp: upgradeStart_def Ready_def) (simp_all add: reject_def frame_simps)
  with False show ?thesis
    by (simp add: ReadyHandler_def Let_def frame_simps) (simp add: Health_def)
qed

lemma reap_frame:
  "h_drainTimeout (CloseWithCode e c k s (emit x h)) = h_drainTimeout h"
  "h_mem (CloseWithCode e c k s (emit x h)) = (h_mem h)(c := closeWithCode (e_now e) k s (h_mem h c))"
  by (simp_all add: CloseWithCode_def upd_client_def emit_def)

text \<open>What one tick decides for one client: the new entry of \<open>firstIdleAt\<close> and the client.\<close>

definition reap :: "int \<Rightarrow> int \<Rightarrow> int option \<Rightarrow> client \<Rightarrow> int option \<times> client" where
  "reap now timeout since cl =
     (if c_send cl \<noteq> [] then (None, cl)
      else case since of
             None \<Rightarrow> (Some now, cl)
           | Some t \<Rightarrow> if timeout \<le> now - t
                       then (None, closeWithCode now CloseGoingAway ''server draining'' cl) else (Some t, cl))"

lemma reapLoop_spec:
  "distinct cs \<Longrightarrow> reapLoop e cs (m, h) = (m', h') \<Longrightarrow>
     (if c \<in> set cs then (m' c, h_mem h' c) = reap (e_now e) (h_drainTimeout h) (m c) (h_mem h c)
      else m' c = m c \<and> h_mem h' c = h_mem h c)"
proof (induction cs arbitrary: m h)
  case (Cons d cs)
  obtain m1 h1 where s: "reapLoop e (d # cs) (m, h) = reapLoop e cs (m1, h1)" "h_drainTimeout h1 = h_drainTimeout h"
    "(m1 d, h_mem h1 d) = reap (e_now e) (h_drainTimeout h) (m d) (h_mem h d)"
    "\<And>x. x \<noteq> d \<Longrightarrow> m1 x = m x \<and> h_mem h1 x = h_mem h x"
    by (cases "c_send (h_mem h d) = []"; cases "m d"; cases "h_drainTimeout h \<le> e_now e - the (m d)")
      (auto simp: reap_def reap_frame)
  from Cons.IH [of m1 h1] Cons.prems s show ?case by (cases "c = d") auto
qed simp

text \<open>The idle reaper of a draining hub: a tick closes a client exactly when it is registered, its
  buffer is empty and it has been seen empty at every tick since a tick at least
  \<open>drainTimeout\<close> ago; a client with pending messages is never closed and starts over, and a
  newly idle one is only recorded. Unregistered clients are forgotten.\<close>

lemma reaperTick_decides:
  assumes "snapshot_ok h" and "reaperTick e firstIdleAt h = (m', h')"
  shows "if c \<in> h_clients h
    then (m' c, h_mem h' c) = reap (e_now e) (h_drainTimeout h) (firstIdleAt c) (h_mem h c)
    else m' c = None \<and> h_mem h' c = h_mem h c"
proof -
  have s: "set (s_slice (loadSnapshot h)) = h_clients h" "distinct (s_slice (loadSnapshot h))" "s_set (loadSnapshot h) = h_clients h"
    using assms(1) by (simp_all add: snapshot_ok_def)
  have "reapLoop e (s_slice (loadSnapshot h)) (forgetGone (h_clients h) firstIdleAt, h) = (m', h')"
    using assms(2) s(3) by (simp add: reaperTick_def Let_def)
  from reapLoop_spec [OF s(2) this, of c] s(1) show ?thesis by (auto simp: forgetGone_def split: if_splits)
qed

lemma reaperTick_example:
  "IsClosed 0 (snd (reaperTick (exampleEnv\<lparr>e_now := 40 * Second\<rparr>) [0 \<mapsto> 5 * Second] exampleHub))"
proof -
  obtain m' h' where r: "reaperTick (exampleEnv\<lparr>e_now := 40 * Second\<rparr>) [0 \<mapsto> 5 * Second] exampleHub = (m', h')" by force
  have "h_drainTimeout exampleHub = 30 * Second" by (simp add: exampleHub_def)
  with reaperTick_decides [OF exampleHub_loop(2) r, of 0] r show ?thesis
    by (simp add: reap_def IsClosed_def closeWithCode_def closeDone_def Second_def)
qed

end
