(* ===== verification/Ws_System.thy ===== *)
theory Ws_System
  imports Ws_Adapter Ws_Context Ws_ReadPump Ws_WritePump Ws_Lifecycle
begin

section \<open>The hub as a transition system\<close>

text \<open>
  All operations of a hub together: \<open>hub_step\<close> has one rule for each public operation, each
  turn of the Run loop and each step of a pump, for every environment whose hooks only observe
  the registry. \<open>sys_inv\<close> holds in the hub \<open>NewHub\<close> returns, whatever its options, and every
  step keeps it, so it holds in every reachable hub.

  An operation is one step here: the model interleaves whole operations. What the code's finer
  interleaving adds is the subject of \<open>Ws_Races\<close>.
\<close>

subsection \<open>The invariant\<close>

definition sys_inv :: "hub \<Rightarrow> bool" where
  "sys_inv h \<longleftrightarrow> hub_ok h \<and> pending_ok h \<and> 0 < SendChannelSize (h_config h)"

lemma sys_invD:
  assumes "sys_inv h"
  shows "registry_inv h" "hub_ok h" "loop_inv h" "pending_ok h" "snapshot_ok h" "queues_ok h"
  using assms by (simp_all add: sys_inv_def hub_ok_def loop_inv_def)

lemma same_pending:
  assumes "h_cnext h' = h_cnext h" "h_register h' = h_register h" "h_clients h' = h_clients h"
    and "\<And>c. c_ID (h_mem h' c) = c_ID (h_mem h c)"
  shows "pending_ok h' = pending_ok h"
  using assms by (simp add: pending_ok_def)

lemma same_snapshot:
  "h_clientsSnapshot h' = h_clientsSnapshot h \<Longrightarrow> h_clients h' = h_clients h \<Longrightarrow> snapshot_ok h' = snapshot_ok h"
  by (simp add: snapshot_ok_def loadSnapshot_def)

lemma kept_queues: "kept h h' \<Longrightarrow> queues_ok h \<Longrightarrow> queues_ok h'"
  by (simp add: kept_def queues_ok_def)

text \<open>What each operation has to show: it keeps the registry invariant, the clients, their
  identifiers and the queue of registrations, and the settings.\<close>

lemma sys_invI:
  assumes "sys_inv h" and "registry_inv h'" and "same_clients h h'"
  shows "sys_inv h'"
proof -
  have c: "h_cnext h' = h_cnext h" "h_register h' = h_register h" "h_clients h' = h_clients h"
    "\<And>c. c_ID (h_mem h' c) = c_ID (h_mem h c)" "h_clientsSnapshot h' = h_clientsSnapshot h" "kept h h'"
    using assms(3) by (simp_all add: same_clients_def)
  show ?thesis
    using assms(1,2) same_pending [OF c(1-4)] same_snapshot [OF c(5,3)] kept_queues [OF c(6)] c(6)
    by (simp add: sys_inv_def hub_ok_def kept_def)
qed

lemma same_registry_sys:
  assumes "sys_inv h" and "same_registry h h'"
  shows "sys_inv h'"
  using assms(1) same_registry_inv [OF assms(2) sys_invD(1) [OF assms(1)]] same_registry_clients [OF assms(2)]
  by (rule sys_invI)

subsection \<open>Rooms and users\<close>

lemma JoinRoom_clients:
  assumes "registry_inv h" and "env_ok e" and "JoinRoom e c n h = (res, h')"
  shows "same_clients h h'"
proof -
  have i: "hooks_observe e" "rooms_struct h" using assms by (simp_all add: env_ok_def registry_inv_def)
  from assms(3) i show ?thesis
  proof (cases rule: JoinRoom_cases)
    case (joins h1 r exists h2)
    have "same_clients h1 h'" using joinCommit_joined [OF joins(4)] joins by (simp add: joined_def)
    with same_registry_clients [OF joins(3)] show ?thesis by (rule same_clients_trans)
  qed (auto simp: same_rooms_def intro: same_registry_clients)
qed

lemma LeaveRoom_clients:
  assumes "env_ok e" and "LeaveRoom e c n h = (res, h')"
  shows "same_clients h h'"
proof -
  have "hooks_observe e" using assms by (simp add: env_ok_def)
  with assms(2) show ?thesis
  proof (cases rule: LeaveRoom_cases)
    case (left r h1)
    from same_registry_clients [OF left(5)] dropMember_clients(1) [of h1 e c n r] same_registry_clients [OF left(6)]
    show ?thesis by (blast intro: same_clients_trans)
  qed simp_all
qed

lemma SetUserID_sys:
  assumes "sys_inv h" and "c < h_cnext h" and "SetUserID c u h = (res, h')"
  shows "sys_inv h'"
proof -
  have r: "setClientUserID c u h = (res, h')" using assms(3) by (simp add: SetUserID_def)
  note f = setClientUserID_frame [OF r]
  show ?thesis
    using assms(1) setClientUserID_inv [OF sys_invD(1) [OF assms(1)] assms(2) r] same_pending [of h' h]
      same_snapshot [of h' h] kept_queues [OF f(13)] f
    by (simp add: sys_inv_def hub_ok_def kept_def)
qed

subsection \<open>Connecting\<close>

definition upgrader_ok :: "upgrader \<Rightarrow> bool" where
  "upgrader_ok up \<longleftrightarrow>
     (\<forall>chk r h. (\<forall>r h. same_registry h (snd (chk r h))) \<longrightarrow> same_registry h (snd (up chk r h)))"

definition fresh_ID :: "string \<Rightarrow> hub \<Rightarrow> bool" where
  "fresh_ID uuid h \<longleftrightarrow> (\<forall>c < h_cnext h. c_ID (h_mem h c) \<noteq> uuid)"

lemma checkOrigin_same: "same_registry h (snd (checkOrigin e r h))"
  by (auto simp: checkOrigin_def Let_def same_registry_def frame_simps trace_simps gauge_def kept_def
      split: option.split prod.split bool.split)

lemma logHandshakeFailure_same: "same_registry h (logHandshakeFailure e msg h)"
  by (auto simp: logHandshakeFailure_def same_registry_def frame_simps trace_simps gauge_def kept_def
      split: prod.split bool.split)

lemma reject_same: "same_registry h (reject m b h)"
  by (auto simp: reject_def intro!: registry_intros)

lemma writeCloseAndClose_same: "same_registry h (writeCloseAndClose c k s h)"
  unfolding writeCloseAndClose_def
  by (rule same_registry_trans [OF same_registry_emit same_registry_upd_client]) simp_all

lemma fold_WithUserID:
  "\<exists>u. fold (\<lambda>opt. opt) (map WithUserID us) cl = cl\<lparr>c_userID := u\<rparr>"
proof (induction us arbitrary: cl)
  case Nil
  show ?case by (rule exI [where x = "c_userID cl"]) simp
next
  case (Cons u us)
  from Cons.IH [of "WithUserID u cl"] show ?case by (auto simp: WithUserID_def)
qed

lemma alloc_registry:
  assumes inv: "registry_inv h" and h': "h_mem h' = (h_mem h)(h_cnext h := cl)" "h_cnext h' = Suc (h_cnext h)"
    and frame: "h_clients h' = h_clients h" "h_clientIndex h' = h_clientIndex h" "h_clientCount h' = h_clientCount h"
      "h_rooms h' = h_rooms h" "h_rmem h' = h_rmem h" "h_rnext h' = h_rnext h" "h_userIndex h' = h_userIndex h"
      "h_limits h' = h_limits h" "h_trace h' = h_trace h"
    and cl: "c_rooms cl = {}"
  shows "registry_inv h'"
proof -
  have m: "members h' = members h" by (rule members_cong) (simp_all add: frame)
  have u: "users h' = users h" by (rule users_cong) (simp add: frame)
  have i: "inv_clients h" "inv_users h" "rooms_struct h" "rooms_agree h" "inv_limits h" "inv_gauges h"
    using inv by (simp_all add: registry_inv_def)
  have new: "c < h_cnext h \<Longrightarrow> h_mem h' c = h_mem h c" for c by (simp add: h')
  have clients: "c \<in> h_clients h \<Longrightarrow> c < h_cnext h" for c using i(1) by (simp add: inv_clients_def)
  have old: "h_cnext h \<notin> members h n" for n
    using i(4) clients [of "h_cnext h"] unfolding rooms_agree_def by blast
  have "inv_clients h'"
  proof -
    have "c_ID (h_mem h' c) = c_ID (h_mem h c) \<and> c < Suc (h_cnext h)" if "c \<in> h_clients h" for c
      using clients [OF that] new by simp
    then show ?thesis using i(1) unfolding inv_clients_def frame h'(2) by metis
  qed
  moreover have "inv_users h'"
  proof -
    have "x < Suc (h_cnext h) \<and> c_userID (h_mem h' x) = w" if "x \<in> users h w" for x w
      using inv_users_owner [OF i(2) that] new [of x] by auto
    moreover have "x \<in> users h (c_userID (h_mem h' x))" if "x \<in> h_clients h" "c_userID (h_mem h' x) \<noteq> ''''" for x
      using inv_users_listed [OF i(2) that(1)] new [OF clients [OF that(1)]] that(2) by simp
    moreover have "index_wf h'" using i(2) by (simp add: inv_users_def index_wf_def frame)
    ultimately show ?thesis unfolding inv_users_def u frame h'(2) by blast
  qed
  moreover have "rooms_struct h'" using i(3) by (simp add: rooms_struct_def frame)
  moreover have "rooms_agree h'"
    using i(4) old cl unfolding rooms_agree_def m frame h'(1) by auto
  moreover have "inv_limits h'"
    using i(5) cl unfolding inv_limits_def m u frame h'(1) by simp
  moreover have "inv_gauges h'" using i(6) by (simp add: inv_gauges_def gauge_def frame)
  ultimately show ?thesis by (simp add: registry_inv_def)
qed

lemma allocClient_sys:
  assumes inv: "sys_inv h" and f: "fresh_ID uuid h"
    and a: "allocClient e uuid r (map WithUserID us) h = (c, h')"
  shows "sys_inv h'" "c < h_cnext h'" "c \<notin> h_clients h'" "c \<notin> set (h_register h')"
proof -
  obtain u where cl: "fold (\<lambda>opt. opt) (map WithUserID us) (newClient (h_limits h) (h_config h) r uuid (e_now e)) =
      (newClient (h_limits h) (h_config h) r uuid (e_now e))\<lparr>c_userID := u\<rparr>" using fold_WithUserID by blast
  let ?cl = "(newClient (h_limits h) (h_config h) r uuid (e_now e))\<lparr>c_userID := u\<rparr>"
  have c: "c = h_cnext h" and h': "h' = h\<lparr>h_mem := (h_mem h)(h_cnext h := ?cl), h_cnext := Suc (h_cnext h),
      h_results := (h_results h)(h_cnext h := None)\<rparr>"
    using a unfolding allocClient_def Let_def cl by auto
  have fields: "c_ID ?cl = uuid" "c_rooms ?cl = {}" "queue_ok ?cl"
    using inv by (simp_all add: queue_ok_def sys_inv_def)
  have "registry_inv h'" using sys_invD(1) [OF inv] by (rule alloc_registry [where cl = ?cl]) (simp_all add: h')
  moreover have "pending_ok h'"
  proof -
    have p: "pending_ok h" using inv by (rule sys_invD)
    have "inj_on (\<lambda>c. c_ID (h_mem h' c)) {..<Suc (h_cnext h)}"
      using p f fields(1) unfolding pending_ok_def fresh_ID_def inj_on_def h' by (auto simp: less_Suc_eq)
    moreover have "set (h_register h) \<subseteq> {..<Suc (h_cnext h)}" using p by (auto simp: pending_ok_def)
    ultimately show ?thesis using p by (simp add: pending_ok_def h')
  qed
  moreover have "snapshot_ok h'" using sys_invD(5) [OF inv] by (simp add: snapshot_ok_def loadSnapshot_def h')
  moreover have "queues_ok h'" using sys_invD(6) [OF inv] fields(3) by (simp add: queues_ok_def h')
  ultimately show "sys_inv h'" using inv by (simp add: sys_inv_def hub_ok_def h')
  show "c < h_cnext h'" by (simp add: c h')
  show "c \<notin> h_clients h'" "c \<notin> set (h_register h')"
    using sys_invD(1,4) [OF inv] by (auto simp: c h' registry_inv_def inv_clients_def pending_ok_def)
qed

lemma enqueue_sys:
  assumes "sys_inv h" and "c < h_cnext h" "c \<notin> h_clients h" "c \<notin> set (h_register h)"
  shows "sys_inv (h\<lparr>h_register := h_register h @ [c]\<rparr>)"
proof -
  have "pending_ok (h\<lparr>h_register := h_register h @ [c]\<rparr>)"
    using sys_invD(4) [OF assms(1)] assms(2-4) by (auto simp: pending_ok_def)
  moreover have "snapshot_ok (h\<lparr>h_register := h_register h @ [c]\<rparr>)"
    using sys_invD(5) [OF assms(1)] by (simp add: snapshot_ok_def loadSnapshot_def)
  ultimately show ?thesis using assms(1) by (simp add: sys_inv_def hub_ok_def queues_ok_def)
qed

lemma fresh_ID_same: "same_registry h h' \<Longrightarrow> fresh_ID uuid h' = fresh_ID uuid h"
  by (simp add: fresh_ID_def same_registry_def)

lemma upgradeStart_sys:
  assumes inv: "sys_inv h" and e: "env_ok e" and up: "upgrader_ok up" and f: "fresh_ID uuid h"
    and r: "upgradeStart e up uuid skip r (map WithUserID us) h = Some (res, h')"
  shows "sys_inv h'"
proof (cases "Alive h \<and> State h = StateRunning")
  case False
  then have "h' = reject ''connection_rejected_not_ready'' ''Service not ready'' h \<or>
      h' = reject ''connection_rejected_draining'' ''Service draining'' h"
    using r by (auto simp: upgradeStart_def split: if_splits)
  with inv reject_same show ?thesis by (blast intro: same_registry_sys)
next
  case True
  define hook where "hook = (case BeforeConnect (e_hooks e) of None \<Rightarrow> (None, h) | Some f \<Rightarrow> f r h)"
  obtain res1 h1 where hk: "hook = (res1, h1)" by force
  have s1: "same_registry h h1"
  proof (cases "BeforeConnect (e_hooks e)")
    case None
    then show ?thesis using hk by (simp add: hook_def)
  next
    case (Some g)
    then have "same_registry h (snd (g r h))" using e by (simp add: env_ok_def hooks_observe_def)
    then show ?thesis using hk Some by (simp add: hook_def)
  qed
  obtain res2 h2 where u: "up (checkOrigin e) r h1 = (res2, h2)" by force
  have "same_registry h1 (snd (up (checkOrigin e) r h1))"
    using up checkOrigin_same unfolding upgrader_ok_def by blast
  then have s2: "same_registry h h2" using s1 u by (auto intro: same_registry_trans)
  obtain c h3 where a: "allocClient e uuid r (map WithUserID us) h2 = (c, h3)" by force
  note al = allocClient_sys [OF same_registry_sys [OF inv s2] _ a]
  have f2: "fresh_ID uuid h2" using f fresh_ID_same [OF s2] by simp
  note r' = r [unfolded upgradeStart_def hook_def [symmetric] hk]
  consider (hook) err where "res1 = Some err" | (full) "res1 = None" "0 < MaxConnections (h_limits h1) \<and> MaxConnections (h_limits h1) \<le> h_clientCount h1"
    | (failed) err where "res1 = None" "\<not> (0 < MaxConnections (h_limits h1) \<and> MaxConnections (h_limits h1) \<le> h_clientCount h1)" "res2 = Some err"
    | (alloc) "res1 = None" "\<not> (0 < MaxConnections (h_limits h1) \<and> MaxConnections (h_limits h1) \<le> h_clientCount h1)" "res2 = None"
    by (cases res1; cases res2) auto
  then show ?thesis
  proof cases
    case hook
    with r' True have "same_registry h1 h'" by (auto intro!: registry_intros)
    with inv s1 show ?thesis by (blast intro: same_registry_sys same_registry_trans)
  next
    case full
    with r' True have "h' = reject ''connection_limit'' (errorText ErrMaxConnectionsReached) (emit (Log Warn ''Connection limit reached'') h1)"
      by simp
    then have "same_registry h1 h'" using same_registry_trans [OF same_registry_emit reject_same] by simp
    with inv s1 show ?thesis by (blast intro: same_registry_sys same_registry_trans)
  next
    case failed
    with r' True u have "h' = emit (Metric (IncrementErrors ''upgrade_failed'')) (logHandshakeFailure e ''Failed to upgrade connection'' h2)"
      by auto
    then have "same_registry h2 h'" by (simp add: same_registry_emitI logHandshakeFailure_same)
    with inv s2 show ?thesis by (blast intro: same_registry_sys same_registry_trans)
  next
    case alloc
    with r' True u a consider "same_registry h3 h'" | "h' = h3\<lparr>h_register := h_register h3 @ [c]\<rparr>"
      by (auto simp: writeCloseAndClose_same split: if_splits)
    then show ?thesis
      using al [OF f2] by cases (auto intro: same_registry_sys enqueue_sys)
  qed
qed

lemma upgradeFinish_same: "upgradeFinish skip r c h = Some (res, h') \<Longrightarrow> same_registry h h'"
  by (auto simp: upgradeFinish_def split: option.splits if_splits
      intro!: same_registry_trans [OF _ writeCloseAndClose_same] registry_intros)

lemma readPumpExit_sys:
  assumes "sys_inv h" and "readPumpExit skip c h = Some h'"
  shows "sys_inv h'"
proof -
  have k: "same_registry g (upd_client c closeConn g)" for g by (rule same_registry_upd_client) simp_all
  have "sys_inv (h\<lparr>h_unregister := h_unregister h @ [c]\<rparr>)"
    using assms(1) by (simp add: sys_inv_def hub_ok_def queues_ok_def snapshot_ok_def loadSnapshot_def)
  then show ?thesis
    using assms k same_registry_sys unfolding readPumpExit_def by (auto split: if_splits)
qed

subsection \<open>The Run loop\<close>

lemma handleEvent_kept:
  assumes "loop_inv h" and "env_ok e" and "nextEvent e h = Some (ev, h1)"
  shows "kept h (handleEvent e ev h1)"
proof -
  have i: "registry_inv h1"
    using assms(1,3) by (cases rule: nextEvent_cases [OF assms(3)]) (simp_all add: loop_inv_def)
  have k1: "kept h h1" using assms(3) by (cases rule: nextEvent_cases) (simp_all add: kept_def)
  have "kept h1 (handleEvent e ev h1)"
  proof (cases ev)
    case (EvRegister c)
    then show ?thesis
      by (cases rule: handleRegister_cases [of h1 e c])
        (auto simp: handleEvent_def registered_def kept_def frame_simps)
  next
    case (EvUnregister c)
    from i assms(2) show ?thesis
      by (cases rule: handleUnregister_cases [where c = c])
        (simp_all add: EvUnregister handleEvent_def unregistered_def same_registry_def)
  qed
  with k1 show ?thesis by (rule kept_trans)
qed

lemma drainAndRebuildSnapshot_kept:
  assumes e: "env_ok e"
  shows "loop_inv h \<Longrightarrow> drainAndRebuildSnapshot e h = Some h' \<Longrightarrow> kept h h'"
proof (induction "length (h_register h) + length (h_unregister h)" arbitrary: h rule: less_induct)
  case less
  show ?case
  proof (cases "nextEvent e h")
    case None
    then have "h' = updateClientsSnapshot e h"
      using less.prems(2) by (simp add: drainAndRebuildSnapshot.simps [of e h])
    then show ?thesis by (simp add: updateClientsSnapshot_def kept_def)
  next
    case (Some p)
    then obtain ev h1 where ev: "nextEvent e h = Some (ev, h1)" by (cases p) auto
    note step = handleEvent_loop_inv [OF less.prems(1) e ev]
    have "kept (handleEvent e ev h1) h'"
      using less.hyps [OF step(2,1)] less.prems(2) ev by (simp add: drainAndRebuildSnapshot.simps [of e h])
    with handleEvent_kept [OF less.prems(1) e ev] show ?thesis by (rule kept_trans)
  qed
qed

lemma runTurn_sys:
  assumes inv: "sys_inv h" and e: "env_ok e" and r: "runTurn e h = Some h'"
  shows "sys_inv h'" "h_register h' = []" "h_unregister h' = []"
proof -
  have l: "loop_inv h" using inv by (rule sys_invD)
  have ne: "h_register h \<noteq> [] \<or> h_unregister h \<noteq> []"
    using r nextEvent_None [of e h] by (auto simp: runTurn_def)
  have t: "loop_inv h'" "snapshot_ok h'" "h_register h' = []" "h_unregister h' = []"
    using runTurn_returns [OF e l ne] r by auto
  obtain ev h1 where ev: "nextEvent e h = Some (ev, h1)" "drainAndRebuildSnapshot e (handleEvent e ev h1) = Some h'"
    using r by (auto simp: runTurn_def split: option.splits)
  have "kept h h'"
    using handleEvent_kept [OF l e ev(1)] drainAndRebuildSnapshot_kept [OF e handleEvent_loop_inv(1) [OF l e ev(1)] ev(2)]
    by (rule kept_trans)
  then show "sys_inv h'"
    using inv t kept_queues [of h h'] by (simp add: sys_inv_def hub_ok_def loop_inv_def kept_def)
  show "h_register h' = []" "h_unregister h' = []" by (rule t)+
qed

subsection \<open>Steps\<close>

text \<open>The writer goroutine takes one message off a buffer.\<close>

definition pumpTake :: "cref \<Rightarrow> hub \<Rightarrow> hub option" where
  "pumpTake c h = map_option snd (hubRecv c h)"

inductive hub_step :: "hub \<Rightarrow> hub \<Rightarrow> bool" where
  step_upgrade: "env_ok e \<Longrightarrow> upgrader_ok up \<Longrightarrow> fresh_ID uuid h \<Longrightarrow>
    upgradeStart e up uuid skip r (map WithUserID us) h = Some (res, h') \<Longrightarrow> hub_step h h'"
| step_upgraded: "upgradeFinish skip r c h = Some (res, h') \<Longrightarrow> hub_step h h'"
| step_turn: "env_ok e \<Longrightarrow> runTurn e h = Some h' \<Longrightarrow> hub_step h h'"
| step_stop: "hub_step h (runStop e h)"
| step_start: "hub_step h (runStart e sub h)"
| step_user: "c < h_cnext h \<Longrightarrow> SetUserID c u h = (res, h') \<Longrightarrow> hub_step h h'"
| step_join: "env_ok e \<Longrightarrow> JoinRoom e c n h = (res, h') \<Longrightarrow> hub_step h h'"
| step_leave: "env_ok e \<Longrightarrow> LeaveRoom e c n h = (res, h') \<Longrightarrow> hub_step h h'"
| step_leave_all: "env_ok e \<Longrightarrow> hub_step h (LeaveAllRooms e c h)"
| step_broadcast: "send_env e \<Longrightarrow> hub_step h (broadcastWithType e d k h)"
| step_except: "send_env e \<Longrightarrow> hub_step h (broadcastExceptWithType e d k except h)"
| step_room: "send_env e \<Longrightarrow> broadcastToRoomWithType e n d k h = (res, h') \<Longrightarrow> hub_step h h'"
| step_room_except: "send_env e \<Longrightarrow> broadcastToRoomExceptWithType e n d k except h = (res, h') \<Longrightarrow> hub_step h h'"
| step_to_user: "send_env e \<Longrightarrow> hub_step h (sendToUserWithType e u d k h)"
| step_send: "send_env e \<Longrightarrow> SendMessage e c k d h = (res, h') \<Longrightarrow> hub_step h h'"
| step_to_client: "send_env e \<Longrightarrow> sendToClientWithType e i d k h = (res, h') \<Longrightarrow> hub_step h h'"
| step_send_ctx: "SendMessageWithContext ctx c k d h = Some (res, h') \<Longrightarrow> hub_step h h'"
| step_broadcast_ctx: "BroadcastWithContext e ctx d h = Some (res, h') \<Longrightarrow> hub_step h h'"
| step_room_ctx: "BroadcastToRoomWithContext e ctx n d h = Some (res, h') \<Longrightarrow> hub_step h h'"
| step_adapter: "send_env e \<Longrightarrow> hub_step h (handleAdapterMessage e msg h)"
| step_read: "callbacks_keep e cb \<Longrightarrow> readOne e cb c t d h = Some h' \<Longrightarrow> hub_step h h'"
| step_read_exit: "readPumpExit skip c h = Some h' \<Longrightarrow> hub_step h h'"
| step_pump: "pumpTake c h = Some h' \<Longrightarrow> hub_step h h'"
| step_close: "hub_step h (CloseWithCode e c code reason h)"
| step_drain: "drainStart h = (v, h') \<Longrightarrow> hub_step h h'"
| step_reap: "reaperTick e m h = (m', h') \<Longrightarrow> hub_step h h'"
| step_shutdown: "hub_step h (Shutdown err h)"
| step_presence: "publishPresence e s h = (s', h') \<Longrightarrow> hub_step h h'"
| step_evict: "hub_step h (evictStaleNodes e h)"
| step_health: "hub_step h (HealthHandler e h)"
| step_ready: "hub_step h (ReadyHandler e h)"

lemma runStart_same: "same_registry h (runStart e sub h)"
  by (simp add: runStart_def Let_def ensurePool_def same_registry_def frame_simps trace_simps gauge_def kept_def)

lemma runStop_same: "same_registry h (runStop e h)"
proof -
  have "same_registry h (fold (Close e) cs h)" for cs
  proof (induction cs arbitrary: h)
    case (Cons c cs)
    show ?case using same_registry_trans [OF Close_same [of h e c] Cons.IH] by simp
  qed simp
  then have "same_registry h (emit (Log Info ''Hub shutdown complete'') (fold (Close e) (e_rangeC e (h_clients h)) h))"
    by (rule same_registry_emitI) simp
  moreover have "same_registry g (g\<lparr>h_alive := False\<rparr>)" for g :: hub
    by (simp add: same_registry_def gauge_def kept_def)
  ultimately show ?thesis unfolding runStop_def by (rule same_registry_trans)
qed

lemma SendMessageWithContext_same:
  assumes "SendMessageWithContext ctx c k d h = Some (res, h')"
  shows "same_registry h h'"
proof (cases "c_closed (h_mem h c)")
  case False
  let ?sel = "selectSend ctx c \<lparr>si_msgType = k, si_data = d\<rparr> h"
  obtain ok h1 where sel: "?sel = Some (ok, h1)"
    using assms False by (cases ?sel) (auto simp: SendMessageWithContext_def)
  then have "h' = h1" using assms False by (cases ok) (auto simp: SendMessageWithContext_def)
  with sel show ?thesis by (cases rule: selectSend_cases) (auto intro: pushed_registry)
qed (use assms in \<open>simp add: SendMessageWithContext_def\<close>)

lemma sendWithContext_same:
  assumes "distinct cs" and "0 < h_parallelBatchSize h" and "sendWithContext e ctx cs item h = Some (err, h')"
  shows "same_registry h h'"
  using sendWithContext_pushed [OF assms] pushed_registry by blast

lemma BroadcastWithContext_same:
  assumes "hub_ok h" and "BroadcastWithContext e ctx d h = Some (res, h')"
  shows "same_registry h h'"
proof -
  obtain h1 where "sendWithContext e ctx (s_slice (loadSnapshot h)) \<lparr>si_msgType = TextMessage, si_data = d\<rparr> h = Some (res, h1)"
    "h' = publishToAdapter e (zeroAdapterMessage\<lparr>am_Type := AdapterBroadcast, am_MsgType := TextMessage, am_Data := d\<rparr>) h1"
    using assms(2) by (auto simp: BroadcastWithContext_def split: option.splits)
  then show ?thesis
    using sendWithContext_same [OF hub_okD(5,3) [OF assms(1)]] publishToAdapter_same
    by (blast intro: same_registry_trans)
qed

lemma BroadcastToRoomWithContext_same:
  assumes "hub_ok h" and "BroadcastToRoomWithContext e ctx n d h = Some (res, h')"
  shows "same_registry h h'"
proof (cases "n = ''''")
  case False
  let ?send = "case h_rooms h n of None \<Rightarrow> Some (None, h)
    | Some r \<Rightarrow> sendWithContext e ctx (loadRoomSnapshot (h_rmem h r)) \<lparr>si_msgType = TextMessage, si_data = d\<rparr> h"
  obtain err h1 where s: "?send = Some (err, h1)"
    "h' = publishToAdapter e (zeroAdapterMessage\<lparr>am_Type := AdapterRoom, am_MsgType := TextMessage, am_Data := d, am_Room := n\<rparr>) h1"
    using assms(2) False by (auto simp: BroadcastToRoomWithContext_def Let_def split: option.splits)
  have "same_registry h h1"
  proof (cases "h_rooms h n")
    case (Some r)
    with s(1) show ?thesis
      using sendWithContext_same [OF roomSnapshot(2) [OF hub_okD(1) [OF assms(1)] Some] hub_okD(3) [OF assms(1)]] by simp
  qed (use s(1) in simp)
  with s(2) show ?thesis using publishToAdapter_same by (blast intro: same_registry_trans)
qed (use assms in \<open>simp add: BroadcastToRoomWithContext_def\<close>)

lemma sendToClientWithType_same:
  assumes "send_env e" and "hub_ok h" and "sendToClientWithType e i d k h = (res, h')"
  shows "same_registry h h'"
proof (cases "GetClient i h")
  case None
  then show ?thesis using assms(3) by (auto simp: sendToClientWithType_def intro: publishToAdapter_same split: if_splits)
next
  case (Some c)
  have "queue_ok (h_mem h c)" using hub_okD(2) [OF assms(2)] by (simp add: queues_ok_def)
  with Some assms show ?thesis
    using SendMessage_delivers(1) delivers_registry by (simp add: sendToClientWithType_def) blast
qed

lemma broadcastToRoomWithType_same:
  assumes "send_env e" and "hub_ok h" and "broadcastToRoomWithType e n d k h = (res, h')"
  shows "same_registry h h'"
  using BroadcastToRoom_sends(1) [OF assms(1,2) _ assms(3)] assms(3)
  by (cases "n = ''''") (auto simp: broadcastToRoomWithType_def sends_def)

lemma broadcastToRoomExceptWithType_same:
  assumes "send_env e" and "hub_ok h" and "broadcastToRoomExceptWithType e n d k ex h = (res, h')"
  shows "same_registry h h'"
  using BroadcastToRoomExcept_sends(1) [OF assms(1,2) _ assms(3)] assms(3)
  by (cases "n = ''''") (auto simp: broadcastToRoomExceptWithType_def sends_def)

lemma pumpTake_same: "pumpTake c h = Some h' \<Longrightarrow> same_registry h h'"
  by (auto simp: pumpTake_def hubRecv_def chanRecv_def same_registry_def gauge_def kept_def queue_ok_def
      split: option.splits list.splits if_splits)

lemma drainStart_same: "drainStart h = (v, h') \<Longrightarrow> same_registry h h'"
  by (auto simp: drainStart_def Let_def signalDrained_def same_registry_def gauge_def kept_def emit_def
      split: if_splits)

lemma reapLoop_same: "reapLoop e cs (m, h) = (m', h') \<Longrightarrow> same_registry h h'"
proof (induction cs arbitrary: m h)
  case (Cons c cs)
  let ?h1 = "CloseWithCode e c CloseGoingAway ''server draining''
    (emit (Log Info ''Closing idle connection during drain'') h)"
  have "same_registry h ?h1" by (rule same_registry_trans [OF same_registry_emit CloseWithCode_same]) simp
  then show ?case
    using Cons.IH Cons.prems by (auto split: if_splits option.splits intro: same_registry_trans)
qed simp

lemma Shutdown_same: "same_registry h (Shutdown err h)"
  by (simp add: Shutdown_def Let_def signalDrained_def same_registry_def gauge_def kept_def emit_def)

lemma publishPresence_same:
  assumes "publishPresence e s h = (s', h')"
  shows "same_registry h h'"
  using assms publishToAdapter_same
  by (auto simp: publishPresence_def presenceMarshal_def Let_def intro: same_registry_emit
      split: if_splits option.splits prod.splits)

lemma evictLoopNodes_same: "same_registry h (snd (evictLoopNodes cutoff ns (m, h)))"
proof (induction ns arbitrary: m h)
  case (Cons n ns)
  have "same_registry h (emit (Log Info ''evicted stale node'') h)" by (simp add: registry_intros)
  then show ?case using Cons.IH by (auto split: option.split intro: same_registry_trans)
qed simp

lemma evictStaleNodes_same: "same_registry h (evictStaleNodes e h)"
proof (cases "h_presenceCache h")
  case (Some m)
  let ?r = "evictLoopNodes (e_now e - h_presenceTTL h) (e_rangeS e (dom m)) (m, h)"
  have "same_registry (snd ?r) ((snd ?r)\<lparr>h_presenceCache := Some (fst ?r)\<rparr>)"
    by (simp add: same_registry_def gauge_def kept_def)
  with evictLoopNodes_same have "same_registry h ((snd ?r)\<lparr>h_presenceCache := Some (fst ?r)\<rparr>)"
    by (rule same_registry_trans)
  then show ?thesis using Some by (simp add: evictStaleNodes_def case_prod_beta)
qed (simp add: evictStaleNodes_def)

lemma health_same: "same_registry h (HealthHandler e h)" "same_registry h (ReadyHandler e h)"
  by (simp_all add: HealthHandler_def ReadyHandler_def healthJSON_def Let_def same_registry_emit quiet_def)

lemmas step_same = upgradeFinish_same runStart_same runStop_same SendMessageWithContext_same
  BroadcastWithContext_same BroadcastToRoomWithContext_same sendToClientWithType_same
  broadcastToRoomWithType_same broadcastToRoomExceptWithType_same pumpTake_same drainStart_same
  Shutdown_same publishPresence_same evictStaleNodes_same CloseWithCode_same health_same
  handleAdapterMessage_same

subsection \<open>Every reachable hub satisfies the invariant\<close>

lemma hub_step_inv: "hub_step h h' \<Longrightarrow> sys_inv h \<Longrightarrow> sys_inv h'"
proof (induction rule: hub_step.induct)
  case (step_upgrade e up uuid h skip r us res h')
  then show ?case by (blast intro: upgradeStart_sys)
next
  case (step_turn e h h')
  then show ?case by (blast intro: runTurn_sys)
next
  case (step_user c h u res h')
  then show ?case by (blast intro: SetUserID_sys)
next
  case (step_join e c n h res h')
  then show ?case using JoinRoom_inv JoinRoom_clients sys_invD(1) by (blast intro: sys_invI)
next
  case (step_leave e c n h res h')
  then show ?case using LeaveRoom_inv LeaveRoom_clients sys_invD(1) by (blast intro: sys_invI)
next
  case (step_leave_all e h c)
  then show ?case
    using removeAll_spec [OF sys_invD(1), of h e c] unfolding LeaveAllRooms_def left_all_def by (blast intro: sys_invI)
next
  case (step_broadcast e h d k)
  then show ?case using Broadcast_sends sys_invD(2) unfolding sends_def by (blast intro: same_registry_sys)
next
  case (step_except e h d k except)
  then show ?case using BroadcastExcept_sends sys_invD(2) unfolding sends_def by (blast intro: same_registry_sys)
next
  case (step_to_user e h u d k)
  then show ?case using SendToUser_sends sys_invD(2) unfolding sends_def by (blast intro: same_registry_sys)
next
  case (step_send e c k d h res h')
  then have "queue_ok (h_mem h c)" using sys_invD(6) by (simp add: queues_ok_def)
  with step_send show ?case using SendMessage_delivers(1) delivers_registry by (blast intro: same_registry_sys)
next
  case (step_read e cb c t d h h')
  obtain ok cl where "rateStep (MaxMessageRate (h_limits h)) (e_now e) (h_mem h c) = (ok, cl)" by force
  from readOne_rate [OF step_read(1) this, of t d] step_read show ?case by (auto intro: same_registry_sys)
next
  case (step_read_exit skip c h h')
  then show ?case by (blast intro: readPumpExit_sys)
next
  case (step_reap e m h m' h')
  then show ?case unfolding reaperTick_def Let_def by (blast intro: same_registry_sys reapLoop_same)
qed (blast intro: same_registry_sys step_same dest: sys_invD(2))+

text \<open>Every option of options.go the model has state for.\<close>

definition Options :: "(hub \<Rightarrow> hub) set" where
  "Options = range WithConfig \<union> range WithLimits \<union> range WithParallelBroadcast \<union>
     range WithParallelBroadcastWorkers \<union> range WithMessageHandler \<union> {WithoutHandlerLatency} \<union>
     range WithDropPolicy \<union> range WithNodeID \<union> range WithHookTimeout \<union> range WithAdapter \<union>
     range WithDrainTimeout \<union> range WithPresence"

lemmas option_defs = WithConfig_def WithLimits_def WithParallelBroadcast_def
  WithParallelBroadcastWorkers_def WithMessageHandler_def WithoutHandlerLatency_def WithDropPolicy_def
  WithNodeID_def WithHookTimeout_def WithAdapter_def WithDrainTimeout_def WithPresence_def

text \<open>A hub without clients.\<close>

definition blank :: "hub \<Rightarrow> bool" where
  "blank h \<longleftrightarrow> h_clients h = {} \<and> h_clientIndex h = (\<lambda>_. None) \<and> h_clientCount h = 0 \<and> h_cnext h = 0 \<and>
     h_rooms h = (\<lambda>_. None) \<and> h_userIndex h = (\<lambda>_. None) \<and> h_register h = [] \<and> h_roomVersion h = 0 \<and>
     (\<forall>c. c_rooms (h_mem h c) = {} \<and> queue_ok (h_mem h c)) \<and> 0 < h_parallelBatchSize h \<and>
     gauge conn_delta h = 0 \<and> gauge room_delta h = 0"

lemma blank_literal: "blank (hubLiteral u i n)"
  by (simp add: blank_def hubLiteral_def gauge_def queue_ok_def DefaultConfig_def)

lemma blank_option: "blank h \<Longrightarrow> opt \<in> Options \<Longrightarrow> blank (opt h)"
  unfolding Options_def
  by (elim UnE rangeE singletonE; simp add: option_defs blank_def gauge_def Let_def)

lemma blank_options: "blank h \<Longrightarrow> set opts \<subseteq> Options \<Longrightarrow> blank (fold (\<lambda>opt. opt) opts h)"
  by (induction opts arbitrary: h) (auto simp: blank_option)

lemma blank_emit_logs: "blank h \<Longrightarrow> blank (emit_all (map (\<lambda>w. Log l (f w)) ws) h)"
proof (induction ws arbitrary: h)
  case (Cons w ws)
  have "blank (emit (Log l (f w)) h)" using Cons.prems by (simp add: blank_def frame_simps trace_simps)
  with Cons.IH show ?case by simp
qed simp

lemma blank_registry:
  assumes "blank h"
  shows "registry_inv h"
proof -
  have m: "members h n = {}" "users h u = {}" for n u using assms by (simp_all add: blank_def members_def users_def)
  show ?thesis
    using assms by (simp add: registry_inv_def registry_inv_defs m blank_def)
qed

lemma NewHub_blank:
  assumes "set opts \<subseteq> Options"
  shows "blank (NewHub u probe i n opts)" "snapshot_ok (NewHub u probe i n opts)"
    "0 < SendChannelSize (h_config (NewHub u probe i n opts))"
proof -
  define h1 where "h1 = fold (\<lambda>opt. opt) opts (hubLiteral u i n)"
  define h2 where "h2 = emit_all (map (\<lambda>w. Log Warn (configWarning_text w)) (validateConfig (h_config h1))) h1"
  define h3 where "h3 = h2\<lparr>h_config := applyConfigDefaults u (h_config h2)\<rparr>"
  have b2: "blank h2" unfolding h2_def h1_def by (intro blank_emit_logs blank_options blank_literal assms)
  then have b3: "blank h3" by (simp add: h3_def blank_def gauge_def)
  have s3: "0 < SendChannelSize (h_config h3)"
    by (simp add: h3_def applyConfigDefaults_fields orDefault_def)
  define h4 where "h4 = (case CheckOrigin (h_config h3) of None \<Rightarrow> h3
    | Some chk \<Rightarrow> if chk probe then emit (Log Warn ''SECURITY: CheckOrigin accepts every origin'') h3 else h3)"
  have b4: "blank h4" "h_config h4 = h_config h3"
    using b3 by (auto simp: h4_def blank_def frame_simps trace_simps split: option.split)
  have N: "NewHub u probe i n opts =
    (let h5 = h4\<lparr>h_clientsSnapshot := Some \<lparr>s_set = {}, s_slice = []\<rparr>\<rparr>
     in if h_adapter h5 \<and> h_presenceInterval h5 > 0 then h5\<lparr>h_presenceCache := Some (\<lambda>_. None)\<rparr> else h5)"
    unfolding NewHub_def h4_def h3_def h2_def h1_def Let_def by (rule refl)
  show "blank (NewHub u probe i n opts)" using b4(1) by (simp add: N Let_def blank_def gauge_def)
  show "snapshot_ok (NewHub u probe i n opts)"
    using b4(1) by (simp add: N Let_def snapshot_ok_def loadSnapshot_def blank_def)
  show "0 < SendChannelSize (h_config (NewHub u probe i n opts))" using s3 b4(2) by (simp add: N Let_def)
qed

lemma NewHub_sys_inv:
  assumes "set opts \<subseteq> Options"
  shows "sys_inv (NewHub u probe i n opts)"
proof -
  note b = NewHub_blank [OF assms, of u probe i n]
  have "pending_ok (NewHub u probe i n opts)" "queues_ok (NewHub u probe i n opts)"
    "0 < h_parallelBatchSize (NewHub u probe i n opts)"
    using b(1) by (simp_all add: pending_ok_def queues_ok_def blank_def)
  with b blank_registry [OF b(1)] show ?thesis by (simp add: sys_inv_def hub_ok_def)
qed

definition hub_init :: "hub \<Rightarrow> bool" where
  "hub_init h \<longleftrightarrow> (\<exists>u probe i n opts. set opts \<subseteq> Options \<and> h = NewHub u probe i n opts)"

interpretation hubsys: transition_system hub_init hub_step sys_inv
  by unfold_locales (auto simp: hub_init_def NewHub_sys_inv intro: hub_step_inv)

subsection \<open>Properties of every reachable hub\<close>

lemmas reachable = hubsys.reach_inv

text \<open>C1: In every hub reachable from \<open>NewHub\<close> with any options, by any sequence of upgrades, loop
  turns, room and user operations, sends, reads, writes, closes, drains and shutdowns, the registry
  invariant holds: the client map, ID index and counter agree, every client is exactly in its
  user's entry, rooms and clients agree on membership and no room is empty, limits hold, gauges are
  exact; the snapshot is exact and no send buffer exceeds its capacity.\<close>

theorem reachable_invariant:
  assumes "reach hub_init hub_step h"
  shows "registry_inv h \<and> snapshot_ok h \<and> queues_ok h \<and> pending_ok h"
  using sys_invD [OF reachable [OF assms]] by simp

text \<open>The hub of the witnesses below: just created, with the example limits, and running.\<close>

definition startedHub :: hub where
  "startedHub = runStart exampleEnv None
     (NewHub (\<lambda>_. None) exampleRequest ''A'' 4 [WithLimits exampleLimits, WithDropPolicy DropOldest])"

lemma startedHub_reach: "reach hub_init hub_step startedHub"
proof -
  have "hub_init (NewHub (\<lambda>_. None) exampleRequest ''A'' 4 [WithLimits exampleLimits, WithDropPolicy DropOldest])"
    unfolding hub_init_def
    by (rule exI, rule exI, rule exI, rule exI, rule exI, rule conjI [OF _ refl]) (simp add: Options_def)
  then show ?thesis unfolding startedHub_def by (blast intro: reach.intros step_start)
qed

lemma emit_all_limits: "h_limits (emit_all xs h) = h_limits h"
  by (induction xs arbitrary: h) (simp_all add: frame_simps)

lemma startedHub_limits: "h_limits startedHub = exampleLimits"
  unfolding startedHub_def runStart_def NewHub_def Let_def
  by (auto simp: emit_all_limits ensurePool_def frame_simps WithLimits_def WithDropPolicy_def split: option.split)

theorem reachable_invariant_witness: "registry_inv startedHub \<and> snapshot_ok startedHub"
  using reachable_invariant [OF startedHub_reach] by simp



text \<open>C3: Every configured limit holds in every reachable hub: connections, connections per user,
  clients per room, rooms per client. A limit that is zero or negative means unlimited.\<close>

theorem reachable_limits:
  assumes "reach hub_init hub_step h"
  shows "(0 < MaxConnections (h_limits h) \<longrightarrow> ClientCount h \<le> MaxConnections (h_limits h)) \<and>
    (0 < MaxConnectionsPerUser (h_limits h) \<longrightarrow>
       (\<forall>u. int (card (users h u)) \<le> MaxConnectionsPerUser (h_limits h))) \<and>
    (0 < MaxClientsPerRoom (h_limits h) \<longrightarrow> (\<forall>n. int (card (members h n)) \<le> MaxClientsPerRoom (h_limits h))) \<and>
    (0 < MaxRoomsPerClient (h_limits h) \<longrightarrow> (\<forall>c. ClientRoomCount c h \<le> MaxRoomsPerClient (h_limits h)))"
  using sys_invD(1) [OF reachable [OF assms]]
  by (auto simp: registry_inv_def inv_limits_def within_limit_def inv_clients_def ClientCount_def ClientRoomCount_def)

theorem reachable_limits_witness: "ClientCount startedHub \<le> 3"
  using reachable_limits [OF startedHub_reach] by (simp add: startedHub_limits exampleLimits_def)

text \<open>The calls of the metrics collector in a trace.\<close>

fun metric_calls :: "effect list \<Rightarrow> metric list" where
  "metric_calls [] = []"
| "metric_calls (Metric m # xs) = m # metric_calls xs"
| "metric_calls (_ # xs) = metric_calls xs"

lemma metric_calls_tally: "tally d (metric_calls xs) = tally (metric_part d) xs"
  by (induction xs rule: metric_calls.induct) simp_all

text \<open>C4: The gauges of \<open>DebugMetrics\<close> do not drift: a collector that received every metrics call of
  a reachable hub reports exactly the number of registered clients as active connections and
  the number of existing rooms as active rooms.\<close>

theorem debug_gauges_exact:
  assumes "reach hub_init hub_step h"
  shows "ActiveConnections (dm_Stats now (foldl dm_collect (NewDebugMetrics t0) (metric_calls (h_trace h)))) =
      ClientCount h \<and>
    ActiveRooms (dm_Stats now (foldl dm_collect (NewDebugMetrics t0) (metric_calls (h_trace h)))) =
      int (card {n. RoomExists n h})"
proof -
  have "{n. RoomExists n h} = dom (h_rooms h)" by (auto simp: RoomExists_def)
  then show ?thesis
    using sys_invD(1) [OF reachable [OF assms]]
    by (simp add: dm_Stats_def debug.conns_replay debug.rooms_replay NewDebugMetrics_def metric_calls_tally
        registry_inv_def inv_gauges_def gauge_def ClientCount_def)
qed

theorem debug_gauges_exact_witness:
  "ActiveConnections (dm_Stats 0 (foldl dm_collect (NewDebugMetrics 0) (metric_calls (h_trace startedHub)))) =
     ClientCount startedHub"
  using debug_gauges_exact [OF startedHub_reach] by simp

lemma handleEvent_answers:
  assumes "loop_inv h" and "env_ok e" and ev: "nextEvent e h = Some (ev, h1)" and c: "c \<in> set (h_register h)"
  shows "c \<in> set (h_register (handleEvent e ev h1)) \<or> h_results (handleEvent e ev h1) c \<noteq> None"
  using ev
proof (cases rule: nextEvent_cases)
  case (reg x rs)
  have "h_results (handleRegister e x h1) x \<noteq> None"
    by (cases rule: handleRegister_cases [of h1 e x]) (simp_all add: frame_simps)
  with reg c handleRegister_queues [of e x h1] show ?thesis by (auto simp: handleEvent_def)
next
  case (unreg x us)
  then have "registry_inv h1" using assms(1) by (simp add: loop_inv_def)
  from handleUnregister_queues [OF this assms(2), of x] unreg c show ?thesis by (simp add: handleEvent_def)
qed

lemma drain_answers:
  assumes e: "env_ok e"
  shows "loop_inv h \<Longrightarrow> drainAndRebuildSnapshot e h = Some h' \<Longrightarrow>
    c \<in> set (h_register h) \<or> h_results h c \<noteq> None \<Longrightarrow> h_results h' c \<noteq> None"
proof (induction "length (h_register h) + length (h_unregister h)" arbitrary: h rule: less_induct)
  case less
  show ?case
  proof (cases "nextEvent e h")
    case None
    then have "h' = updateClientsSnapshot e h" "h_register h = []"
      using less.prems(2) nextEvent_None [of e h] by (simp_all add: drainAndRebuildSnapshot.simps [of e h])
    with less.prems(3) show ?thesis by (simp add: updateClientsSnapshot_def)
  next
    case (Some p)
    then obtain ev h1 where ev: "nextEvent e h = Some (ev, h1)" by (cases p) auto
    note step = handleEvent_loop_inv [OF less.prems(1) e ev]
    have "c \<in> set (h_register (handleEvent e ev h1)) \<or> h_results (handleEvent e ev h1) c \<noteq> None"
      using less.prems(3) handleEvent_answers [OF less.prems(1) e ev] handleEvent_kept [OF less.prems(1) e ev]
      by (auto simp: kept_def)
    from less.hyps [OF step(2,1) _ this] less.prems(2) ev show ?thesis
      by (simp add: drainAndRebuildSnapshot.simps [of e h])
  qed
qed

text \<open>C16: No upgrade waits forever: in every reachable hub a turn of the Run loop exists and answers
  every registration that was pending, so each waiting \<open>UpgradeConnection\<close> returns: with its
  client, or with an error and the connection closed.\<close>

theorem upgrades_are_answered:
  assumes "reach hub_init hub_step h" and "env_ok e" and "h_register h \<noteq> []"
  shows "\<exists>h'. runTurn e h = Some h' \<and> (\<forall>c\<in>set (h_register h). \<exists>res h''.
    upgradeFinish skip r c h' = Some (res, h'') \<and>
    (case res of Inr d \<Rightarrow> d = c | Inl err \<Rightarrow> c_connClosed (h_mem h'' c)))"
proof -
  have l: "loop_inv h" using sys_invD(3) [OF reachable [OF assms(1)]] .
  obtain h' where h': "runTurn e h = Some h'" using runTurn_returns [OF assms(2) l] assms(3) by auto
  obtain ev h1 where ev: "nextEvent e h = Some (ev, h1)" "drainAndRebuildSnapshot e (handleEvent e ev h1) = Some h'"
    using h' by (auto simp: runTurn_def split: option.splits)
  have "h_results h' c \<noteq> None" if "c \<in> set (h_register h)" for c
    using drain_answers [OF assms(2) handleEvent_loop_inv(1) [OF l assms(2) ev(1)] ev(2)]
      handleEvent_answers [OF l assms(2) ev(1) that] by blast
  then have "\<forall>c\<in>set (h_register h). \<exists>res h''. upgradeFinish skip r c h' = Some (res, h'') \<and>
      (case res of Inr d \<Rightarrow> d = c | Inl err \<Rightarrow> c_connClosed (h_mem h'' c))"
    by (fastforce simp: upgradeFinish_def writeCloseAndClose_def frame_simps closeConn_def split: option.splits)
  with h' show ?thesis by blast
qed

text \<open>A hub reached from \<open>startedHub\<close> by an upgrade whose registration is pending.\<close>

definition pendingHub :: hub where
  "pendingHub = (case upgradeStart exampleEnv (\<lambda>chk r h. (None, h)) ''c0'' False exampleRequest [] startedHub of
     Some (_, h) \<Rightarrow> h | None \<Rightarrow> startedHub)"

lemma emit_all_eq: "emit_all xs h = h\<lparr>h_trace := h_trace h @ xs\<rparr>"
  by (induction xs arbitrary: h) (simp_all add: emit_def)

lemma startedHub_state:
  "Alive startedHub" "State startedHub = StateRunning" "h_clientCount startedHub = 0" "h_register startedHub = []"
  "h_cnext startedHub = 0" "\<not> h_ctxDone startedHub"
  unfolding startedHub_def runStart_def NewHub_def Let_def
  by (auto simp: emit_all_eq ensurePool_def emit_def WithLimits_def WithDropPolicy_def Alive_def State_def hubLiteral_def
      split: option.split)

lemma pendingHub_eq:
  "\<exists>res. upgradeStart exampleEnv (\<lambda>chk r h. (None, h)) ''c0'' False exampleRequest [] startedHub = Some (res, pendingHub) \<and>
    h_register pendingHub = [0]"
proof -
  have h: "BeforeConnect (e_hooks exampleEnv) = None" by (simp add: exampleEnv_def noHooks_def)
  show ?thesis
    unfolding pendingHub_def
    using startedHub_state h startedHub_limits by (simp add: upgradeStart_def allocClient_def Let_def exampleLimits_def)
qed

lemma pendingHub_reach: "reach hub_init hub_step pendingHub"
proof -
  obtain res where r: "upgradeStart exampleEnv (\<lambda>chk r h. (None, h)) ''c0'' False exampleRequest (map WithUserID []) startedHub = Some (res, pendingHub)"
    using pendingHub_eq by auto
  have "upgrader_ok (\<lambda>chk r h. (None, h))" by (simp add: upgrader_ok_def)
  moreover have "fresh_ID ''c0'' startedHub" using startedHub_state(5) by (simp add: fresh_ID_def)
  ultimately have "hub_step startedHub pendingHub" using step_upgrade [OF exampleEnv_ok(1) _ _ r] by blast
  then show ?thesis using startedHub_reach by (blast intro: reach.intros)
qed

theorem upgrades_are_answered_witness:
  "\<exists>h' res h''. runTurn exampleEnv pendingHub = Some h' \<and> upgradeFinish False exampleRequest 0 h' = Some (res, h'')"
proof -
  have r: "h_register pendingHub = [0]" using pendingHub_eq by blast
  then have ne: "h_register pendingHub \<noteq> []" by simp
  from upgrades_are_answered [OF pendingHub_reach exampleEnv_ok(1) ne, of False exampleRequest] show ?thesis
    unfolding r by (metis list.set_intros(1))
qed

end
