(* ===== verification/Ws_Races.thy ===== *)
theory Ws_Races
  imports Ws_System
begin

section \<open>Interleavings inside operations (hub.go)\<close>

text \<open>
  \<open>Ws_System\<close> interleaves whole operations. This theory looks inside: first at the handshake by
  which \<open>Drain\<close>, the Run loop and \<open>Shutdown\<close> close \<open>drainDone\<close> through atomic variables, with
  one step for each atomic access; then at the places where an operation releases its locks
  between a check and the change that relies on it.
\<close>

subsection \<open>The drain handshake\<close>

text \<open>
  Where each goroutine is. A caller of \<open>Drain\<close>: before the compare-and-swap, after winning or
  losing it, after reading a zero count, in the final \<open>select\<close>, returned. The Run loop: between
  events; in \<open>handleUnregister\<close> after the client left the maps, after \<open>clientCount.Add(-1)\<close>,
  after reading the state, after reading a zero count; in \<open>handleRegister\<close> after the client
  entered the maps. \<open>Shutdown\<close>: not called, state stored, \<open>drainDone\<close> closed.
\<close>

datatype drainPc = DStart | DWon | DLost | DSignal | DWaiting | DReturned

datatype runPc = RIdle | RRemoved | RDecremented | RDraining | RZero | RAdded

datatype stopPc = SStart | SStored | SClosed

record handshake =
  hs_state :: HubState
  hs_clients :: "cref set"
  hs_count :: int
  hs_drainDone :: bool
  hs_drain :: "nat \<Rightarrow> drainPc"
  hs_run :: runPc
  hs_stop :: stopPc

definition at_drain :: "nat \<Rightarrow> drainPc \<Rightarrow> handshake \<Rightarrow> handshake" where
  "at_drain i pc s = s\<lparr>hs_drain := (hs_drain s)(i := pc)\<rparr>"

text \<open>One atomic step of the \<open>i\<close>-th caller of \<open>Drain\<close>; \<open>None\<close> when it waits or has returned. The
  context of the caller is left out: it can only make \<open>Drain\<close> return earlier.\<close>

definition drainerStep :: "nat \<Rightarrow> handshake \<Rightarrow> handshake option" where
  "drainerStep i s = (case hs_drain s i of
       DStart \<Rightarrow> Some (if hs_state s = StateRunning
                        then at_drain i DWon (s\<lparr>hs_state := StateDraining\<rparr>) else at_drain i DLost s)
     | DLost \<Rightarrow> Some (at_drain i (if hs_state s = StateStopped then DReturned else DWaiting) s)
     | DWon \<Rightarrow> Some (at_drain i (if hs_count s = 0 then DSignal else DWaiting) s)
     | DSignal \<Rightarrow> Some (at_drain i DReturned (s\<lparr>hs_drainDone := True\<rparr>))
     | DWaiting \<Rightarrow> if hs_drainDone s then Some (at_drain i DReturned s) else None
     | DReturned \<Rightarrow> None)"

text \<open>One atomic step of the Run loop inside a handler; \<open>None\<close> between events.\<close>

definition runnerStep :: "handshake \<Rightarrow> handshake option" where
  "runnerStep s = (case hs_run s of
       RIdle \<Rightarrow> None
     | RAdded \<Rightarrow> Some (s\<lparr>hs_count := hs_count s + 1, hs_run := RIdle\<rparr>)
     | RRemoved \<Rightarrow> Some (s\<lparr>hs_count := hs_count s - 1, hs_run := RDecremented\<rparr>)
     | RDecremented \<Rightarrow> Some (s\<lparr>hs_run := (if hs_state s = StateDraining then RDraining else RIdle)\<rparr>)
     | RDraining \<Rightarrow> Some (s\<lparr>hs_run := (if hs_count s = 0 then RZero else RIdle)\<rparr>)
     | RZero \<Rightarrow> Some (s\<lparr>hs_drainDone := True, hs_run := RIdle\<rparr>))"

text \<open>The Run loop takes an event: a client enters or leaves the maps under \<open>h.mu\<close>.\<close>

definition runnerTakes :: "runEvent \<Rightarrow> handshake \<Rightarrow> handshake option" where
  "runnerTakes ev s = (if hs_run s \<noteq> RIdle then None else case ev of
       EvRegister c \<Rightarrow> if c \<in> hs_clients s then None
                        else Some (s\<lparr>hs_clients := insert c (hs_clients s), hs_run := RAdded\<rparr>)
     | EvUnregister c \<Rightarrow> if c \<notin> hs_clients s then None
                        else Some (s\<lparr>hs_clients := hs_clients s - {c}, hs_run := RRemoved\<rparr>))"

definition stopperStep :: "handshake \<Rightarrow> handshake option" where
  "stopperStep s = (case hs_stop s of
       SStart \<Rightarrow> Some (s\<lparr>hs_state := StateStopped, hs_stop := SStored\<rparr>)
     | SStored \<Rightarrow> Some (s\<lparr>hs_drainDone := True, hs_stop := SClosed\<rparr>)
     | SClosed \<Rightarrow> None)"

inductive handshake_step :: "handshake \<Rightarrow> handshake \<Rightarrow> bool" where
  step_drainer: "drainerStep i s = Some t \<Longrightarrow> handshake_step s t"
| step_runner: "runnerStep s = Some t \<Longrightarrow> handshake_step s t"
| step_event: "runnerTakes ev s = Some t \<Longrightarrow> handshake_step s t"
| step_stopper: "stopperStep s = Some t \<Longrightarrow> handshake_step s t"

definition handshakeOf :: "hub \<Rightarrow> handshake" where
  "handshakeOf h = \<lparr>hs_state = h_state h, hs_clients = h_clients h, hs_count = h_clientCount h,
     hs_drainDone = h_drainDone h, hs_drain = (\<lambda>_. DStart), hs_run = RIdle, hs_stop = SStart\<rparr>"

text \<open>The handshake of a running hub that nobody has drained yet.\<close>

definition handshake_init :: "handshake \<Rightarrow> bool" where
  "handshake_init s \<longleftrightarrow> (\<exists>h. s = handshakeOf h \<and> h_state h = StateRunning \<and> \<not> h_drainDone h \<and>
     finite (h_clients h) \<and> h_clientCount h = int (card (h_clients h)))"

subsection \<open>The steps compose to the operations\<close>

text \<open>Without interference the steps of one goroutine do what the operation of the model does.\<close>

definition visible :: "handshake \<Rightarrow> HubState \<times> cref set \<times> int \<times> bool" where
  "visible s = (hs_state s, hs_clients s, hs_count s, hs_drainDone s)"

fun drainer :: "nat \<Rightarrow> nat \<Rightarrow> handshake \<Rightarrow> handshake" where
  "drainer i 0 s = s"
| "drainer i (Suc n) s = (case drainerStep i s of None \<Rightarrow> s | Some t \<Rightarrow> drainer i n t)"

fun runner :: "nat \<Rightarrow> handshake \<Rightarrow> handshake" where
  "runner 0 s = s"
| "runner (Suc n) s = (case runnerStep s of None \<Rightarrow> s | Some t \<Rightarrow> runner n t)"

lemmas handshake_defs = drainerStep_def runnerStep_def runnerTakes_def stopperStep_def at_drain_def

lemma drainer_drainStart:
  "visible (drainer i 3 (handshakeOf h)) = visible (handshakeOf (snd (drainStart h)))"
  by (auto simp: handshake_defs visible_def drainStart_def handshakeOf_def signalDrained_def emit_def
      numeral_3_eq_3 Let_def)

lemma runner_addClient:
  assumes "c \<notin> h_clients h" and "runnerTakes (EvRegister c) (handshakeOf h) = Some s"
  shows "visible (runner 1 s) = visible (handshakeOf (addClient c h))"
  using assms by (auto simp: handshake_defs visible_def handshakeOf_def addClient_def)

lemma runner_removeClient:
  assumes "c \<in> h_clients h" and "runnerTakes (EvUnregister c) (handshakeOf h) = Some s"
  shows "visible (runner 4 s) = visible (handshakeOf (shutClient e c (removeClient c h)))"
  using assms
  by (auto simp: handshake_defs visible_def handshakeOf_def removeClient_def shutClient_def signalDrained_def
      upd_client_def numeral_eq_Suc Let_def)

subsection \<open>No lost wake-up\<close>

text \<open>The counter lags the map by the step the Run loop has still to make; and while the hub
  drains with a zero counter, \<open>drainDone\<close> is closed or somebody is on the way to close it.\<close>

definition lag :: "runPc \<Rightarrow> int" where
  "lag pc = (case pc of RRemoved \<Rightarrow> 1 | RAdded \<Rightarrow> - 1 | _ \<Rightarrow> 0)"

definition closer :: "handshake \<Rightarrow> bool" where
  "closer s \<longleftrightarrow> (\<exists>i. hs_drain s i \<in> {DWon, DSignal}) \<or> hs_run s \<in> {RDecremented, RDraining, RZero}"

definition count_lags :: "handshake \<Rightarrow> bool" where
  "count_lags s \<longleftrightarrow> finite (hs_clients s) \<and> hs_count s = int (card (hs_clients s)) + lag (hs_run s) \<and>
     (hs_run s = RAdded \<longrightarrow> hs_clients s \<noteq> {})"

definition nothing_lost :: "handshake \<Rightarrow> bool" where
  "nothing_lost s \<longleftrightarrow> (hs_state s = StateDraining \<and> hs_count s = 0 \<longrightarrow> hs_drainDone s \<or> closer s)"

definition stop_order :: "handshake \<Rightarrow> bool" where
  "stop_order s \<longleftrightarrow> (hs_state s = StateStopped \<longleftrightarrow> hs_stop s \<noteq> SStart) \<and> (hs_stop s = SClosed \<longrightarrow> hs_drainDone s) \<and>
     (hs_state s = StateRunning \<longrightarrow> hs_run s \<notin> {RDraining, RZero} \<and> (\<forall>i. hs_drain s i = DStart))"

definition handshake_inv :: "handshake \<Rightarrow> bool" where
  "handshake_inv s \<longleftrightarrow> count_lags s \<and> nothing_lost s \<and> stop_order s"

lemma handshake_init_inv: "handshake_init s \<Longrightarrow> handshake_inv s"
  by (auto simp: handshake_init_def handshakeOf_def handshake_inv_def count_lags_def nothing_lost_def stop_order_def
      lag_def)

lemma closer_at_drain:
  "closer (at_drain i pc s) \<longleftrightarrow> pc \<in> {DWon, DSignal} \<or> closer (at_drain i DReturned s)"
  by (auto simp: closer_def at_drain_def)

lemma closer_other: "closer s \<Longrightarrow> hs_drain s i \<notin> {DWon, DSignal} \<Longrightarrow> closer (at_drain i pc s)"
  by (auto simp: closer_def at_drain_def)

lemma closer_fields [simp]:
  "closer (s\<lparr>hs_state := st\<rparr>) = closer s" "closer (s\<lparr>hs_drainDone := b\<rparr>) = closer s"
  by (simp_all add: closer_def)

lemma at_drain_fields [simp]:
  "hs_state (at_drain i pc s) = hs_state s" "hs_clients (at_drain i pc s) = hs_clients s"
  "hs_count (at_drain i pc s) = hs_count s" "hs_drainDone (at_drain i pc s) = hs_drainDone s"
  "hs_run (at_drain i pc s) = hs_run s" "hs_stop (at_drain i pc s) = hs_stop s"
  by (simp_all add: at_drain_def)

lemma drainer_lost:
  assumes "nothing_lost s" and "drainerStep i s = Some t"
  shows "nothing_lost t"
proof (cases "hs_drain s i")
  case DStart
  then show ?thesis
    using assms closer_other [of s i DLost] closer_at_drain [of i DWon "s\<lparr>hs_state := StateDraining\<rparr>"]
    by (auto simp: drainerStep_def nothing_lost_def split: if_splits)
next
  case DLost
  then show ?thesis
    using assms closer_other [of s i DWaiting] closer_other [of s i DReturned]
    by (auto simp: drainerStep_def nothing_lost_def split: if_splits)
next
  case DWon
  then show ?thesis
    using assms closer_at_drain [of i DSignal s] by (auto simp: drainerStep_def nothing_lost_def split: if_splits)
qed (use assms in \<open>auto simp: drainerStep_def nothing_lost_def split: if_splits\<close>)

lemma drainer_moves:
  assumes "drainerStep i s = Some t" and "hs_state s = StateRunning \<longrightarrow> (\<forall>i. hs_drain s i = DStart)"
  shows "hs_clients t = hs_clients s" "hs_count t = hs_count s" "hs_run t = hs_run s" "hs_stop t = hs_stop s"
    "hs_state t \<noteq> StateRunning" "hs_state t = StateStopped \<longleftrightarrow> hs_state s = StateStopped" "hs_drainDone s \<Longrightarrow> hs_drainDone t"
  using assms by (cases "hs_drain s i"; auto simp: drainerStep_def split: if_splits)+

lemma drainer_inv:
  assumes "handshake_inv s" and "drainerStep i s = Some t"
  shows "handshake_inv t"
proof -
  have o: "hs_state s = StateRunning \<longrightarrow> (\<forall>i. hs_drain s i = DStart)"
    using assms(1) by (simp add: handshake_inv_def stop_order_def)
  show ?thesis
    using assms(1) drainer_lost [OF _ assms(2)] drainer_moves [OF assms(2) o]
    by (simp add: handshake_inv_def count_lags_def stop_order_def)
qed

lemma runner_inv:
  assumes "handshake_inv s" and "runnerStep s = Some t"
  shows "handshake_inv t"
proof -
  have "count_lags t"
    using assms
    by (cases "hs_run s") (auto simp: runnerStep_def handshake_inv_def count_lags_def lag_def split: if_splits)
  moreover have "stop_order t"
    using assms(1) assms(2) [symmetric]
    by (cases "hs_run s"; simp add: runnerStep_def handshake_inv_def stop_order_def split: if_splits)
  moreover have "nothing_lost t"
    using assms(1) assms(2) [symmetric] card_gt_0_iff [of "hs_clients s"]
    by (cases "hs_run s";
        simp add: runnerStep_def handshake_inv_def nothing_lost_def count_lags_def lag_def closer_def split: if_splits)
  ultimately show ?thesis by (simp add: handshake_inv_def)
qed

lemma event_inv:
  assumes "handshake_inv s" and "runnerTakes ev s = Some t"
  shows "handshake_inv t"
proof -
  have f: "finite (hs_clients s)" "hs_run s = RIdle"
    using assms by (auto simp: handshake_inv_def count_lags_def runnerTakes_def split: if_splits)
  show ?thesis
  proof (cases ev)
    case (EvRegister c)
    then have "c \<notin> hs_clients s" "t = s\<lparr>hs_clients := insert c (hs_clients s), hs_run := RAdded\<rparr>"
      using assms(2) f by (auto simp: runnerTakes_def split: if_splits)
    then show ?thesis
      using assms(1) f
      by (simp add: handshake_inv_def count_lags_def nothing_lost_def stop_order_def closer_def lag_def)
  next
    case (EvUnregister c)
    then have "c \<in> hs_clients s" "t = s\<lparr>hs_clients := hs_clients s - {c}, hs_run := RRemoved\<rparr>"
      using assms(2) f by (auto simp: runnerTakes_def split: if_splits)
    then show ?thesis
      using assms(1) f card_Suc_Diff1 [OF f(1), of c]
      by (simp add: handshake_inv_def count_lags_def nothing_lost_def stop_order_def closer_def lag_def)
  qed
qed

lemma stopper_inv:
  assumes "handshake_inv s" and "stopperStep s = Some t"
  shows "handshake_inv t"
proof (cases "hs_stop s")
  case SStart
  then have "t = s\<lparr>hs_state := StateStopped, hs_stop := SStored\<rparr>" using assms(2) by (simp add: stopperStep_def)
  then show ?thesis
    using assms(1) by (simp add: handshake_inv_def count_lags_def nothing_lost_def stop_order_def)
next
  case SStored
  then have "t = s\<lparr>hs_drainDone := True, hs_stop := SClosed\<rparr>" using assms(2) by (simp add: stopperStep_def)
  then show ?thesis
    using assms(1) SStored by (simp add: handshake_inv_def count_lags_def nothing_lost_def stop_order_def)
qed (use assms(2) in \<open>simp add: stopperStep_def\<close>)

interpretation handshakes: transition_system handshake_init handshake_step handshake_inv
proof
  fix s t
  assume "handshake_inv s" and "handshake_step s t"
  from this(2,1) show "handshake_inv t"
    by cases (auto intro: drainer_inv runner_inv event_inv stopper_inv)
qed (rule handshake_init_inv)

subsection \<open>What closing means\<close>

lemma stopped_stays: "handshake_step s t \<Longrightarrow> hs_state s = StateStopped \<Longrightarrow> hs_state t = StateStopped"
  by (erule handshake_step.cases)
    (auto simp: drainerStep_def runnerStep_def runnerTakes_def stopperStep_def
      split: drainPc.splits runPc.splits runEvent.splits stopPc.splits if_splits)

text \<open>\<open>drainDone\<close> is only closed by \<open>Shutdown\<close> or because the hub was seen empty while it drained.\<close>

definition emptied :: "handshake \<Rightarrow> bool" where
  "emptied s \<longleftrightarrow> hs_state s = StateStopped \<or>
     (\<exists>s'. reach handshake_init handshake_step s' \<and> handshake_step\<^sup>*\<^sup>* s' s \<and>
       hs_state s' = StateDraining \<and> hs_count s' = 0)"

definition closing :: "handshake \<Rightarrow> bool" where
  "closing s \<longleftrightarrow> hs_drainDone s \<or> (\<exists>i. hs_drain s i = DSignal) \<or> hs_run s = RZero"

lemma emptied_step: "handshake_step s t \<Longrightarrow> emptied s \<Longrightarrow> emptied t"
  unfolding emptied_def by (meson rtranclp.rtrancl_into_rtrancl stopped_stays)

lemma emptied_now:
  "reach handshake_init handshake_step s \<Longrightarrow> hs_state s \<noteq> StateRunning \<Longrightarrow> hs_count s = 0 \<Longrightarrow> emptied s"
  unfolding emptied_def by (cases "hs_state s") auto

text \<open>A step that starts the closing reads a zero counter, or is the one of \<open>Shutdown\<close>.\<close>

lemma closing_begins:
  assumes "handshake_step s t" and "handshake_inv s" and "closing t" and "\<not> closing s"
  shows "hs_state s \<noteq> StateRunning \<and> hs_count s = 0 \<or> hs_state t = StateStopped"
  using assms(1)
proof cases
  case (step_drainer i)
  then show ?thesis
    using assms(2-4)
    by (cases "hs_drain s i") (force simp: drainerStep_def closing_def handshake_inv_def stop_order_def at_drain_def split: if_splits)+
next
  case step_runner
  then show ?thesis
    using assms(2-4)
    by (cases "hs_run s") (force simp: runnerStep_def closing_def handshake_inv_def stop_order_def split: if_splits)+
next
  case (step_event ev)
  then show ?thesis
    using assms(3,4) by (cases ev) (auto simp: runnerTakes_def closing_def split: if_splits)
next
  case step_stopper
  then show ?thesis
    using assms(2-4)
    by (cases "hs_stop s") (auto simp: stopperStep_def closing_def handshake_inv_def stop_order_def)
qed

lemma closing_emptied: "reach handshake_init handshake_step s \<Longrightarrow> closing s \<Longrightarrow> emptied s"
proof (induction rule: reach.induct)
  case (reach_start s)
  then show ?case by (auto simp: handshake_init_def handshakeOf_def closing_def)
next
  case (reach_next s t)
  show ?case
  proof (cases "closing s")
    case True
    with reach_next show ?thesis by (blast intro: emptied_step)
  next
    case False
    note b = closing_begins [OF reach_next(2) handshakes.reach_inv [OF reach_next(1)] reach_next(4) False]
    show ?thesis
    proof (cases "hs_state t = StateStopped")
      case True
      then show ?thesis by (simp add: emptied_def)
    next
      case False
      with b emptied_now [OF reach_next(1)] emptied_step [OF reach_next(2)] show ?thesis by blast
    qed
  qed
qed

lemma closer_closes:
  assumes "hs_state s = StateDraining" and "hs_count s = 0" and "closer s"
  shows "hs_drainDone (runner 3 s) \<or> (\<exists>i. hs_drainDone (drainer i 2 s))"
  using assms(3) unfolding closer_def
proof
  assume "\<exists>i. hs_drain s i \<in> {DWon, DSignal}"
  then obtain i where "hs_drain s i = DWon \<or> hs_drain s i = DSignal" by blast
  then have "hs_drainDone (drainer i 2 s)"
    using assms(2) by (auto simp: drainerStep_def at_drain_def numeral_2_eq_2)
  then show ?thesis by blast
next
  assume "hs_run s \<in> {RDecremented, RDraining, RZero}"
  then show ?thesis using assms(1,2) by (auto simp: runnerStep_def numeral_3_eq_3)
qed

text \<open>C17: \<open>Drain\<close> cannot miss the last disconnection, at the granularity of single atomic accesses and
  for any number of concurrent \<open>Drain\<close> calls, registrations, unregistrations and \<open>Shutdown\<close>.
  Whenever the hub drains with a zero counter and \<open>drainDone\<close> is open, the Run loop closes it
  within three steps of its own or the initiator of the drain within two. When no goroutine is
  inside the handshake and no client is left, no \<open>Drain\<close> is stuck: each waiting one returns in
  its next step. And a \<open>Drain\<close> never returns early: \<open>drainDone\<close> is closed only after \<open>Shutdown\<close>
  or after a moment in which the hub was draining with no client counted.\<close>

theorem drain_no_lost_wakeup:
  assumes "reach handshake_init handshake_step s"
  shows "(hs_state s = StateDraining \<and> hs_count s = 0 \<and> \<not> hs_drainDone s \<longrightarrow>
      hs_drainDone (runner 3 s) \<or> (\<exists>i. hs_drainDone (drainer i 2 s))) \<and>
    (hs_clients s = {} \<and> hs_run s = RIdle \<and> hs_stop s \<noteq> SStored \<and> (\<forall>i. hs_drain s i \<notin> {DWon, DSignal}) \<longrightarrow>
      (\<forall>i. hs_drain s i = DWaiting \<longrightarrow> (\<exists>t. drainerStep i s = Some t \<and> hs_drain t i = DReturned))) \<and>
    (hs_drainDone s \<longrightarrow> hs_state s = StateStopped \<or>
      (\<exists>s'. reach handshake_init handshake_step s' \<and> handshake_step\<^sup>*\<^sup>* s' s \<and>
        hs_state s' = StateDraining \<and> hs_count s' = 0))"
proof (intro conjI impI allI)
  have inv: "count_lags s" "nothing_lost s" "stop_order s"
    using handshakes.reach_inv [OF assms] by (simp_all add: handshake_inv_def)
  show "hs_drainDone (runner 3 s) \<or> (\<exists>i. hs_drainDone (drainer i 2 s))"
    if "hs_state s = StateDraining \<and> hs_count s = 0 \<and> \<not> hs_drainDone s"
    using closer_closes [of s] inv(2) that by (simp add: nothing_lost_def)
  show "\<exists>t. drainerStep i s = Some t \<and> hs_drain t i = DReturned"
    if q: "hs_clients s = {} \<and> hs_run s = RIdle \<and> hs_stop s \<noteq> SStored \<and> (\<forall>i. hs_drain s i \<notin> {DWon, DSignal})"
      and w: "hs_drain s i = DWaiting" for i
  proof -
    have "hs_count s = 0" "\<not> closer s" using q inv(1) by (auto simp: count_lags_def lag_def closer_def)
    moreover have "hs_state s \<noteq> StateRunning" using w inv(3) by (auto simp: stop_order_def)
    ultimately have "hs_drainDone s"
      using q inv(2,3) by (cases "hs_state s"; cases "hs_stop s") (auto simp: nothing_lost_def stop_order_def)
    then show ?thesis using w by (simp add: drainerStep_def at_drain_def)
  qed
  show "hs_state s = StateStopped \<or> (\<exists>s'. reach handshake_init handshake_step s' \<and> handshake_step\<^sup>*\<^sup>* s' s \<and>
      hs_state s' = StateDraining \<and> hs_count s' = 0)"
    if "hs_drainDone s"
    using closing_emptied [OF assms] that by (simp add: closing_def emptied_def)
qed

text \<open>Two clients leave while a drain waits: the interleaving in which the initiator reads the
  counter between the two disconnections.\<close>

definition lastLeaves :: handshake where
  "lastLeaves =
     (let s1 = drainer 0 2 (handshakeOf exampleHub);
          s2 = runner 3 (the (runnerTakes (EvUnregister 0) s1))
      in runner 1 (the (runnerTakes (EvUnregister 1) s2)))"

lemma drainer_reach: "reach handshake_init handshake_step s \<Longrightarrow> reach handshake_init handshake_step (drainer i n s)"
proof (induction n arbitrary: s)
  case (Suc n)
  then show ?case
    using reach_next [OF Suc(2) step_drainer [of i]] by (auto split: option.split)
qed simp

lemma runner_reach: "reach handshake_init handshake_step s \<Longrightarrow> reach handshake_init handshake_step (runner n s)"
proof (induction n arbitrary: s)
  case (Suc n)
  then show ?case
    using reach_next [OF Suc(2) step_runner] by (auto split: option.split)
qed simp

theorem drain_no_lost_wakeup_witness:
  "hs_drain lastLeaves 0 = DWaiting \<and>
   (hs_drainDone (runner 3 lastLeaves) \<or> (\<exists>i. hs_drainDone (drainer i 2 lastLeaves)))"
proof -
  have "handshake_init (handshakeOf exampleHub)"
    unfolding handshake_init_def by (rule exI [of _ exampleHub]) (simp add: exampleHub_def)
  then have s1: "reach handshake_init handshake_step (drainer 0 2 (handshakeOf exampleHub))" (is "reach _ _ ?s1")
    by (intro drainer_reach reach_start)
  have t1: "runnerTakes (EvUnregister 0) ?s1 = Some (the (runnerTakes (EvUnregister 0) ?s1))"
    by (simp add: runnerTakes_def drainerStep_def at_drain_def handshakeOf_def numeral_2_eq_2)
  have s2: "reach handshake_init handshake_step (runner 3 (the (runnerTakes (EvUnregister 0) ?s1)))" (is "reach _ _ ?s2")
    using step_event [OF t1] s1 by (blast intro: runner_reach reach_next)
  have t2: "runnerTakes (EvUnregister 1) ?s2 = Some (the (runnerTakes (EvUnregister 1) ?s2))"
    by (simp add: runnerTakes_def runnerStep_def drainerStep_def at_drain_def handshakeOf_def numeral_eq_Suc)
  have "reach handshake_init handshake_step lastLeaves"
    unfolding lastLeaves_def Let_def using step_event [OF t2] s2 by (blast intro: runner_reach reach_next)
  moreover have "hs_drain lastLeaves 0 = DWaiting" "hs_state lastLeaves = StateDraining" "hs_count lastLeaves = 0"
    "\<not> hs_drainDone lastLeaves"
    by (simp_all add: lastLeaves_def Let_def runnerTakes_def runnerStep_def drainerStep_def at_drain_def handshakeOf_def
        exampleHub_def numeral_eq_Suc)
  ultimately show ?thesis using drain_no_lost_wakeup [of lastLeaves] by blast
qed

subsection \<open>Windows between a check and its use\<close>

text \<open>
  \<open>JoinRoom\<close> takes no lock across its sections: the registration check, \<open>getOrCreateRoom\<close> and
  \<open>joinLocked\<close> can be separated by whole operations of other goroutines. The three lemmas below
  run the model's own sections with such an operation in between.
\<close>

lemmas race_defs = joinLocked_def joinCommit_def getOrCreateRoom_def rebuildRoomSnapshot_def LeaveRoom_def
  dropMember_def deleteRoomIfEmpty_def callBeforeRoomLeave_def leaveNote_def leaveRoom_def

lemmas example_defs = exampleEnv_def noHooks_def exampleLimits_def at_limit_def

text \<open>Client 1 has looked the room up when its last member leaves and the room is deleted: the
  join still succeeds, but into a room object nobody can reach. The client believes to be in
  the room, and no broadcast to the room finds it.\<close>

lemma join_orphan_race:
  "\<exists>r h1 h2. getOrCreateRoom ''lobby'' exampleHub = ((r, True), exampleHub) \<and>
     LeaveRoom exampleEnv 0 ''lobby'' exampleHub = (None, h1) \<and>
     joinLocked exampleEnv 1 ''lobby'' r True h1 = (None, h2) \<and>
     InRoom 1 ''lobby'' h2 \<and> \<not> RoomExists ''lobby'' h2 \<and> RoomClients ''lobby'' h2 = []"
  by (simp add: race_defs example_defs frame_simps upd_room_def upd_client_def emit_def Let_def
      InRoom_def RoomExists_def RoomClients_def)

lemma exampleHub_unregistered:
  assumes "c \<in> h_clients exampleHub"
  shows "unregistered c exampleHub (handleUnregister exampleEnv c exampleHub)"
  using exampleHub_inv exampleEnv_ok(1) assms by (cases rule: handleUnregister_cases [where c = c]) simp_all

lemma join_new_room:
  assumes "h_rooms h n = None" and "h_limits h = exampleLimits" and "c_rooms (h_mem h c) = {}"
  shows "\<exists>r h2 h3. getOrCreateRoom n h = ((r, False), h2) \<and> joinLocked exampleEnv c n r False h2 = (None, h3) \<and>
    h_clients h3 = h_clients h \<and> c \<in> members h3 n"
  using assms
  by (simp add: race_defs example_defs frame_simps upd_room_def upd_client_def emit_def Let_def members_def)

text \<open>Client 0 has passed the registration check when the Run loop unregisters it: the join then
  makes a dead client a member, and the room cannot become empty any more by disconnections.\<close>

lemma join_unregister_race:
  "\<exists>r h2 h3. 0 \<in> h_clients exampleHub \<and>
     getOrCreateRoom ''den'' (handleUnregister exampleEnv 0 exampleHub) = ((r, False), h2) \<and>
     joinLocked exampleEnv 0 ''den'' r False h2 = (None, h3) \<and>
     0 \<notin> h_clients h3 \<and> 0 \<in> members h3 ''den''"
proof -
  let ?h = "handleUnregister exampleEnv 0 exampleHub"
  have u: "unregistered 0 exampleHub ?h" by (rule exampleHub_unregistered) simp
  then have "members ?h ''den'' = {}" "rooms_struct ?h"
    by (simp_all add: unregistered_def exampleHub_views rooms_inv_def)
  then have "h_rooms ?h ''den'' = None"
    by (auto simp: members_def rooms_struct_def room_ok_def split: option.splits)
  moreover have "h_limits ?h = exampleLimits" "c_rooms (h_mem ?h 0) = {}" "0 \<notin> h_clients ?h"
    using u by (simp_all add: unregistered_def)
  ultimately show ?thesis using join_new_room [of ?h "''den''" 0] by auto
qed

text \<open>\<open>SetUserID\<close> does not ask whether the client is registered: after the disconnection it puts the
  client back into the user index, from where nothing removes it again.\<close>

lemma setUserID_after_unregister:
  "\<exists>h2. SetUserID 1 ''u9'' (handleUnregister exampleEnv 1 exampleHub) = (None, h2) \<and>
     1 \<notin> h_clients h2 \<and> GetClientsByUserID exampleEnv ''u9'' h2 = [1]"
proof -
  let ?h = "handleUnregister exampleEnv 1 exampleHub"
  have u: "unregistered 1 exampleHub ?h" by (rule exampleHub_unregistered) simp
  obtain h2 where h2: "SetUserID 1 ''u9'' ?h = (None, h2)" "c_userID (h_mem ?h 1) \<noteq> ''u9''"
    using u by (simp add: unregistered_def SetUserID_def setClientUserID_def Let_def example_defs exampleHub_views)
  then have "users h2 ''u9'' = {1}" "h_clients h2 = h_clients ?h"
    using setClientUserID_users [of 1 "''u9''" ?h h2] setClientUserID_frame [of 1 "''u9''" ?h None h2] u
    by (simp_all add: SetUserID_def move_user_def unregistered_def exampleHub_views)
  with h2 u show ?thesis by (simp add: GetClientsByUserID_def exampleEnv_def unregistered_def)
qed

text \<open>The handlers do not ask for the hub's state: an upgrade that passed the state check before the
  drain began is registered after \<open>Drain\<close> has returned nil.\<close>

lemma drain_then_register:
  "\<exists>s t. s = drainer 0 3 (handshakeOf (exampleHub\<lparr>h_clients := {}, h_clientCount := 0\<rparr>)) \<and> hs_drain s 0 = DReturned \<and>
     runnerTakes (EvRegister 2) s = Some t \<and> hs_state (runner 1 t) = StateDraining \<and> hs_count (runner 1 t) = 1"
  by (simp add: handshake_defs handshakeOf_def numeral_3_eq_3)

end
