(* ===== verification/Ws_RoomLocks.thy ===== *)
theory Ws_RoomLocks
  imports Ws_Races
begin

section \<open>Room operations of concurrent goroutines, one lock section at a time (hub.go)\<close>

text \<open>
  \<open>Ws_Rooms\<close> gives the room operations as a whole and \<open>Ws_System\<close> interleaves whole operations.
  Here any number of goroutines are inside \<open>JoinRoom\<close>, \<open>LeaveRoom\<close> and \<open>LeaveAllRooms\<close> (or the
  disconnect path, which calls the same function) at once, and a step is one section between two
  releases of the locks: the registration check under \<open>h.mu\<close>, the lookup or creation under
  \<open>roomsMu\<close>, the part under \<open>room.mu\<close> (with \<open>client.mu\<close> taken inside it), \<open>deleteRoomIfEmpty\<close>
  under \<open>roomsMu\<close> and \<open>room.mu\<close>, and each call of a hook, which the code makes without a lock. Nested locks are
  released innermost first and a section takes no lock again after releasing it, so a section acts
  at one moment.

  \<open>roomOp_sections\<close> shows that the sections of an operation, run one after the other, are the
  operation of \<open>Ws_Rooms\<close>. \<open>rooms_interleaved\<close> is what survives every interleaving: snapshots,
  both limits, the gauge, and that no empty room stays listed once the operations are over.
\<close>

subsection \<open>Where a goroutine is\<close>

text \<open>
  The local variables of the Go functions are the arguments: the client, the room name, the room
  found, \<open>exists\<close> of \<open>JoinRoom\<close>, and in the loop of \<open>LeaveAllRooms\<close> the names still to visit
  and \<open>leftRooms\<close>. \<open>AtDelete\<close> also says where the goroutine goes on.
\<close>

datatype roomPc =
    AtRest
  | AtReturn "wsError option"
  | AtJoinHook cref string
  | AtGetRoom cref string
  | AtJoin cref string rref bool
  | AtCheck cref string rref
  | AtLeaveHook cref string rref
  | AtLeave cref string rref
  | AtDelete string rref roomPc
  | AtLeft cref string
  | AtLoop cref "string list" "string list"
  | AtLoopCheck cref string rref "string list" "string list"
  | AtLoopHook cref string rref "string list" "string list"
  | AtLoopLeave cref string rref "string list" "string list"

datatype roomOp = OpJoin cref string | OpLeave cref string | OpLeaveAll cref

record roomSystem =
  ro_hub :: hub
  ro_pc :: "nat \<Rightarrow> roomPc"

subsection \<open>The sections\<close>

text \<open>The first section of an operation.\<close>

fun beginOp :: "env \<Rightarrow> roomOp \<Rightarrow> hub \<Rightarrow> roomPc" where
  "beginOp e (OpJoin c n) h =
     (if n = '''' then AtReturn (Some ErrEmptyRoomName)
      else if c \<notin> h_clients h then AtReturn (Some ErrClientNotFound)
      else AtJoinHook c n)"
| "beginOp e (OpLeave c n) h =
     (if n = '''' then AtReturn (Some ErrEmptyRoomName)
      else case h_rooms h n of None \<Rightarrow> AtReturn (Some ErrRoomNotFound) | Some r \<Rightarrow> AtCheck c n r)"
| "beginOp e (OpLeaveAll c) h =
     (let roomNames = e_rangeS e (c_rooms (h_mem h c)) in
      if roomNames = [] then AtReturn None else AtLoop c roomNames [])"

text \<open>\<open>cleanupRoom\<close>, seen from inside the section under \<open>room.mu\<close>: whether the deletion follows.\<close>

definition failJoin :: "string \<Rightarrow> rref \<Rightarrow> bool \<Rightarrow> wsError \<Rightarrow> hub \<Rightarrow> roomPc" where
  "failJoin n r exists err h =
     (if \<not> exists \<and> r_clients (h_rmem h r) = {} then AtDelete n r (AtReturn (Some err))
      else AtReturn (Some err))"

definition joinSection :: "env \<Rightarrow> cref \<Rightarrow> string \<Rightarrow> rref \<Rightarrow> bool \<Rightarrow> hub \<Rightarrow> roomPc \<times> hub" where
  "joinSection e c n r exists h =
     (if at_limit (MaxClientsPerRoom (h_limits h)) (card (r_clients (h_rmem h r)))
      then (failJoin n r exists (Wrap (''room '' @ n) ErrRoomFull) h, h)
      else if c \<in> r_clients (h_rmem h r) then (failJoin n r exists ErrAlreadyInRoom h, h)
      else if at_limit (MaxRoomsPerClient (h_limits h)) (card (c_rooms (h_mem h c)))
      then (failJoin n r exists (Wrap (''client '' @ c_ID (h_mem h c)) ErrMaxRoomsReached) h, h)
      else (AtReturn None, joinCommit e c n r h))"

text \<open>The section of \<open>LeaveRoom\<close> and of the loop that takes the client out: \<open>g\<close> is what else the
  caller does under \<open>room.mu\<close>, \<open>gone\<close> where it goes when the client has left meanwhile, \<open>next\<close>
  where it goes on.\<close>

definition takeOut :: "env \<Rightarrow> cref \<Rightarrow> rref \<Rightarrow> (hub \<Rightarrow> hub) \<Rightarrow> hub \<Rightarrow> hub" where
  "takeOut e c r g h =
     g (rebuildRoomSnapshot e r (upd_room r (\<lambda>room. room\<lparr>r_clients := r_clients room - {c}\<rparr>) h))"

definition leaveSection :: "env \<Rightarrow> cref \<Rightarrow> string \<Rightarrow> rref \<Rightarrow> (hub \<Rightarrow> hub) \<Rightarrow> roomPc \<Rightarrow> roomPc \<Rightarrow> hub \<Rightarrow> roomPc \<times> hub" where
  "leaveSection e c n r g gone next h =
     (if c \<notin> r_clients (h_rmem h r) then (gone, h)
      else let h1 = takeOut e c r g h
           in (if r_clients (h_rmem h1 r) = {} then AtDelete n r next else next, h1))"

definition afterLeave :: "env \<Rightarrow> cref \<Rightarrow> string \<Rightarrow> hub \<Rightarrow> hub" where
  "afterLeave e c n h =
     (let h1 = emit (Log Debug ''Client left room'') (emit (Metric IncrementRoomLeaves) h)
      in if AfterRoomLeave (e_hooks e) then emit (Go (CallAfterRoomLeave c n)) h1 else h1)"

definition afterLoop :: "env \<Rightarrow> cref \<Rightarrow> string list \<Rightarrow> hub \<Rightarrow> hub" where
  "afterLoop e c left h =
     (let h1 = emit_all (map (\<lambda>_. Metric IncrementRoomLeaves) left) (forgetRooms c left h)
      in if AfterRoomLeave (e_hooks e)
         then emit_all (map (\<lambda>n. Go (CallAfterRoomLeave c n)) left) h1 else h1)"

text \<open>The next section of a goroutine; \<open>None\<close> when it is not inside an operation.\<close>

fun roomSection :: "env \<Rightarrow> roomPc \<Rightarrow> hub \<Rightarrow> (roomPc \<times> hub) option" where
  "roomSection e AtRest h = None"
| "roomSection e (AtReturn err) h = None"
| "roomSection e (AtJoinHook c n) h = (case callBeforeRoomJoin e c n h of
       (Some err, h1) \<Rightarrow> Some (AtReturn (Some err), h1)
     | (None, h1) \<Rightarrow> Some (AtGetRoom c n, h1))"
| "roomSection e (AtGetRoom c n) h =
     (case getOrCreateRoom n h of ((r, exists), h1) \<Rightarrow> Some (AtJoin c n r exists, h1))"
| "roomSection e (AtJoin c n r exists) h = Some (joinSection e c n r exists h)"
| "roomSection e (AtCheck c n r) h =
     Some (if c \<in> r_clients (h_rmem h r) then AtLeaveHook c n r else AtReturn (Some ErrNotInRoom), h)"
| "roomSection e (AtLeaveHook c n r) h = Some (AtLeave c n r, callBeforeRoomLeave e c n h)"
| "roomSection e (AtLeave c n r) h =
     Some (leaveSection e c n r (leaveNote c n) (AtReturn (Some ErrNotInRoom)) (AtLeft c n) h)"
| "roomSection e (AtDelete n r pc) h = Some (pc, deleteRoomIfEmpty n r h)"
| "roomSection e (AtLeft c n) h = Some (AtReturn None, afterLeave e c n h)"
| "roomSection e (AtLoop c [] left) h = Some (AtReturn None, afterLoop e c left h)"
| "roomSection e (AtLoop c (n # ns) left) h =
     Some (case h_rooms h n of None \<Rightarrow> AtLoop c ns left | Some r \<Rightarrow> AtLoopCheck c n r ns left, h)"
| "roomSection e (AtLoopCheck c n r ns left) h =
     Some (if c \<in> r_clients (h_rmem h r) then AtLoopHook c n r ns left else AtLoop c ns left, h)"
| "roomSection e (AtLoopHook c n r ns left) h = Some (AtLoopLeave c n r ns left, callBeforeRoomLeave e c n h)"
| "roomSection e (AtLoopLeave c n r ns left) h =
     Some (leaveSection e c n r id (AtLoop c ns left) (AtLoop c ns (left @ [n])) h)"

subsection \<open>The sections of an operation make up the operation\<close>

text \<open>A goroutine that runs alone until it returns, with the fuel \<open>k\<close>.\<close>

fun runAlone :: "nat \<Rightarrow> env \<Rightarrow> roomPc \<Rightarrow> hub \<Rightarrow> roomPc \<times> hub" where
  "runAlone 0 e pc h = (pc, h)"
| "runAlone (Suc k) e pc h = (case roomSection e pc h of None \<Rightarrow> (pc, h) | Some (pc1, h1) \<Rightarrow> runAlone k e pc1 h1)"

fun wholeOp :: "env \<Rightarrow> roomOp \<Rightarrow> hub \<Rightarrow> wsError option \<times> hub" where
  "wholeOp e (OpJoin c n) h = JoinRoom e c n h"
| "wholeOp e (OpLeave c n) h = LeaveRoom e c n h"
| "wholeOp e (OpLeaveAll c) h = (None, LeaveAllRooms e c h)"

text \<open>The sections a goroutine still has before it, at most.\<close>

fun sectionsLeft :: "roomPc \<Rightarrow> nat" where
  "sectionsLeft AtRest = 0"
| "sectionsLeft (AtReturn _) = 0"
| "sectionsLeft (AtJoinHook _ _) = 4"
| "sectionsLeft (AtGetRoom _ _) = 3"
| "sectionsLeft (AtJoin _ _ _ _) = 2"
| "sectionsLeft (AtCheck _ _ _) = 5"
| "sectionsLeft (AtLeaveHook _ _ _) = 4"
| "sectionsLeft (AtLeave _ _ _) = 3"
| "sectionsLeft (AtDelete _ _ pc) = Suc (sectionsLeft pc)"
| "sectionsLeft (AtLeft _ _) = 1"
| "sectionsLeft (AtLoop _ ns _) = Suc (5 * length ns)"
| "sectionsLeft (AtLoopCheck _ _ _ ns _) = 5 * length ns + 5"
| "sectionsLeft (AtLoopHook _ _ _ ns _) = 5 * length ns + 4"
| "sectionsLeft (AtLoopLeave _ _ _ ns _) = 5 * length ns + 3"

lemma roomSection_lowers: "roomSection e pc h = Some (pc', h') \<Longrightarrow> sectionsLeft pc' < sectionsLeft pc"
  by (cases "(e, pc, h)" rule: roomSection.cases)
    (auto simp: joinSection_def failJoin_def leaveSection_def Let_def split: prod.splits option.splits if_splits)

lemma roomSection_None: "roomSection e pc h = None \<longleftrightarrow> sectionsLeft pc = 0"
  by (cases "(e, pc, h)" rule: roomSection.cases) (auto split: prod.splits option.splits)

lemma runAlone_enough:
  assumes "sectionsLeft pc \<le> k"
  shows "runAlone k e pc h = runAlone (sectionsLeft pc) e pc h"
  using assms
proof (induction "sectionsLeft pc" arbitrary: pc h k rule: less_induct)
  case less
  show ?case
  proof (cases "roomSection e pc h")
    case None
    then show ?thesis by (cases k; cases "sectionsLeft pc") simp_all
  next
    case (Some p)
    obtain pc1 h1 where p: "p = (pc1, h1)" by (cases p)
    with Some have l: "sectionsLeft pc1 < sectionsLeft pc" using roomSection_lowers by blast
    then obtain k1 m1 where k: "k = Suc k1" "sectionsLeft pc = Suc m1"
      using less(2) by (cases k; cases "sectionsLeft pc") auto
    then have "sectionsLeft pc1 \<le> k1" "sectionsLeft pc1 \<le> m1" using l less(2) by auto
    then have "runAlone k1 e pc1 h1 = runAlone m1 e pc1 h1" using less(1) [OF l] by metis
    with Some p k show ?thesis by simp
  qed
qed

definition alone :: "env \<Rightarrow> roomPc \<Rightarrow> hub \<Rightarrow> roomPc \<times> hub" where
  "alone e pc h = runAlone (sectionsLeft pc) e pc h"

lemma alone_step:
  "alone e pc h = (case roomSection e pc h of None \<Rightarrow> (pc, h) | Some (pc1, h1) \<Rightarrow> alone e pc1 h1)"
proof (cases "roomSection e pc h")
  case None
  moreover from None have "sectionsLeft pc = 0" using roomSection_None by blast
  ultimately show ?thesis by (simp add: alone_def)
next
  case (Some p)
  obtain pc1 h1 where p: "p = (pc1, h1)" by (cases p)
  with Some have "sectionsLeft pc1 < sectionsLeft pc" using roomSection_lowers by blast
  then obtain m where m: "sectionsLeft pc = Suc m" "sectionsLeft pc1 \<le> m" by (cases "sectionsLeft pc") auto
  show ?thesis
    unfolding alone_def m(1) using Some p runAlone_enough [OF m(2), of e h1] by simp
qed

lemma dropMember_sections:
  "dropMember e c n r g h =
     (let h1 = takeOut e c r g h in if r_clients (h_rmem h1 r) = {} then deleteRoomIfEmpty n r h1 else h1)"
  by (simp add: dropMember_def takeOut_def Let_def)

lemma alone_return [simp]: "alone e (AtReturn err) h = (AtReturn err, h)"
  by (simp add: alone_def)

lemma alone_failJoin: "alone e (failJoin n r exists err h) h = (AtReturn (Some err), cleanupRoom n r exists h)"
  by (subst alone_step) (simp add: failJoin_def cleanupRoom_def)

lemma alone_join: "alone e (AtJoin c n r exists) h =
    (case joinLocked e c n r exists h of (err, h1) \<Rightarrow> (AtReturn err, h1))"
  by (subst alone_step) (simp add: joinSection_def joinLocked_def alone_failJoin del: not_at_limit)

lemma alone_leaveSection:
  assumes "c \<in> r_clients (h_rmem h r)" and "leaveSection e c n r g gone next h = (pc, h1)"
  shows "alone e pc h1 = alone e next (dropMember e c n r g h)"
  using assms alone_step [of e "AtDelete n r next" h1]
  by (auto simp: leaveSection_def dropMember_sections Let_def split: if_splits)

lemma alone_leave: "alone e (AtLeave c n r) h =
    (if c \<in> r_clients (h_rmem h r) then alone e (AtLeft c n) (dropMember e c n r (leaveNote c n) h)
     else (AtReturn (Some ErrNotInRoom), h))"
proof (cases "c \<in> r_clients (h_rmem h r)")
  case True
  obtain pc h1 where s: "leaveSection e c n r (leaveNote c n) (AtReturn (Some ErrNotInRoom)) (AtLeft c n) h = (pc, h1)"
    by fastforce
  then show ?thesis using True alone_leaveSection [OF True s] by (subst alone_step) simp
next
  case False
  then show ?thesis by (subst alone_step) (simp add: leaveSection_def)
qed

lemma alone_loopLeave: "alone e (AtLoopLeave c n r ns left) h =
    (if c \<in> r_clients (h_rmem h r) then alone e (AtLoop c ns (left @ [n])) (dropMember e c n r id h)
     else alone e (AtLoop c ns left) h)"
proof (cases "c \<in> r_clients (h_rmem h r)")
  case True
  obtain pc h1 where s: "leaveSection e c n r id (AtLoop c ns left) (AtLoop c ns (left @ [n])) h = (pc, h1)"
    by fastforce
  then show ?thesis using True alone_leaveSection [OF True s] by (subst alone_step) simp
next
  case False
  then show ?thesis by (subst alone_step) (simp add: leaveSection_def)
qed

lemma alone_left: "alone e (AtLeft c n) h = (AtReturn None, afterLeave e c n h)"
  by (subst alone_step) simp

lemma alone_loop: "alone e (AtLoop c ns left) h =
    (case leaveLoop e c ns h of (left', h1) \<Rightarrow> (AtReturn None, afterLoop e c (left @ left') h1))"
proof (induction e c ns h arbitrary: left rule: leaveLoop.induct)
  case (1 e c h)
  show ?case by (subst alone_step) simp
next
  case (2 e c n ns h)
  have hook: "alone e (AtLoopHook c n r ns left) h = alone e (AtLoopLeave c n r ns left) (callBeforeRoomLeave e c n h)" for r
    by (subst alone_step) simp
  have check: "alone e (AtLoopCheck c n r ns left) h =
      (if c \<in> r_clients (h_rmem h r) then alone e (AtLoopHook c n r ns left) h else alone e (AtLoop c ns left) h)" for r
    by (subst alone_step) simp
  have "alone e (AtLoop c (n # ns) left) h =
      (case h_rooms h n of None \<Rightarrow> alone e (AtLoop c ns left) h | Some r \<Rightarrow> alone e (AtLoopCheck c n r ns left) h)"
    by (subst alone_step) (simp split: option.split)
  then show ?case
    using 2 by (simp add: check hook alone_loopLeave Let_def split: option.split prod.splits)
qed

lemma alone_op: "alone e (beginOp e op h) h = (case wholeOp e op h of (err, h1) \<Rightarrow> (AtReturn err, h1))"
proof (cases op)
  case (OpJoin c n)
  have "alone e (AtGetRoom c n) h = (case getOrCreateRoom n h of
      ((r, exists), h2) \<Rightarrow> alone e (AtJoin c n r exists) h2)" for h
    by (subst alone_step) (simp split: prod.split)
  moreover have "alone e (AtJoinHook c n) h = (case callBeforeRoomJoin e c n h of
      (Some err, h1) \<Rightarrow> (AtReturn (Some err), h1) | (None, h1) \<Rightarrow> alone e (AtGetRoom c n) h1)"
    by (subst alone_step) (simp split: prod.split option.split)
  ultimately show ?thesis
    using OpJoin by (simp add: JoinRoom_def alone_join split: prod.split option.split)
next
  case (OpLeave c n)
  have "alone e (AtLeaveHook c n r) h = alone e (AtLeave c n r) (callBeforeRoomLeave e c n h)" for r
    by (subst alone_step) simp
  moreover have "alone e (AtCheck c n r) h =
      (if c \<in> r_clients (h_rmem h r) then alone e (AtLeaveHook c n r) h else (AtReturn (Some ErrNotInRoom), h))" for r
    by (subst alone_step) simp
  ultimately show ?thesis
    using OpLeave by (simp add: LeaveRoom_def alone_leave alone_left afterLeave_def Let_def split: option.split)
next
  case (OpLeaveAll c)
  then show ?thesis
    by (simp add: LeaveAllRooms_def removeClientFromAllRoomsWithHooks_def alone_loop afterLoop_def Let_def
        split: prod.split)
qed

subsection \<open>Goroutines side by side\<close>

text \<open>\<open>rooms_kept\<close>: what any other operation of the hub may do meanwhile (connect clients, send, drain): everything
  that leaves the rooms alone. A client allocated by it starts without rooms.\<close>

definition rooms_kept :: "hub \<Rightarrow> hub \<Rightarrow> bool" where
  "rooms_kept h h' \<longleftrightarrow> h_rooms h' = h_rooms h \<and> h_rmem h' = h_rmem h \<and> h_rnext h' = h_rnext h \<and>
     h_limits h' = h_limits h \<and> gauge room_delta h' = gauge room_delta h \<and>
     (\<forall>c. c_rooms (h_mem h' c) = c_rooms (h_mem h c) \<or> h_cnext h \<le> c \<and> c_rooms (h_mem h' c) = {})"

definition goesTo :: "nat \<Rightarrow> roomPc \<Rightarrow> hub \<Rightarrow> roomSystem \<Rightarrow> roomSystem" where
  "goesTo i pc h s = s\<lparr>ro_hub := h, ro_pc := (ro_pc s)(i := pc)\<rparr>"

definition opBegins :: "env \<Rightarrow> nat \<Rightarrow> roomOp \<Rightarrow> roomSystem \<Rightarrow> roomSystem option" where
  "opBegins e i op s =
     (if sectionsLeft (ro_pc s i) = 0 then Some (goesTo i (beginOp e op (ro_hub s)) (ro_hub s) s) else None)"

definition sectionRuns :: "env \<Rightarrow> nat \<Rightarrow> roomSystem \<Rightarrow> roomSystem option" where
  "sectionRuns e i s = (case roomSection e (ro_pc s i) (ro_hub s) of
       None \<Rightarrow> None | Some (pc, h) \<Rightarrow> Some (goesTo i pc h s))"

text \<open>\<open>N\<close> goroutines. Their own steps are \<open>roomsInner\<close>; new calls and other operations come from outside.\<close>

inductive roomsInner :: "nat \<Rightarrow> roomSystem \<Rightarrow> roomSystem \<Rightarrow> bool" for N where
  inner_section: "i < N \<Longrightarrow> env_ok e \<Longrightarrow> sectionRuns e i s = Some t \<Longrightarrow> roomsInner N s t"

inductive roomsStep :: "nat \<Rightarrow> roomSystem \<Rightarrow> roomSystem \<Rightarrow> bool" for N where
  room_begin: "i < N \<Longrightarrow> env_ok e \<Longrightarrow> opBegins e i op s = Some t \<Longrightarrow> roomsStep N s t"
| room_section: "roomsInner N s t \<Longrightarrow> roomsStep N s t"
| room_other: "rooms_kept (ro_hub s) h \<Longrightarrow> roomsStep N s (s\<lparr>ro_hub := h\<rparr>)"

definition rooms_start :: "roomSystem \<Rightarrow> bool" where
  "rooms_start s \<longleftrightarrow> registry_inv (ro_hub s) \<and> (\<forall>i. ro_pc s i = AtRest)"

subsection \<open>The invariant\<close>

definition room_sound :: "Limits \<Rightarrow> Room \<Rightarrow> bool" where
  "room_sound L room \<longleftrightarrow> set (loadRoomSnapshot room) = r_clients room \<and> distinct (loadRoomSnapshot room) \<and>
     within_limit (MaxClientsPerRoom L) (card (r_clients room))"

definition rooms_sound :: "hub \<Rightarrow> bool" where
  "rooms_sound h \<longleftrightarrow>
     (\<forall>n r. h_rooms h n = Some r \<longrightarrow> r < h_rnext h \<and> room_sound (h_limits h) (h_rmem h r)) \<and>
     (\<forall>n n' r. h_rooms h n = Some r \<longrightarrow> h_rooms h n' = Some r \<longrightarrow> n = n') \<and> finite (dom (h_rooms h)) \<and>
     (\<forall>c. finite (c_rooms (h_mem h c)) \<and> within_limit (MaxRoomsPerClient (h_limits h)) (card (c_rooms (h_mem h c)))) \<and>
     gauge room_delta h = int (card (dom (h_rooms h)))"

text \<open>The room a goroutine has in its hands, with the name under which it found it. Nobody lists a
  room under a second name.\<close>

fun inHand :: "roomPc \<Rightarrow> (string \<times> rref) set" where
  "inHand (AtJoin c n r exists) = {(n, r)}"
| "inHand (AtCheck c n r) = {(n, r)}"
| "inHand (AtLeaveHook c n r) = {(n, r)}"
| "inHand (AtLeave c n r) = {(n, r)}"
| "inHand (AtDelete n r pc) = insert (n, r) (inHand pc)"
| "inHand (AtLoopCheck c n r ns left) = {(n, r)}"
| "inHand (AtLoopHook c n r ns left) = {(n, r)}"
| "inHand (AtLoopLeave c n r ns left) = {(n, r)}"
| "inHand _ = {}"

definition hand_ok :: "hub \<Rightarrow> string \<times> rref \<Rightarrow> bool" where
  "hand_ok h p \<longleftrightarrow> snd p < h_rnext h \<and> room_sound (h_limits h) (h_rmem h (snd p)) \<and>
     (\<forall>n'. h_rooms h n' = Some (snd p) \<longrightarrow> n' = fst p)"

text \<open>The goroutine that will see to an empty room: the one that created it and has not joined yet,
  or one on its way to \<open>deleteRoomIfEmpty\<close>.\<close>

fun seesTo :: "string \<Rightarrow> rref \<Rightarrow> roomPc \<Rightarrow> bool" where
  "seesTo n r (AtJoin c n' r' exists) = (n' = n \<and> r' = r \<and> \<not> exists)"
| "seesTo n r (AtDelete n' r' pc) = (n' = n \<and> r' = r)"
| "seesTo n r _ = False"

definition emptyRoom :: "hub \<Rightarrow> string \<Rightarrow> rref \<Rightarrow> bool" where
  "emptyRoom h n r \<longleftrightarrow> h_rooms h n = Some r \<and> r_clients (h_rmem h r) = {}"

definition rooms_system_inv :: "nat \<Rightarrow> roomSystem \<Rightarrow> bool" where
  "rooms_system_inv N s \<longleftrightarrow> rooms_sound (ro_hub s) \<and> (\<forall>i. \<forall>p\<in>inHand (ro_pc s i). hand_ok (ro_hub s) p) \<and>
     (\<forall>i\<ge>N. ro_pc s i = AtRest) \<and>
     (\<forall>n r. emptyRoom (ro_hub s) n r \<longrightarrow> (\<exists>i<N. seesTo n r (ro_pc s i)))"

subsection \<open>What a section does to the rooms\<close>

text \<open>What everybody else can rely on: no room in use becomes unsound, and only new rooms are listed.\<close>

definition rooms_later :: "hub \<Rightarrow> hub \<Rightarrow> bool" where
  "rooms_later h h' \<longleftrightarrow> h_rnext h \<le> h_rnext h' \<and> h_limits h' = h_limits h \<and>
     (\<forall>r<h_rnext h. room_sound (h_limits h) (h_rmem h r) \<longrightarrow> room_sound (h_limits h) (h_rmem h' r)) \<and>
     (\<forall>n r. h_rooms h' n = Some r \<longrightarrow> r < h_rnext h \<longrightarrow> h_rooms h n = Some r)"

lemma rooms_later_refl [simp]: "rooms_later h h"
  by (simp add: rooms_later_def)

lemma rooms_later_trans: "rooms_later h h' \<Longrightarrow> rooms_later h' h'' \<Longrightarrow> rooms_later h h''"
  unfolding rooms_later_def by (metis less_le_trans order_trans)

lemma hand_later: "rooms_later h h' \<Longrightarrow> hand_ok h p \<Longrightarrow> hand_ok h' p"
  unfolding rooms_later_def hand_ok_def by (metis less_le_trans)

lemma kept_later: "rooms_kept h h' \<Longrightarrow> rooms_later h h'"
  by (simp add: rooms_kept_def rooms_later_def)

lemma kept_sound: "rooms_kept h h' \<Longrightarrow> rooms_sound h \<Longrightarrow> rooms_sound h'"
  unfolding rooms_kept_def rooms_sound_def by (metis card.empty finite.emptyI within_limit_0)

lemma kept_empty: "rooms_kept h h' \<Longrightarrow> emptyRoom h' = emptyRoom h"
  by (intro ext) (simp add: rooms_kept_def emptyRoom_def)

lemma same_registry_kept: "same_registry h h' \<Longrightarrow> rooms_kept h h'"
  by (simp add: same_registry_def rooms_kept_def)

lemma room_sound_rebuilt:
  assumes "ranges_ok e" and "finite S" and "within_limit (MaxClientsPerRoom L) (card S)"
  shows "room_sound L (room\<lparr>r_clients := S, r_snapshot := Some (e_rangeC e S)\<rparr>)"
  using ranges_okD(1) [OF assms(1,2)] assms(3) by (simp add: room_sound_def loadRoomSnapshot_def)

lemma room_sound_finite: "room_sound L room \<Longrightarrow> finite (r_clients room)"
  unfolding room_sound_def by (metis List.finite_set)

text \<open>One room gets new members, the lists of rooms stay.\<close>

lemma room_changed:
  assumes "rooms_sound h" and "h_rooms h' = h_rooms h" and "h_rnext h' = h_rnext h" and "h_limits h' = h_limits h"
    and "gauge room_delta h' = gauge room_delta h" and "h_rmem h' = (h_rmem h)(r := room)"
    and "room_sound (h_limits h) room"
    and "\<And>c. finite (c_rooms (h_mem h' c)) \<and> within_limit (MaxRoomsPerClient (h_limits h)) (card (c_rooms (h_mem h' c)))"
  shows "rooms_sound h' \<and> rooms_later h h'"
  using assms by (simp add: rooms_sound_def rooms_later_def)

lemma joinCommit_rooms:
  assumes "rooms_sound h" and "room_sound (h_limits h) (h_rmem h r)" and "ranges_ok e"
    and "within_limit (MaxClientsPerRoom (h_limits h)) (Suc (card (r_clients (h_rmem h r))))"
    and "within_limit (MaxRoomsPerClient (h_limits h)) (Suc (card (c_rooms (h_mem h c))))"
  shows "rooms_sound (joinCommit e c n r h) \<and> rooms_later h (joinCommit e c n r h)"
proof (rule room_changed [OF assms(1) joinCommit_store(1,3) _ joinCommit_store(6,2)])
  show "h_limits (joinCommit e c n r h) = h_limits h"
    using joinCommit_store(7) by (simp add: same_clients_def)
  show "room_sound (h_limits h) ((h_rmem h r)\<lparr>r_clients := insert c (r_clients (h_rmem h r)),
      r_snapshot := Some (e_rangeC e (insert c (r_clients (h_rmem h r))))\<rparr>)"
    using room_sound_finite [OF assms(2)] assms(4)
    by (intro room_sound_rebuilt [OF assms(3)] within_limit_card_insert) simp_all
  show "finite (c_rooms (h_mem (joinCommit e c n r h) x)) \<and>
      within_limit (MaxRoomsPerClient (h_limits h)) (card (c_rooms (h_mem (joinCommit e c n r h) x)))" for x
    using assms(1,5) by (simp add: rooms_sound_def joinCommit_store(4) within_limit_card_insert)
qed

lemma takeOut_store:
  assumes "neutral g"
  shows "h_rooms (takeOut e c r g h) = h_rooms h" "h_rnext (takeOut e c r g h) = h_rnext h"
    and "gauge d (takeOut e c r g h) = gauge d h"
    and "h_rmem (takeOut e c r g h) = (h_rmem h)(r := (h_rmem h r)
      \<lparr>r_clients := r_clients (h_rmem h r) - {c}, r_snapshot := Some (e_rangeC e (r_clients (h_rmem h r) - {c}))\<rparr>)"
  using assms by (simp_all add: takeOut_def rebuildRoomSnapshot_def neutralD frame_simps gauge_def)

lemma takeOut_rooms:
  assumes "rooms_sound h" and "room_sound (h_limits h) (h_rmem h r)" and "ranges_ok e" and "g \<in> {id, leaveNote c n}"
  shows "rooms_sound (takeOut e c r g h) \<and> rooms_later h (takeOut e c r g h)"
proof -
  have g: "neutral g" using assms(4) by auto
  have fin: "finite (r_clients (h_rmem h r))" by (rule room_sound_finite [OF assms(2)])
  show ?thesis
  proof (rule room_changed [OF assms(1) takeOut_store(1,2) [OF g] _ takeOut_store(3,4) [OF g]])
    show "h_limits (takeOut e c r g h) = h_limits h"
      using assms(4) by (auto simp: takeOut_def rebuildRoomSnapshot_def leaveNote_def Let_def frame_simps)
    show "room_sound (h_limits h) ((h_rmem h r)\<lparr>r_clients := r_clients (h_rmem h r) - {c},
        r_snapshot := Some (e_rangeC e (r_clients (h_rmem h r) - {c}))\<rparr>)"
      using fin assms(2)
      by (intro room_sound_rebuilt [OF assms(3)] within_limit_card_Diff) (simp_all add: room_sound_def)
    show "finite (c_rooms (h_mem (takeOut e c r g h) x)) \<and>
        within_limit (MaxRoomsPerClient (h_limits h)) (card (c_rooms (h_mem (takeOut e c r g h) x)))" for x
      using assms(1,4)
      by (auto simp: rooms_sound_def takeOut_def rebuildRoomSnapshot_def leaveNote_def leaveRoom_def Let_def frame_simps
          within_limit_card_Diff)
  qed
qed

lemma deleteRoom_rooms:
  assumes "rooms_sound h"
  shows "rooms_sound (deleteRoomIfEmpty n r h) \<and> rooms_later h (deleteRoomIfEmpty n r h)"
proof (cases "emptyRoom h n r")
  case True
  then have n: "n \<in> dom (h_rooms h)" by (auto simp: emptyRoom_def)
  have "int (card (dom (h_rooms h) - {n})) = int (card (dom (h_rooms h))) - 1"
    using assms n by (intro int_card_remove) (simp_all add: rooms_sound_def)
  then show ?thesis
    using True assms unfolding rooms_sound_def rooms_later_def emptyRoom_def
    by (simp add: deleteRoomIfEmpty_def frame_simps trace_simps gauge_def)
next
  case False
  then have "deleteRoomIfEmpty n r h = h" by (auto simp: deleteRoomIfEmpty_def emptyRoom_def)
  with assms show ?thesis by simp
qed

lemma getRoom_rooms:
  assumes sound: "rooms_sound h" and get: "getOrCreateRoom n h = ((r, exists), h')"
  shows "rooms_sound h' \<and> rooms_later h h' \<and> hand_ok h' (n, r) \<and>
    (exists \<longrightarrow> h' = h) \<and> (emptyRoom h' n' r' \<longrightarrow> emptyRoom h n' r' \<or> n' = n \<and> r' = r \<and> \<not> exists)"
proof (cases "h_rooms h n")
  case None
  have fresh: "h_rooms h n' \<noteq> Some (h_rnext h)" for n' using sound unfolding rooms_sound_def by blast
  have h': "h' = emit (Metric IncrementRooms) (h\<lparr>h_rmem := (h_rmem h)(r := \<lparr>r_clients = {}, r_snapshot = None\<rparr>),
      h_rnext := Suc r, h_rooms := (h_rooms h)(n \<mapsto> r)\<rparr>)" and r: "r = h_rnext h" and ex: "\<not> exists"
    using get None by (auto simp: getOrCreateRoom_def Let_def)
  have new: "room_sound L \<lparr>r_clients = {}, r_snapshot = None\<rparr>" for L by (simp add: room_sound_def loadRoomSnapshot_def)
  have "n \<notin> dom (h_rooms h)" "finite (dom (h_rooms h))" using None sound by (auto simp: rooms_sound_def)
  then have "int (card (insert n (dom (h_rooms h)))) = int (card (dom (h_rooms h))) + 1" by (intro int_card_insert)
  then have "rooms_sound h'"
    using sound new fresh unfolding rooms_sound_def h' r
    by (simp add: frame_simps trace_simps gauge_def less_SucI) metis
  moreover have "rooms_later h h'" using new by (simp add: rooms_later_def h' r frame_simps)
  moreover have "hand_ok h' (n, r)" using new fresh by (auto simp: hand_ok_def h' r frame_simps)
  moreover have "emptyRoom h' n' r' \<longrightarrow> emptyRoom h n' r' \<or> n' = n \<and> r' = r" for n' r'
    using fresh by (auto simp: emptyRoom_def h' r frame_simps)
  ultimately show ?thesis using ex by blast
next
  case (Some r')
  then have "h' = h" "r = r'" exists using get by (auto simp: getOrCreateRoom_def)
  with Some sound show ?thesis by (auto simp: rooms_sound_def hand_ok_def)
qed

definition section_ok :: "roomPc \<Rightarrow> hub \<Rightarrow> roomPc \<Rightarrow> hub \<Rightarrow> bool" where
  "section_ok pc h pc' h' \<longleftrightarrow> rooms_sound h' \<and> rooms_later h h' \<and> (\<forall>p\<in>inHand pc'. hand_ok h' p) \<and>
     (\<forall>n r. emptyRoom h' n r \<longrightarrow> seesTo n r pc' \<or> emptyRoom h n r \<and> \<not> seesTo n r pc)"

lemma section_kept:
  assumes "rooms_sound h" and "rooms_kept h h'" and "\<forall>p\<in>inHand pc'. hand_ok h p" and "\<And>n r. \<not> seesTo n r pc"
  shows "section_ok pc h pc' h'"
  using assms(3,4) kept_sound [OF assms(2,1)] kept_later [OF assms(2)] kept_empty [OF assms(2)]
  by (auto simp: section_ok_def intro: hand_later)

lemma rooms_kept_refl [simp]: "rooms_kept h h"
  by (simp add: rooms_kept_def)

lemma afterLeave_kept: "rooms_kept h (afterLeave e c n h)"
  by (simp add: rooms_kept_def afterLeave_def Let_def frame_simps gauge_def)

lemma afterLoop_rooms:
  assumes "rooms_sound h"
  shows "section_ok (AtLoop c [] left) h (AtReturn None) (afterLoop e c left h)"
proof -
  let ?h1 = "forgetRooms c left h"
  have "rooms_sound ?h1"
    using assms by (simp add: rooms_sound_def forgetRooms_store within_limit_card_Diff)
  moreover have "rooms_kept ?h1 (afterLoop e c left h)"
  proof (rule same_registry_kept)
    have "same_registry ?h1 (emit_all (map (\<lambda>_. Metric IncrementRoomLeaves) left) ?h1)" (is "same_registry _ ?h2")
      by (rule emit_all_same) auto
    moreover have "same_registry ?h2 (emit_all (map (\<lambda>n. Go (CallAfterRoomLeave c n)) left) ?h2)"
      by (rule emit_all_same) auto
    ultimately show "same_registry ?h1 (afterLoop e c left h)"
      by (auto simp: afterLoop_def Let_def intro: same_registry_trans)
  qed
  moreover have "rooms_later h ?h1" "emptyRoom ?h1 = emptyRoom h"
    by (intro ext | simp add: rooms_later_def emptyRoom_def forgetRooms_store)+
  ultimately show ?thesis
    by (auto simp: section_ok_def kept_empty intro: kept_sound rooms_later_trans kept_later)
qed

lemma getRoom_section:
  assumes "rooms_sound h" and "getOrCreateRoom n h = ((r, exists), h')"
  shows "section_ok (AtGetRoom c n) h (AtJoin c n r exists) h'"
  using getRoom_rooms [OF assms] by (auto simp: section_ok_def)

lemma joinSection_rooms:
  assumes "rooms_sound h" and hand: "hand_ok h (n, r)" and "ranges_ok e" and join: "joinSection e c n r exists h = (pc', h')"
  shows "section_ok (AtJoin c n r exists) h pc' h'"
proof -
  have "(\<exists>err. pc' = failJoin n r exists err h) \<and> h' = h \<or>
      pc' = AtReturn None \<and> h' = joinCommit e c n r h \<and>
      within_limit (MaxClientsPerRoom (h_limits h)) (Suc (card (r_clients (h_rmem h r)))) \<and>
      within_limit (MaxRoomsPerClient (h_limits h)) (Suc (card (c_rooms (h_mem h c))))"
    using join by (auto simp: joinSection_def split: if_splits)
  then consider err where "pc' = failJoin n r exists err h" "h' = h"
    | "pc' = AtReturn None" "h' = joinCommit e c n r h"
      "within_limit (MaxClientsPerRoom (h_limits h)) (Suc (card (r_clients (h_rmem h r))))"
      "within_limit (MaxRoomsPerClient (h_limits h)) (Suc (card (c_rooms (h_mem h c))))"
    by blast
  then show ?thesis
  proof cases
    case 1
    then show ?thesis
      using assms(1) hand by (auto simp: section_ok_def failJoin_def emptyRoom_def)
  next
    case 2
    have s: "room_sound (h_limits h) (h_rmem h r)" using hand by (simp add: hand_ok_def)
    have "rooms_sound h' \<and> rooms_later h h'" unfolding 2(2) by (rule joinCommit_rooms [OF assms(1) s assms(3) 2(3,4)])
    moreover have "emptyRoom h n' r' \<and> r' \<noteq> r" if "emptyRoom h' n' r'" for n' r'
      using that by (auto simp: emptyRoom_def 2(2) joinCommit_store split: if_splits)
    ultimately show ?thesis by (auto simp: section_ok_def 2(1))
  qed
qed

lemma leaveSection_rooms:
  assumes "rooms_sound h" and hand: "hand_ok h (n, r)" and "ranges_ok e" and "g \<in> {id, leaveNote c n}"
    and leave: "leaveSection e c n r g gone next h = (pc', h')"
    and "inHand gone = {}" and "inHand next = {}" and "\<And>n r. \<not> seesTo n r pc"
  shows "section_ok pc h pc' h'"
proof (cases "c \<in> r_clients (h_rmem h r)")
  case True
  have g: "neutral g" using assms(4) by auto
  have h': "h' = takeOut e c r g h" and pc': "pc' = (if r_clients (h_rmem h' r) = {} then AtDelete n r next else next)"
    using leave True by (auto simp: leaveSection_def Let_def split: if_splits)
  have s: "room_sound (h_limits h) (h_rmem h r)" using hand by (simp add: hand_ok_def)
  have kept: "rooms_sound h' \<and> rooms_later h h'" unfolding h' by (rule takeOut_rooms [OF assms(1) s assms(3,4)])
  then have "\<forall>p\<in>inHand pc'. hand_ok h' p" using hand_later [OF _ hand] assms(7) by (simp add: pc')
  moreover have "emptyRoom h n' r' \<or> seesTo n' r' pc'" if "emptyRoom h' n' r'" for n' r'
    using that hand by (auto simp: emptyRoom_def pc' hand_ok_def h' takeOut_store [OF g] split: if_splits)
  ultimately show ?thesis using kept assms(8) unfolding section_ok_def by blast
next
  case False
  then show ?thesis using leave assms(1,6,8) by (auto simp: leaveSection_def intro: section_kept)
qed

lemma deleteRoom_section:
  assumes "rooms_sound h" and "\<forall>p\<in>inHand (AtDelete n r pc). hand_ok h p"
  shows "section_ok (AtDelete n r pc) h pc (deleteRoomIfEmpty n r h)"
proof -
  have "emptyRoom h n' r' \<and> \<not> (n' = n \<and> r' = r)" if "emptyRoom (deleteRoomIfEmpty n r h) n' r'" for n' r'
    using that by (auto simp: emptyRoom_def deleteRoomIfEmpty_def frame_simps split: if_splits)
  moreover have "rooms_sound (deleteRoomIfEmpty n r h)" and later: "rooms_later h (deleteRoomIfEmpty n r h)"
    using deleteRoom_rooms [OF assms(1)] by blast+
  moreover have "\<forall>p\<in>inHand pc. hand_ok (deleteRoomIfEmpty n r h) p"
    using assms(2) hand_later [OF later] by simp
  ultimately show ?thesis by (auto simp: section_ok_def)
qed

lemma callBeforeRoomLeave_kept: "env_ok e \<Longrightarrow> rooms_kept h (callBeforeRoomLeave e c n h)"
  by (simp add: env_ok_def callBeforeRoomLeave_same same_registry_kept)

lemma callBeforeRoomJoin_kept: "env_ok e \<Longrightarrow> callBeforeRoomJoin e c n h = (err, h') \<Longrightarrow> rooms_kept h h'"
  by (auto simp: env_ok_def dest: callBeforeRoomJoin_same intro: same_registry_kept)

lemma listed_hand: "rooms_sound h \<Longrightarrow> h_rooms h n = Some r \<Longrightarrow> hand_ok h (n, r)"
  by (auto simp: rooms_sound_def hand_ok_def)

lemma roomSection_ok:
  assumes "roomSection e pc h = Some (pc', h')" and "rooms_sound h" and "env_ok e" and "\<forall>p\<in>inHand pc. hand_ok h p"
  shows "section_ok pc h pc' h'"
proof -
  have r: "ranges_ok e" using assms(3) by (simp add: env_ok_def)
  show ?thesis
    using assms
  proof (cases "(e, pc, h)" rule: roomSection.cases)
    case (3 e c n h)
    then show ?thesis
      using assms by (auto split: prod.splits option.splits intro!: section_kept dest: callBeforeRoomJoin_kept)
  next
    case (4 e c n h)
    then show ?thesis
      using assms getRoom_section by (auto split: prod.splits)
  next
    case (5 e c n r exists h)
    then show ?thesis using assms joinSection_rooms r by auto
  next
    case (8 e c n r h)
    then show ?thesis using assms by (auto intro!: leaveSection_rooms [OF _ _ r])
  next
    case (9 e n r pc h)
    then show ?thesis using assms deleteRoom_section by auto
  next
    case (10 e c n h)
    then show ?thesis using assms afterLeave_kept by (auto intro!: section_kept)
  next
    case (11 e c left h)
    then show ?thesis using assms afterLoop_rooms by auto
  next
    case (12 e c n ns left h)
    then show ?thesis
      using assms listed_hand by (auto split: option.splits intro!: section_kept)
  next
    case (15 e c n rm ns left h)
    then have "leaveSection e c n rm id (AtLoop c ns left) (AtLoop c ns (left @ [n])) h = (pc', h')" "ranges_ok e"
      using assms(1) r by auto
    from leaveSection_rooms [OF _ _ this(2) _ this(1)] show ?thesis using 15 assms(2,4) by simp
  qed (auto intro!: section_kept callBeforeRoomLeave_kept split: if_splits)
qed

subsection \<open>The invariant holds in every interleaving\<close>

lemma goesTo_fields [simp]: "ro_hub (goesTo i pc h s) = h" "ro_pc (goesTo i pc h s) = (ro_pc s)(i := pc)"
  by (simp_all add: goesTo_def)

lemma goesTo_inv:
  assumes "rooms_system_inv N s" and "i < N" and "section_ok (ro_pc s i) (ro_hub s) pc h"
  shows "rooms_system_inv N (goesTo i pc h s)"
  unfolding rooms_system_inv_def
proof (intro conjI allI ballI impI)
  show "rooms_sound (ro_hub (goesTo i pc h s))" using assms(3) by (simp add: section_ok_def)
  show "hand_ok (ro_hub (goesTo i pc h s)) p" if "p \<in> inHand (ro_pc (goesTo i pc h s) j)" for j p
    using that assms(1,3) hand_later [of "ro_hub s" h p]
    by (cases "j = i") (simp_all add: section_ok_def rooms_system_inv_def)
  show "ro_pc (goesTo i pc h s) j = AtRest" if "N \<le> j" for j
    using that assms(1,2) by (simp add: rooms_system_inv_def)
  show "\<exists>j<N. seesTo n r (ro_pc (goesTo i pc h s) j)" if e: "emptyRoom (ro_hub (goesTo i pc h s)) n r" for n r
  proof (cases "seesTo n r pc")
    case True
    with assms(2) show ?thesis by (intro exI [of _ i]) simp
  next
    case False
    then have "emptyRoom (ro_hub s) n r" and n: "\<not> seesTo n r (ro_pc s i)"
      using e assms(3) by (auto simp: section_ok_def)
    then obtain j where "j < N" "seesTo n r (ro_pc s j)" using assms(1) unfolding rooms_system_inv_def by blast
    with n show ?thesis by (intro exI [of _ j]) auto
  qed
qed

lemma sectionRuns_goesTo:
  assumes "sectionRuns e i s = Some t"
  obtains pc h where "roomSection e (ro_pc s i) (ro_hub s) = Some (pc, h)" "t = goesTo i pc h s"
  using assms by (auto simp: sectionRuns_def split: option.splits)

lemma inner_inv: "roomsInner N s t \<Longrightarrow> rooms_system_inv N s \<Longrightarrow> rooms_system_inv N t"
proof (induction rule: roomsInner.induct)
  case (inner_section i e s t)
  from inner_section(3) obtain pc h where t: "roomSection e (ro_pc s i) (ro_hub s) = Some (pc, h)" "t = goesTo i pc h s"
    by (rule sectionRuns_goesTo)
  have "section_ok (ro_pc s i) (ro_hub s) pc h"
    using inner_section(2,4) by (intro roomSection_ok [OF t(1)]) (simp_all add: rooms_system_inv_def)
  with inner_section(1,4) show ?case unfolding t(2) by (intro goesTo_inv)
qed

lemma beginOp_ok:
  assumes "rooms_sound h" and "sectionsLeft pc = 0"
  shows "section_ok pc h (beginOp e op h) h"
proof (rule section_kept [OF assms(1) rooms_kept_refl])
  show "\<forall>p\<in>inHand (beginOp e op h). hand_ok h p"
    using listed_hand [OF assms(1)] by (cases op) (auto simp: Let_def split: option.splits)
  show "\<not> seesTo n r pc" for n r using assms(2) by (cases pc) auto
qed

lemma other_inv:
  assumes "rooms_system_inv N s" and "rooms_kept (ro_hub s) h"
  shows "rooms_system_inv N (s\<lparr>ro_hub := h\<rparr>)"
  using assms(1) kept_sound [OF assms(2)] hand_later [OF kept_later [OF assms(2)]] kept_empty [OF assms(2)]
  by (simp add: rooms_system_inv_def)

lemma registry_inv_sound: "registry_inv h \<Longrightarrow> rooms_sound h"
proof -
  assume "registry_inv h"
  then have inv: "rooms_struct h" "rooms_agree h" "inv_limits h" "inv_gauges h" by (simp_all add: registry_inv_def)
  have "room_sound (h_limits h) (h_rmem h r)" if r: "h_rooms h n = Some r" for n r
  proof -
    have "room_ok (h_rmem h r)" using inv(1) r unfolding rooms_struct_def by blast
    then obtain xs where "r_snapshot (h_rmem h r) = Some xs" "set xs = r_clients (h_rmem h r)" "distinct xs"
      unfolding room_ok_def by blast
    moreover have "within_limit (MaxClientsPerRoom (h_limits h)) (card (members h n))"
      using inv(3) by (simp add: inv_limits_def)
    ultimately show ?thesis using r by (simp add: room_sound_def loadRoomSnapshot_def members_def)
  qed
  then show ?thesis
    using inv unfolding rooms_sound_def rooms_struct_def rooms_agree_def inv_limits_def inv_gauges_def by blast
qed

definition rooms_settled :: "roomSystem \<Rightarrow> bool" where
  "rooms_settled s \<longleftrightarrow> (\<forall>i. sectionsLeft (ro_pc s i) = 0)"

definition roomsWork :: "nat \<Rightarrow> roomSystem \<Rightarrow> nat" where
  "roomsWork N s = (\<Sum>i<N. sectionsLeft (ro_pc s i))"

interpretation roomGoroutines: settling_system rooms_start "roomsStep N" "rooms_system_inv N" "roomsInner N"
  "roomsWork N" rooms_settled for N
proof
  fix s :: roomSystem
  assume "rooms_start s"
  then show "rooms_system_inv N s"
    using registry_inv_sound
    by (auto simp: rooms_start_def rooms_system_inv_def emptyRoom_def registry_inv_def rooms_struct_def)
next
  fix s t :: roomSystem
  assume "rooms_system_inv N s" and "roomsStep N s t"
  from this(2,1) show "rooms_system_inv N t"
  proof cases
    case (room_begin i e op)
    then have "t = goesTo i (beginOp e op (ro_hub s)) (ro_hub s) s" "sectionsLeft (ro_pc s i) = 0"
      by (auto simp: opBegins_def split: if_splits)
    moreover have "rooms_sound (ro_hub s)" using \<open>rooms_system_inv N s\<close> by (simp add: rooms_system_inv_def)
    ultimately show ?thesis using room_begin(1) goesTo_inv beginOp_ok \<open>rooms_system_inv N s\<close> by blast
  qed (blast intro: inner_inv other_inv)+
next
  fix s t :: roomSystem
  assume "rooms_system_inv N s" and "roomsInner N s t"
  from this(2) show "roomsWork N t < roomsWork N s"
  proof cases
    case (inner_section i e)
    from inner_section(3) obtain pc h where t: "roomSection e (ro_pc s i) (ro_hub s) = Some (pc, h)" "t = goesTo i pc h s"
      by (rule sectionRuns_goesTo)
    show ?thesis
      unfolding roomsWork_def t(2) using sum_lowers [of i N sectionsLeft pc "ro_pc s"] inner_section(1) roomSection_lowers [OF t(1)]
      by simp
  qed
next
  fix s :: roomSystem
  assume inv: "rooms_system_inv N s" and stuck: "\<not> (\<exists>t. roomsInner N s t)"
  have "sectionsLeft (ro_pc s i) = 0" for i
  proof (cases "i < N")
    case True
    then have "sectionRuns exampleEnv i s = None"
      using stuck roomsInner.intros [OF True exampleEnv_ok(1)] by (metis not_None_eq)
    then show ?thesis by (auto simp: sectionRuns_def roomSection_None split: option.splits)
  next
    case False
    then show ?thesis using inv by (simp add: rooms_system_inv_def)
  qed
  then show "rooms_settled s" by (simp add: rooms_settled_def)
qed (rule room_section)

subsection \<open>What holds in every interleaving\<close>

lemma sound_room:
  assumes "rooms_sound h"
  shows "set (RoomClients n h) = members h n" "distinct (RoomClients n h)" "RoomCount n h = int (card (members h n))"
    and "within_limit (MaxClientsPerRoom (h_limits h)) (card (members h n))"
proof -
  have "set (RoomClients n h) = members h n \<and> distinct (RoomClients n h) \<and>
      within_limit (MaxClientsPerRoom (h_limits h)) (card (members h n))"
  proof (cases "h_rooms h n")
    case None
    then show ?thesis by (simp add: RoomClients_def members_def)
  next
    case (Some r)
    then have "room_sound (h_limits h) (h_rmem h r)" using assms unfolding rooms_sound_def by blast
    with Some show ?thesis by (simp add: RoomClients_def members_def room_sound_def)
  qed
  moreover have "RoomCount n h = int (length (RoomClients n h))"
    by (simp add: RoomCount_def RoomClients_def split: option.split)
  ultimately show "set (RoomClients n h) = members h n" "distinct (RoomClients n h)"
    "RoomCount n h = int (card (members h n))" "within_limit (MaxClientsPerRoom (h_limits h)) (card (members h n))"
    by (auto simp: distinct_card [symmetric])
qed

text \<open>Only \<open>deleteRoomIfEmpty\<close> takes a room off the list.\<close>

lemma roomSection_unlists:
  assumes "roomSection e pc h = Some (pc', h')" and "env_ok e" and "h_rooms h n = Some r" and "h_rooms h' n = None"
  shows "r_clients (h_rmem h r) = {}"
proof -
  have kept: "h_rooms h' = h_rooms h" if "rooms_kept h h'" using that by (simp add: rooms_kept_def)
  show ?thesis
    using assms
  proof (cases "(e, pc, h)" rule: roomSection.cases)
    case (3 e c n h)
    then have "rooms_kept h h'" using assms(1,2) callBeforeRoomJoin_kept [of e c n h] by (auto split: prod.splits option.splits)
    with 3 assms(3,4) kept show ?thesis by auto
  next
    case (4 e c n h)
    then show ?thesis
      using assms(1,3,4) by (auto simp: getOrCreateRoom_def Let_def frame_simps split: option.splits prod.splits if_splits)
  next
    case (5 e c n r exists h)
    then show ?thesis using assms(1,3,4) by (auto simp: joinSection_def joinCommit_store split: if_splits)
  next
    case (7 e c n r h)
    then show ?thesis using assms(1,3,4) kept callBeforeRoomLeave_kept [OF assms(2), of h c n] by auto
  next
    case (8 e c n r h)
    then show ?thesis using assms(1,3,4) by (auto simp: leaveSection_def takeOut_store Let_def split: if_splits)
  next
    case (9 e n r pc h)
    then show ?thesis using assms(1,3,4) by (auto simp: deleteRoomIfEmpty_def frame_simps split: if_splits)
  next
    case (10 e c n h)
    then show ?thesis using assms(1,3,4) kept afterLeave_kept [of h e c n] by auto
  next
    case (11 e c left h)
    have "h_rooms (afterLoop e c left h) = h_rooms h"
      by (simp add: afterLoop_def Let_def emit_all_eq forgetRooms_store)
    with 11 show ?thesis using assms(1,3,4) by auto
  next
    case (14 e c n r ns left h)
    then show ?thesis using assms(1,3,4) kept callBeforeRoomLeave_kept [OF assms(2), of h c n] by auto
  next
    case (15 e c n r ns left h)
    then show ?thesis using assms(1,3,4) by (auto simp: leaveSection_def takeOut_store Let_def split: if_splits)
  qed auto
qed

lemma roomsStep_unlists:
  assumes "roomsStep N s t" and "h_rooms (ro_hub s) n = Some r" and "h_rooms (ro_hub t) n = None"
  shows "members (ro_hub s) n = {}"
  using assms
proof cases
  case (room_begin i e op)
  then show ?thesis using assms(2,3) by (auto simp: opBegins_def split: if_splits)
next
  case room_section
  then obtain i e where "env_ok e" "sectionRuns e i s = Some t" by (auto elim: roomsInner.cases)
  then show ?thesis
    using roomSection_unlists assms(2,3) by (auto elim!: sectionRuns_goesTo simp: members_def)
next
  case (room_other h)
  then show ?thesis using assms(2,3) by (simp add: rooms_kept_def)
qed

text \<open>C9: the room operations keep their promises under every interleaving of their lock sections, for any
  number of goroutines and with any other operations of the hub in between. The list of a room that readers
  see without a lock is always exactly its members, each once; \<open>MaxClientsPerRoom\<close> and \<open>MaxRoomsPerClient\<close> are
  never exceeded, although the checks and the insertions of different goroutines overlap; the rooms gauge is
  exact; a room is deleted only when it has no member. The goroutines finish by themselves within the number
  of sections they have before them, and when all operations are over no empty room is left in the hub.\<close>

theorem rooms_interleaved:
  assumes "reach rooms_start (roomsStep N) s"
  shows "(\<forall>n. set (RoomClients n (ro_hub s)) = members (ro_hub s) n \<and> distinct (RoomClients n (ro_hub s)) \<and>
        RoomCount n (ro_hub s) = int (card (members (ro_hub s) n)) \<and>
        within_limit (MaxClientsPerRoom (h_limits (ro_hub s))) (card (members (ro_hub s) n))) \<and>
    (\<forall>c. within_limit (MaxRoomsPerClient (h_limits (ro_hub s))) (card (c_rooms (h_mem (ro_hub s) c)))) \<and>
    gauge room_delta (ro_hub s) = int (card (dom (h_rooms (ro_hub s)))) \<and>
    (\<forall>t n. roomsStep N s t \<and> RoomExists n (ro_hub s) \<and> \<not> RoomExists n (ro_hub t) \<longrightarrow> members (ro_hub s) n = {}) \<and>
    (rooms_settled s \<longrightarrow> (\<forall>n. RoomExists n (ro_hub s) \<longrightarrow> members (ro_hub s) n \<noteq> {})) \<and>
    (\<forall>k t. (roomsInner N ^^ k) s t \<longrightarrow> k \<le> roomsWork N s) \<and>
    (\<exists>t. (roomsInner N)\<^sup>*\<^sup>* s t \<and> rooms_settled t)"
proof (intro conjI allI impI)
  have inv: "rooms_system_inv N s" by (rule roomGoroutines.reach_inv [OF assms])
  then have sound: "rooms_sound (ro_hub s)" by (simp add: rooms_system_inv_def)
  show "set (RoomClients n (ro_hub s)) = members (ro_hub s) n" "distinct (RoomClients n (ro_hub s))"
    "RoomCount n (ro_hub s) = int (card (members (ro_hub s) n))"
    "within_limit (MaxClientsPerRoom (h_limits (ro_hub s))) (card (members (ro_hub s) n))" for n
    by (fact sound_room [OF sound])+
  show "within_limit (MaxRoomsPerClient (h_limits (ro_hub s))) (card (c_rooms (h_mem (ro_hub s) c)))" for c
    using sound unfolding rooms_sound_def by blast
  show "gauge room_delta (ro_hub s) = int (card (dom (h_rooms (ro_hub s))))"
    using sound unfolding rooms_sound_def by blast
  show "members (ro_hub s) n = {}" if "roomsStep N s t \<and> RoomExists n (ro_hub s) \<and> \<not> RoomExists n (ro_hub t)" for t n
    using that roomsStep_unlists by (auto simp: RoomExists_def)
  show "members (ro_hub s) n \<noteq> {}" if q: "rooms_settled s" and ex: "RoomExists n (ro_hub s)" for n
  proof
    assume "members (ro_hub s) n = {}"
    with ex obtain r where "emptyRoom (ro_hub s) n r" by (auto simp: RoomExists_def members_def emptyRoom_def)
    then obtain i where "seesTo n r (ro_pc s i)" using inv unfolding rooms_system_inv_def by blast
    moreover have "sectionsLeft (ro_pc s i) = 0" using q by (simp add: rooms_settled_def)
    ultimately show False by (cases "ro_pc s i") auto
  qed
  show "k \<le> roomsWork N s" if "(roomsInner N ^^ k) s t" for k t
    using roomGoroutines.internal_bound [OF assms that] by simp
  show "\<exists>t. (roomsInner N)\<^sup>*\<^sup>* s t \<and> rooms_settled t" by (rule roomGoroutines.settles_eventually [OF assms])
qed

text \<open>Client 1 has looked up the lobby when client 0, its only member, leaves it; client 1 joins before the
  deletion, which then leaves the room alone.\<close>

definition crossing :: roomSystem where
  "crossing = the (runMoves
     ([opBegins exampleEnv 0 (OpLeave 0 ''lobby''), opBegins exampleEnv 1 (OpJoin 1 ''lobby'')] @
      replicate 3 (sectionRuns exampleEnv 0) @ replicate 3 (sectionRuns exampleEnv 1) @
      replicate 2 (sectionRuns exampleEnv 0))
     \<lparr>ro_hub = exampleHub, ro_pc = \<lambda>_. AtRest\<rparr>)"

lemmas section_defs = opBegins_def sectionRuns_def goesTo_def joinSection_def leaveSection_def takeOut_def
  afterLeave_def afterLoop_def failJoin_def callBeforeRoomJoin_def

lemma crossing_run:
  "runMoves
     ([opBegins exampleEnv 0 (OpLeave 0 ''lobby''), opBegins exampleEnv 1 (OpJoin 1 ''lobby'')] @
      replicate 3 (sectionRuns exampleEnv 0) @ replicate 3 (sectionRuns exampleEnv 1) @
      replicate 2 (sectionRuns exampleEnv 0))
     \<lparr>ro_hub = exampleHub, ro_pc = \<lambda>_. AtRest\<rparr> = Some crossing \<and>
   rooms_settled crossing \<and> members (ro_hub crossing) ''lobby'' = {1} \<and> RoomExists ''lobby'' (ro_hub crossing)"
  by (simp add: crossing_def numeral_3_eq_3 numeral_2_eq_2 section_defs race_defs example_defs frame_simps upd_room_def
      upd_client_def emit_def Let_def members_def RoomExists_def rooms_settled_def)

lemma moves_are_steps:
  "opBegins e i op u = Some v \<Longrightarrow> i < N \<Longrightarrow> env_ok e \<Longrightarrow> roomsStep N u v"
  "sectionRuns e i u = Some v \<Longrightarrow> i < N \<Longrightarrow> env_ok e \<Longrightarrow> roomsStep N u v"
  by (auto intro: room_begin room_section inner_section)

theorem rooms_interleaved_witness:
  "RoomClients ''lobby'' (ro_hub crossing) = [1] \<and> RoomCount ''lobby'' (ro_hub crossing) = 1 \<and>
   members (ro_hub crossing) ''lobby'' \<noteq> {}"
proof -
  have "reach rooms_start (roomsStep 2) \<lparr>ro_hub = exampleHub, ro_pc = \<lambda>_. AtRest\<rparr>"
    using exampleHub_inv by (intro reach_start) (simp add: rooms_start_def)
  then have "reach rooms_start (roomsStep 2) crossing"
    using conjunct1 [OF crossing_run]
    by (rule runMoves_reach) (simp add: moves_are_steps exampleEnv_ok(1))
  note claim = rooms_interleaved [OF this]
  have "set (RoomClients ''lobby'' (ro_hub crossing)) = {1}" "distinct (RoomClients ''lobby'' (ro_hub crossing))"
    "RoomCount ''lobby'' (ro_hub crossing) = 1" "members (ro_hub crossing) ''lobby'' \<noteq> {}"
    using claim crossing_run by auto
  then show ?thesis by (cases "RoomClients ''lobby'' (ro_hub crossing)"; cases "tl (RoomClients ''lobby'' (ro_hub crossing))") auto
qed


subsection \<open>What does not hold\<close>

text \<open>The same client leaves all rooms and joins one of them again while the loop is on its way: the join
  puts the client into the room, then the loop takes the name out of \<open>client.rooms\<close>. The client
  stays a member of a room that it does not know of, also when it disconnects, since the loop only
  visits \<open>client.rooms\<close>.\<close>

lemma leaveAll_join_race:
  "\<exists>s. runMoves
     ([opBegins exampleEnv 0 (OpLeaveAll 0), sectionRuns exampleEnv 0] @ replicate 3 (sectionRuns exampleEnv 0) @
      [opBegins exampleEnv 1 (OpJoin 0 ''lobby'')] @ replicate 3 (sectionRuns exampleEnv 1) @
      replicate 2 (sectionRuns exampleEnv 0))
     \<lparr>ro_hub = exampleHub, ro_pc = \<lambda>_. AtRest\<rparr> = Some s \<and>
   rooms_settled s \<and> 0 \<in> members (ro_hub s) ''lobby'' \<and> \<not> InRoom 0 ''lobby'' (ro_hub s) \<and>
   0 \<in> members (LeaveAllRooms exampleEnv 0 (ro_hub s)) ''lobby''"
  by (simp add: numeral_3_eq_3 numeral_2_eq_2 section_defs race_defs example_defs frame_simps upd_room_def
      upd_client_def emit_def Let_def members_def rooms_settled_def InRoom_def forgetRooms_def
      LeaveAllRooms_def removeClientFromAllRoomsWithHooks_def)

end
