(* ===== verification/Ws_LockOrder.thy ===== *)
theory Ws_LockOrder
  imports Ws_RoomLocks
begin

section \<open>Locks and their order (hub.go: the lock ordering of Hub)\<close>

text \<open>
  The comment on \<open>Hub\<close> prescribes an order in which its locks are taken "to prevent deadlocks". This
  theory models the locks themselves: \<open>sync.Mutex\<close> and \<open>sync.RWMutex\<close> with waiting writers, goroutines
  that run sequences of lock operations, and the locale \<open>lock_hierarchy\<close>, in which sequences that
  follow a rank can never block each other. The sequences of the hub's functions are read off the
  code and interpret the locale; the rank that makes it work is not quite the documented one.
\<close>

subsection \<open>Locks of Go\<close>

datatype 'l lockAct = GoLock 'l | GoUnlock 'l | GoRLock 'l | GoRUnlock 'l

text \<open>Per goroutine: the lock operations before it, the locks it holds (with \<open>True\<close> for writing), and
  whether it waits inside \<open>Lock\<close>. A waiting writer keeps new readers out, as \<open>sync.RWMutex\<close> documents.\<close>

record 'l lockSystem =
  lk_prog :: "nat \<Rightarrow> 'l lockAct list"
  lk_held :: "nat \<Rightarrow> ('l \<times> bool) list"
  lk_asked :: "nat \<Rightarrow> bool"

definition isHeld :: "nat \<Rightarrow> 'l lockSystem \<Rightarrow> 'l \<Rightarrow> bool" where
  "isHeld N s l \<longleftrightarrow> (\<exists>j<N. l \<in> fst ` set (lk_held s j))"

definition writerIn :: "nat \<Rightarrow> 'l lockSystem \<Rightarrow> 'l \<Rightarrow> bool" where
  "writerIn N s l \<longleftrightarrow> (\<exists>j<N. (l, True) \<in> set (lk_held s j))"

definition writerWaits :: "nat \<Rightarrow> 'l lockSystem \<Rightarrow> 'l \<Rightarrow> bool" where
  "writerWaits N s l \<longleftrightarrow> (\<exists>j<N. lk_asked s j \<and> (\<exists>p. lk_prog s j = GoLock l # p))"

definition lockDoes :: "nat \<Rightarrow> 'l lockAct list \<Rightarrow> ('l \<times> bool) list \<Rightarrow> 'l lockSystem \<Rightarrow> 'l lockSystem" where
  "lockDoes i p H s = s\<lparr>lk_prog := (lk_prog s)(i := p), lk_held := (lk_held s)(i := H), lk_asked := (lk_asked s)(i := False)\<rparr>"

text \<open>The next step of goroutine \<open>i\<close>; \<open>None\<close> when it blocks, has nothing to do, or releases a lock
  it does not hold (a fatal error in Go).\<close>

definition lockMove :: "nat \<Rightarrow> nat \<Rightarrow> 'l lockSystem \<Rightarrow> 'l lockSystem option" where
  "lockMove N i s = (case lk_prog s i of
       [] \<Rightarrow> None
     | GoLock l # p \<Rightarrow>
         if \<not> lk_asked s i then Some (s\<lparr>lk_asked := (lk_asked s)(i := True)\<rparr>)
         else if isHeld N s l then None else Some (lockDoes i p ((l, True) # lk_held s i) s)
     | GoRLock l # p \<Rightarrow>
         if writerIn N s l \<or> writerWaits N s l then None else Some (lockDoes i p ((l, False) # lk_held s i) s)
     | GoUnlock l # p \<Rightarrow>
         if (l, True) \<in> set (lk_held s i) then Some (lockDoes i p (remove1 (l, True) (lk_held s i)) s) else None
     | GoRUnlock l # p \<Rightarrow>
         if (l, False) \<in> set (lk_held s i) then Some (lockDoes i p (remove1 (l, False) (lk_held s i)) s) else None)"

inductive lockInner :: "nat \<Rightarrow> 'l lockSystem \<Rightarrow> 'l lockSystem \<Rightarrow> bool" for N where
  lock_move: "i < N \<Longrightarrow> lockMove N i s = Some t \<Longrightarrow> lockInner N s t"

inductive lockStep :: "nat \<Rightarrow> ('l lockAct list \<Rightarrow> bool) \<Rightarrow> 'l lockSystem \<Rightarrow> 'l lockSystem \<Rightarrow> bool" for N prog where
  lock_call: "i < N \<Longrightarrow> lk_prog s i = [] \<Longrightarrow> prog p \<Longrightarrow> lockStep N prog s (lockDoes i p (lk_held s i) s)"
| lock_inner: "lockInner N s t \<Longrightarrow> lockStep N prog s t"

definition lock_start :: "'l lockSystem \<Rightarrow> bool" where
  "lock_start s \<longleftrightarrow> (\<forall>i. lk_prog s i = [] \<and> lk_held s i = [] \<and> \<not> lk_asked s i)"

definition lock_settled :: "'l lockSystem \<Rightarrow> bool" where
  "lock_settled s \<longleftrightarrow> (\<forall>i. lk_prog s i = [] \<and> lk_held s i = [])"

definition lockWork :: "nat \<Rightarrow> 'l lockSystem \<Rightarrow> nat" where
  "lockWork N s = (\<Sum>i<N. 2 * length (lk_prog s i) - (if lk_asked s i then 1 else 0))"

subsection \<open>Sequences that follow a rank\<close>

text \<open>A lock is only taken when every lock in hand has a lower rank, only locks in hand are released,
  and all are released at the end.\<close>

fun follows :: "('l \<Rightarrow> nat) \<Rightarrow> ('l \<times> bool) list \<Rightarrow> 'l lockAct list \<Rightarrow> bool" where
  "follows rank H [] \<longleftrightarrow> H = []"
| "follows rank H (GoLock l # p) \<longleftrightarrow> (\<forall>x\<in>set H. rank (fst x) < rank l) \<and> follows rank ((l, True) # H) p"
| "follows rank H (GoRLock l # p) \<longleftrightarrow> (\<forall>x\<in>set H. rank (fst x) < rank l) \<and> follows rank ((l, False) # H) p"
| "follows rank H (GoUnlock l # p) \<longleftrightarrow> (l, True) \<in> set H \<and> follows rank (remove1 (l, True) H) p"
| "follows rank H (GoRUnlock l # p) \<longleftrightarrow> (l, False) \<in> set H \<and> follows rank (remove1 (l, False) H) p"

lemma follows_append: "follows rank H p \<Longrightarrow> follows rank [] q \<Longrightarrow> follows rank H (p @ q)"
  by (induction rank H p rule: follows.induct) auto

lemma follows_below:
  assumes "follows rank H p" and "\<forall>l. GoLock l \<in> set p \<or> GoRLock l \<in> set p \<longrightarrow> rank k < rank l"
  shows "follows rank (H @ [(k, True)]) (p @ [GoUnlock k])"
  using assms by (induction rank H p rule: follows.induct) (auto simp: remove1_append)

definition excl :: "'l lockSystem \<Rightarrow> bool" where
  "excl s \<longleftrightarrow> (\<forall>i j l m. (l, True) \<in> set (lk_held s i) \<and> (l, m) \<in> set (lk_held s j) \<longrightarrow> i = j)"

definition lock_inv :: "nat \<Rightarrow> ('l \<Rightarrow> nat) \<Rightarrow> 'l lockSystem \<Rightarrow> bool" where
  "lock_inv N rank s \<longleftrightarrow> excl s \<and> (\<forall>i. follows rank (lk_held s i) (lk_prog s i)) \<and>
     (\<forall>i. lk_asked s i \<longrightarrow> (\<exists>l p. lk_prog s i = GoLock l # p)) \<and> (\<forall>i\<ge>N. lk_prog s i = [])"

text \<open>The lock a goroutine waits for, when it waits.\<close>

fun wanted :: "'l lockAct list \<Rightarrow> 'l option" where
  "wanted (GoLock l # p) = Some l"
| "wanted (GoRLock l # p) = Some l"
| "wanted _ = None"

lemma lockMove_blocked:
  assumes "lockMove N i s = None" and "lk_prog s i \<noteq> []" and "follows rank (lk_held s i) (lk_prog s i)"
  shows "\<exists>l. wanted (lk_prog s i) = Some l \<and> (isHeld N s l \<or> writerWaits N s l)"
  using assms
  by (cases "lk_prog s i" rule: wanted.cases)
    (force simp: lockMove_def writerIn_def isHeld_def split: if_splits)+

lemma holder_wants:
  assumes "follows rank H p" and "(l, m) \<in> set H" and "wanted p = Some l'"
  shows "rank l < rank l'"
  using assms by (cases p rule: wanted.cases) auto

lemma isHeld_outside: "lock_inv N rank s \<Longrightarrow> (l, m) \<in> set (lk_held s i) \<Longrightarrow> i < N"
  unfolding lock_inv_def by (metis follows.simps(1) empty_iff empty_set not_le)

subsection \<open>The hierarchy\<close>

lemma lockDoes_fields [simp]:
  "lk_prog (lockDoes i p H s) = (lk_prog s)(i := p)" "lk_held (lockDoes i p H s) = (lk_held s)(i := H)"
  "lk_asked (lockDoes i p H s) = (lk_asked s)(i := False)"
  by (simp_all add: lockDoes_def)

lemma excl_take:
  assumes "excl s" and "lk_held t = (lk_held s)(i := (l, m) # lk_held s i)"
    and "\<And>j. (l, True) \<notin> set (lk_held s j)" and "m \<Longrightarrow> \<forall>j. (l, False) \<notin> set (lk_held s j)"
  shows "excl t"
  unfolding excl_def
proof (intro allI impI)
  fix i' j l' m'
  assume a: "(l', True) \<in> set (lk_held t i') \<and> (l', m') \<in> set (lk_held t j)"
  have new: "(k, x) \<in> set (lk_held s j') \<or> j' = i \<and> k = l \<and> x = m" if "(k, x) \<in> set (lk_held t j')" for k x j'
    using that assms(2) by (auto split: if_splits)
  show "i' = j"
  proof (cases "l' = l")
    case True
    then have "i' = i" and m using new [of l' True i'] a assms(3) by blast+
    moreover have "j = i" using new [of l' m' j] a assms(3) assms(4) [OF \<open>m\<close>] True by (cases m') auto
    ultimately show ?thesis by simp
  next
    case False
    then show ?thesis using new [of l' True i'] new [of l' m' j] a assms(1) unfolding excl_def by blast
  qed
qed

lemma excl_release:
  assumes "excl s" and "lk_held t = (lk_held s)(i := remove1 x (lk_held s i))"
  shows "excl t"
proof -
  have "set (lk_held t j) \<subseteq> set (lk_held s j)" for j
    using assms(2) set_remove1_subset [of x "lk_held s i"] by simp
  with assms(1) show ?thesis unfolding excl_def by blast
qed

lemma lockMove_excl:
  assumes "excl s" and "lockMove N i s = Some t" and "\<forall>j\<ge>N. lk_held s j = []"
  shows "excl t"
proof (cases "lk_prog s i" rule: wanted.cases)
  case (1 l p)
  have free: "(l, m) \<notin> set (lk_held s j)" if "\<not> isHeld N s l" for j m
    using that assms(3) by (cases "j < N") (force simp: isHeld_def)+
  have "lk_held t = lk_held s \<or> \<not> isHeld N s l \<and> lk_held t = (lk_held s)(i := (l, True) # lk_held s i)"
    using 1 assms(2) by (auto simp: lockMove_def split: if_splits)
  then show ?thesis
  proof
    assume "lk_held t = lk_held s"
    then show ?thesis using assms(1) by (simp add: excl_def)
  next
    assume "\<not> isHeld N s l \<and> lk_held t = (lk_held s)(i := (l, True) # lk_held s i)"
    then show ?thesis using free by (intro excl_take [OF assms(1)]) blast+
  qed
next
  case (2 l p)
  have "(l, True) \<notin> set (lk_held s j)" if "\<not> writerIn N s l" for j
    using that assms(3) by (cases "j < N") (auto simp: writerIn_def)
  with 2 assms(2) excl_take [OF assms(1), of t i l False] show ?thesis
    by (auto simp: lockMove_def split: if_splits)
qed (use assms(2) excl_release [OF assms(1), of t i] in \<open>auto simp: lockMove_def split: if_splits\<close>)

lemma lock_inv_rest: "lock_inv N rank s \<Longrightarrow> N \<le> j \<Longrightarrow> lk_held s j = []"
  unfolding lock_inv_def by (metis follows.simps(1))

lemma lockMove_inv:
  assumes "lock_inv N rank s" and "i < N" and "lockMove N i s = Some t"
  shows "lock_inv N rank t"
proof -
  have "excl t"
    using assms lockMove_excl lock_inv_rest unfolding lock_inv_def by blast
  moreover have "\<forall>j. follows rank (lk_held t j) (lk_prog t j)" "\<forall>j. lk_asked t j \<longrightarrow> (\<exists>l p. lk_prog t j = GoLock l # p)"
    using assms(1,3)
    by (cases "lk_prog s i" rule: wanted.cases; auto simp: lockMove_def lock_inv_def split: if_splits;
        metis follows.simps)+
  moreover have "\<forall>j\<ge>N. lk_prog t j = []"
    using assms by (cases "lk_prog s i" rule: wanted.cases) (auto simp: lockMove_def lock_inv_def split: if_splits)
  ultimately show ?thesis by (simp add: lock_inv_def)
qed

text \<open>If nobody could move, look at a goroutine that waits for a lock of the highest rank: whoever holds
  that lock, or waits in front to write, would have to wait for a lock of a higher rank still.\<close>

lemma lock_progress:
  assumes inv: "lock_inv N rank s" and busy: "lk_prog s k \<noteq> []"
  shows "\<exists>t. lockInner N s t"
proof (rule ccontr)
  assume stuck: "\<not> (\<exists>t. lockInner N s t)"
  have blocked: "\<exists>l. wanted (lk_prog s i) = Some l \<and> (isHeld N s l \<or> writerWaits N s l)"
    if "i < N" "lk_prog s i \<noteq> []" for i
  proof (rule lockMove_blocked [OF _ that(2)])
    show "lockMove N i s = None" using stuck lock_move [OF that(1)] by (metis not_None_eq)
    show "follows rank (lk_held s i) (lk_prog s i)" using inv by (simp add: lock_inv_def)
  qed
  define B where "B = {i. i < N \<and> lk_prog s i \<noteq> []}"
  define f where "f i = rank (the (wanted (lk_prog s i)))" for i
  have "k < N" using inv busy by (metis lock_inv_def not_le)
  then have B: "finite B" "k \<in> B" using busy by (auto simp: B_def)
  then have "Max (f ` B) \<in> f ` B" by (intro Max_in) auto
  then obtain i where i: "i \<in> B" "f i = Max (f ` B)" by auto
  have top: "f j \<le> f i" if "j \<in> B" for j using that B(1) i(2) by simp
  have no_holder: "\<not> isHeld N s l" if "rank l = f i" for l
  proof
    assume "isHeld N s l"
    then obtain j m where j: "j < N" "(l, m) \<in> set (lk_held s j)" by (auto simp: isHeld_def)
    have fol: "follows rank (lk_held s j) (lk_prog s j)" using inv by (simp add: lock_inv_def)
    with j have "lk_prog s j \<noteq> []" by auto
    then obtain l' where l': "wanted (lk_prog s j) = Some l'" "j \<in> B" using blocked j(1) by (auto simp: B_def)
    then have "f i < f j" using holder_wants [OF fol j(2) l'(1)] that by (simp add: f_def)
    with top [OF l'(2)] show False by simp
  qed
  obtain l where l: "wanted (lk_prog s i) = Some l" "isHeld N s l \<or> writerWaits N s l"
    using blocked i(1) by (auto simp: B_def)
  then have "rank l = f i" by (simp add: f_def)
  with l no_holder have "writerWaits N s l" by blast
  then obtain j p where j: "j < N" "lk_asked s j" "lk_prog s j = GoLock l # p" by (auto simp: writerWaits_def)
  have "lockMove N j s \<noteq> None" using j no_holder [OF \<open>rank l = f i\<close>] by (simp add: lockMove_def)
  with stuck lock_move [OF j(1)] show False by (metis not_None_eq)
qed

lemma lockMove_others:
  assumes "lockMove N i s = Some t" and "j \<noteq> i"
  shows "lk_prog t j = lk_prog s j \<and> lk_asked t j = lk_asked s j"
  using assms by (cases "lk_prog s i" rule: wanted.cases) (auto simp: lockMove_def split: if_splits)

lemma lockMove_work:
  assumes "lock_inv N rank s" and "i < N" and "lockMove N i s = Some t"
  shows "lockWork N t < lockWork N s"
proof -
  define w where "w x = 2 * length (fst x) - (if snd x then 1 else 0)" for x :: "'a lockAct list \<times> bool"
  let ?g = "\<lambda>j. (lk_prog s j, lk_asked s j)"
  define v where "v = (lk_prog t i, lk_asked t i)"
  have v: "(\<lambda>j. (lk_prog t j, lk_asked t j)) = ?g(i := v)"
    using lockMove_others [OF assms(3)] by (auto simp: v_def)
  have less: "w v < w (?g i)"
    using assms(3)
    by (cases "lk_prog s i" rule: wanted.cases) (auto simp: lockMove_def w_def v_def split: if_splits)
  have "lockWork N t = (\<Sum>j<N. w ((?g(i := v)) j))" unfolding v [symmetric] by (simp add: lockWork_def w_def)
  moreover have "lockWork N s = (\<Sum>j<N. w (?g j))" by (simp add: lockWork_def w_def)
  ultimately show ?thesis using sum_lowers [OF assms(2), of w v ?g] less by simp
qed

locale lock_hierarchy =
  fixes N :: nat and rank :: "'l \<Rightarrow> nat" and prog :: "'l lockAct list \<Rightarrow> bool"
  assumes follows_rank: "prog p \<Longrightarrow> follows rank [] p"

sublocale lock_hierarchy \<subseteq> settling_system lock_start "lockStep N prog" "lock_inv N rank" "lockInner N" "lockWork N" lock_settled
proof
  fix s :: "'l lockSystem"
  assume "lock_start s"
  then show "lock_inv N rank s" by (simp add: lock_start_def lock_inv_def excl_def)
next
  fix s t :: "'l lockSystem"
  assume inv: "lock_inv N rank s" and "lockStep N prog s t"
  from this(2) show "lock_inv N rank t"
  proof cases
    case (lock_call i p)
    then have "lk_held s i = []" using inv unfolding lock_inv_def by (metis follows.simps(1))
    then show ?thesis
      using lock_call inv follows_rank by (auto simp: lock_inv_def excl_def fun_upd_idem)
  next
    case lock_inner
    then show ?thesis using inv by cases (blast intro: lockMove_inv)
  qed
next
  fix s t :: "'l lockSystem"
  assume inv: "lock_inv N rank s" and "lockInner N s t"
  from this(2) show "lockWork N t < lockWork N s" by cases (rule lockMove_work [OF inv])
next
  fix s :: "'l lockSystem"
  assume inv: "lock_inv N rank s" and stuck: "\<not> (\<exists>t. lockInner N s t)"
  then have "lk_prog s i = []" for i using lock_progress by blast
  moreover have "follows rank (lk_held s i) (lk_prog s i)" for i using inv by (simp add: lock_inv_def)
  ultimately show "lock_settled s" unfolding lock_settled_def by (metis follows.simps(1))
qed (rule lock_inner)

subsection \<open>The locks of the hub and who takes them\<close>

text \<open>\<open>sendMu\<close>, \<open>mu\<close>, \<open>callbackMu\<close> of a client, \<open>mu\<close> of a room, and \<open>mu\<close>, \<open>roomsMu\<close>, \<open>userIndexMu\<close>,
  \<open>presenceMu\<close> of the hub. The remaining locks of the library (router, middleware, rate limiter, metrics,
  context results) are only ever taken alone.\<close>

datatype hubLock = SendMu cref | HubMu | RoomsMu | RoomMu rref | UserIndexMu | ClientMu cref | CallbackMu cref | PresenceMu

definition locked :: "'l \<Rightarrow> 'l lockAct list \<Rightarrow> 'l lockAct list" where
  "locked l p = GoLock l # p @ [GoUnlock l]"

definition rlocked :: "'l \<Rightarrow> 'l lockAct list" where
  "rlocked l = [GoRLock l, GoRUnlock l]"

text \<open>The room operations: the locks of the section that \<open>Ws_RoomLocks\<close> runs as one step.\<close>

fun beginLocks :: "roomOp \<Rightarrow> hubLock lockAct list" where
  "beginLocks (OpJoin c n) = (if n = '''' then [] else rlocked HubMu)"
| "beginLocks (OpLeave c n) = (if n = '''' then [] else rlocked RoomsMu)"
| "beginLocks (OpLeaveAll c) = rlocked (ClientMu c)"

fun sectionLocks :: "roomPc \<Rightarrow> hub \<Rightarrow> hubLock lockAct list" where
  "sectionLocks (AtGetRoom c n) h = locked RoomsMu []"
| "sectionLocks (AtJoin c n r exists) h =
     locked (RoomMu r)
       (if at_limit (MaxClientsPerRoom (h_limits h)) (card (r_clients (h_rmem h r))) \<or> c \<in> r_clients (h_rmem h r)
        then [] else locked (ClientMu c) [])"
| "sectionLocks (AtCheck c n r) h = rlocked (RoomMu r)"
| "sectionLocks (AtLeave c n r) h =
     locked (RoomMu r) (if c \<in> r_clients (h_rmem h r) then locked (ClientMu c) [] else [])"
| "sectionLocks (AtDelete n r pc) h = locked RoomsMu (locked (RoomMu r) [])"
| "sectionLocks (AtLoop c [] left) h = locked (ClientMu c) []"
| "sectionLocks (AtLoop c (n # ns) left) h = rlocked RoomsMu"
| "sectionLocks (AtLoopCheck c n r ns left) h = rlocked (RoomMu r)"
| "sectionLocks (AtLoopLeave c n r ns left) h = locked (RoomMu r) []"
| "sectionLocks _ h = []"

fun traceLocks :: "nat \<Rightarrow> env \<Rightarrow> roomPc \<Rightarrow> hub \<Rightarrow> hubLock lockAct list" where
  "traceLocks 0 e pc h = []"
| "traceLocks (Suc k) e pc h = (case roomSection e pc h of
       None \<Rightarrow> [] | Some (pc1, h1) \<Rightarrow> sectionLocks pc h @ traceLocks k e pc1 h1)"

definition opLocks :: "env \<Rightarrow> roomOp \<Rightarrow> hub \<Rightarrow> hubLock lockAct list" where
  "opLocks e op h = beginLocks op @ traceLocks (sectionsLeft (beginOp e op h)) e (beginOp e op h) h"

text \<open>The user index. \<open>addToUserIndex\<close> and \<open>removeFromUserIndex\<close> read the user under the client's lock
  first and release it; \<open>setClientUserID\<close> takes it inside.\<close>

definition userIndex_locks :: "cref \<Rightarrow> string \<Rightarrow> hubLock lockAct list" where
  "userIndex_locks c u = rlocked (ClientMu c) @ (if u = '''' then [] else locked UserIndexMu [])"

definition setClientUserID_locks :: "cref \<Rightarrow> hubLock lockAct list" where
  "setClientUserID_locks c = locked UserIndexMu (locked (ClientMu c) [])"

definition handleRegister_locks :: "cref \<Rightarrow> string \<Rightarrow> bool \<Rightarrow> hubLock lockAct list" where
  "handleRegister_locks c u refused = userIndex_locks c u @ (if refused then [] else locked HubMu [])"

definition handleUnregister_locks :: "cref \<Rightarrow> string \<Rightarrow> bool \<Rightarrow> hubLock lockAct list \<Rightarrow> hubLock lockAct list" where
  "handleUnregister_locks c u present rooms =
     rlocked HubMu @
     (if \<not> present then []
      else userIndex_locks c u @ rooms @ locked HubMu [] @ locked (ClientMu c) [] @ rlocked (CallbackMu c))"

definition CloseWithCode_locks :: "cref \<Rightarrow> hubLock lockAct list" where
  "CloseWithCode_locks c = locked (ClientMu c) []"

text \<open>The end of \<open>Run\<close>: every client is closed while \<open>h.mu\<close> is held.\<close>

definition closeAll_locks :: "cref list \<Rightarrow> hubLock lockAct list" where
  "closeAll_locks cs = locked HubMu (concat (map CloseWithCode_locks cs))"

text \<open>\<open>trySendErr\<close>: the hook \<open>OnSendDropped\<close> runs under \<open>sendMu\<close> for each message that
  \<open>trySendDropOldest\<close> evicts (\<open>inside\<close>) and without a lock for the new one (\<open>after\<close>).\<close>

definition trySendErr_locks :: "cref \<Rightarrow> bool \<Rightarrow> hubLock lockAct list \<Rightarrow> hubLock lockAct list \<Rightarrow> hubLock lockAct list" where
  "trySendErr_locks c oldest inside after =
     rlocked (ClientMu c) @ (if oldest then locked (SendMu c) inside else []) @ after"

fun takesSend :: "hubLock lockAct \<Rightarrow> bool" where
  "takesSend (GoLock (SendMu c)) = True"
| "takesSend (GoRLock (SendMu c)) = True"
| "takesSend _ = False"

text \<open>What a goroutine may run: sequences of the above. The hooks that the code calls without a lock are
  part of such a sequence; a drop hook may call the hub as well, but must not take a \<open>sendMu\<close>.\<close>

inductive hubProgram :: "hubLock lockAct list \<Rightarrow> bool" where
  hp_none: "hubProgram []"
| hp_then: "hubProgram p \<Longrightarrow> hubProgram q \<Longrightarrow> hubProgram (p @ q)"
| hp_begin: "hubProgram (beginLocks op)"
| hp_section: "hubProgram (sectionLocks pc h)"
| hp_user: "hubProgram (userIndex_locks c u)"
| hp_setUser: "hubProgram (setClientUserID_locks c)"
| hp_register: "hubProgram (handleRegister_locks c u refused)"
| hp_unregister: "hubProgram rooms \<Longrightarrow> hubProgram (handleUnregister_locks c u present rooms)"
| hp_close: "hubProgram (CloseWithCode_locks c)"
| hp_closeAll: "hubProgram (closeAll_locks cs)"
| hp_send: "hubProgram inside \<Longrightarrow> \<forall>a\<in>set inside. \<not> takesSend a \<Longrightarrow> hubProgram after \<Longrightarrow>
    hubProgram (trySendErr_locks c oldest inside after)"
| hp_read: "hubProgram (rlocked l)"
| hp_field: "l \<in> {ClientMu c, CallbackMu c, PresenceMu} \<Longrightarrow> hubProgram (locked l [])"

fun hubRank :: "hubLock \<Rightarrow> nat" where
  "hubRank (SendMu c) = 0"
| "hubRank HubMu = 1"
| "hubRank RoomsMu = 2"
| "hubRank (RoomMu r) = 3"
| "hubRank UserIndexMu = 4"
| "hubRank (ClientMu c) = 5"
| "hubRank (CallbackMu c) = 6"
| "hubRank PresenceMu = 7"

text \<open>The order of the comment on \<open>Hub\<close>, which does not mention the other locks.\<close>

fun documentedRank :: "hubLock \<Rightarrow> nat" where
  "documentedRank HubMu = 1"
| "documentedRank RoomsMu = 2"
| "documentedRank (RoomMu r) = 3"
| "documentedRank (ClientMu c) = 4"
| "documentedRank UserIndexMu = 5"
| "documentedRank _ = 0"

lemma hubRank_pos: "\<not> takesSend (GoLock l) \<Longrightarrow> 0 < hubRank l" "\<not> takesSend (GoRLock l) \<Longrightarrow> 0 < hubRank l"
  by (cases l; simp)+

lemma follows_locked:
  assumes "follows rank [] p" and "\<forall>l'. GoLock l' \<in> set p \<or> GoRLock l' \<in> set p \<longrightarrow> rank l < rank l'"
  shows "follows rank [] (locked l p)"
  using follows_below [OF assms] by (simp add: locked_def)

lemma follows_rlocked: "follows rank [] (rlocked l)"
  by (simp add: rlocked_def)

lemma follows_closeAll: "follows hubRank [] (closeAll_locks cs)"
  unfolding closeAll_locks_def
proof (rule follows_locked)
  show "follows hubRank [] (concat (map CloseWithCode_locks cs))"
    by (induction cs) (auto simp: CloseWithCode_locks_def locked_def)
qed (auto simp: CloseWithCode_locks_def locked_def)

lemma hubProgram_follows: "hubProgram p \<Longrightarrow> follows hubRank [] p"
proof (induction rule: hubProgram.induct)
  case (hp_begin op)
  then show ?case by (cases op) (simp_all add: rlocked_def)
next
  case (hp_section pc h)
  then show ?case by (cases "(pc, h)" rule: sectionLocks.cases) (simp_all add: locked_def rlocked_def)
next
  case (hp_send inside after c oldest)
  have "follows hubRank [] (locked (SendMu c) inside)"
    using hp_send(2,4) hubRank_pos by (intro follows_locked) auto
  with hp_send(5) show ?case
    by (auto simp: trySendErr_locks_def intro!: follows_append follows_rlocked)
next
  case (hp_unregister rooms c u present)
  have tail: "follows hubRank [] (locked HubMu [] @ locked (ClientMu c) [] @ rlocked (CallbackMu c))"
    by (simp add: locked_def rlocked_def)
  have "follows hubRank [] (userIndex_locks c u)" by (simp add: userIndex_locks_def locked_def rlocked_def)
  with hp_unregister(2) show ?case
    unfolding handleUnregister_locks_def by (auto intro!: follows_append [OF _ tail] follows_append follows_rlocked)
qed (auto simp: follows_append follows_rlocked follows_closeAll userIndex_locks_def setClientUserID_locks_def
    handleRegister_locks_def CloseWithCode_locks_def locked_def rlocked_def)

interpretation hubLocks: lock_hierarchy N hubRank hubProgram for N
  by unfold_locales (rule hubProgram_follows)

lemma traceLocks_program: "hubProgram (traceLocks k e pc h)"
  by (induction k arbitrary: pc h) (auto intro: hubProgram.intros split: option.split)

lemma opLocks_program: "hubProgram (opLocks e op h)"
  unfolding opLocks_def by (intro hp_then hp_begin traceLocks_program)


text \<open>Client 0 leaves the lobby while its user is changed: goroutine 0 holds \<open>room.mu\<close> and waits for
  \<open>client.mu\<close>, which goroutine 1 holds inside \<open>userIndexMu\<close>.\<close>

definition lockCall :: "nat \<Rightarrow> 'l lockAct list \<Rightarrow> 'l lockSystem \<Rightarrow> 'l lockSystem option" where
  "lockCall i p s = (if lk_prog s i = [] then Some (lockDoes i p (lk_held s i) s) else None)"

definition noLocks :: "'l lockSystem" where
  "noLocks = \<lparr>lk_prog = \<lambda>_. [], lk_held = \<lambda>_. [], lk_asked = \<lambda>_. False\<rparr>"

definition waitingMoves :: "(hubLock lockSystem \<Rightarrow> hubLock lockSystem option) list" where
  "waitingMoves = [lockCall 0 (sectionLocks (AtLeave 0 ''lobby'' 0) exampleHub), lockCall 1 (setClientUserID_locks 0)] @
     [lockMove 2 1, lockMove 2 1, lockMove 2 1, lockMove 2 1, lockMove 2 0, lockMove 2 0, lockMove 2 0]"

definition waiting :: "hubLock lockSystem" where
  "waiting = the (runMoves waitingMoves noLocks)"

lemmas lock_defs = lockMove_def lockDoes_def lockCall_def noLocks_def locked_def rlocked_def isHeld_def writerIn_def
  writerWaits_def setClientUserID_locks_def trySendErr_locks_def

lemma ex_less_two: "(\<exists>j<2::nat. P j) \<longleftrightarrow> P 0 \<or> P 1"
  by (auto simp: numeral_2_eq_2 less_Suc_eq)

lemma waiting_run:
  "runMoves waitingMoves noLocks = Some waiting \<and> lk_prog waiting 0 \<noteq> [] \<and> lockMove 2 0 waiting = None \<and>
   lk_held waiting 1 = [(ClientMu 0, True), (UserIndexMu, True)]"
  by (simp add: waiting_def waitingMoves_def lock_defs ex_less_two)

lemma lockMoves_are_steps:
  "lockCall i p u = Some v \<Longrightarrow> i < N \<Longrightarrow> prog p \<Longrightarrow> lockStep N prog u v"
  "lockMove N i u = Some v \<Longrightarrow> i < N \<Longrightarrow> lockStep N prog u v"
  by (auto simp: lockCall_def split: if_splits intro: lock_call lock_inner lock_move)


subsection \<open>The documented order\<close>

text \<open>\<open>setClientUserID\<close> takes \<open>client.mu\<close> inside \<open>userIndexMu\<close>, against the order of the comment, in
  which \<open>Client.mu\<close> comes before \<open>userIndexMu\<close>. No function nests them the other way round, so
  the reverse order is the one that holds.\<close>

lemma setClientUserID_against_comment:
  "\<not> follows documentedRank [] (setClientUserID_locks c) \<and> follows hubRank [] (setClientUserID_locks c)"
  by (simp add: setClientUserID_locks_def locked_def)

text \<open>A drop hook that sends to the same client blocks for ever when the hub drops the oldest message: it
  asks for the \<open>sendMu\<close> that its own caller holds.\<close>

lemma drop_hook_blocks:
  "\<exists>s. runMoves (lockCall 0 (trySendErr_locks c True (trySendErr_locks c True [] []) []) #
       [lockMove 1 0, lockMove 1 0, lockMove 1 0, lockMove 1 0, lockMove 1 0, lockMove 1 0, lockMove 1 0]) noLocks = Some s \<and>
     lk_prog s 0 \<noteq> [] \<and> \<not> (\<exists>t. lockInner 1 s t)"
  by (simp add: lock_defs lockInner.simps)

end
