(* ===== verification/Ws_Pool.thy ===== *)
theory Ws_Pool
  imports Ws_Broadcast
begin

section \<open>The worker pool (workerpool.go)\<close>

text \<open>
  \<open>Ws_Broadcast\<close> runs the batches of a parallel send in an arbitrary order and lets the pool refuse
  at an arbitrary batch. Here the pool itself is the transition system: the task channel, the
  workers, any number of goroutines inside \<open>parallelSend\<close> and a \<open>shutdown\<close>, with one step for
  each access to the channel, the \<open>stopped\<close> flag or a wait group and for each send to a client.

  A task keeps the goroutine that waits for it (its \<open>wg\<close> pointer) and the clients still to be
  served. \<open>po_log\<close> records, per goroutine, the clients that were sent its message, in order; the
  other fields are the ones of the code. The variant of \<open>execute\<close> with a context, which stops at
  the first cancelled send, is treated in \<open>Ws_Context\<close>.
\<close>

type_synonym task = "nat \<times> cref list"

datatype workerPc = WIdle | WBusy task | WExited

text \<open>A goroutine in \<open>parallelSend\<close>: outside, before \<open>submit\<close> with the batches left, inside \<open>submit\<close>
  after the check of \<open>stopped\<close>, in the inline loop after a refusal, in \<open>wg.Wait()\<close>, returned.\<close>

datatype callerPc = CIdle | CLoop "cref list list" | CSubmit "cref list" "cref list list" | CInline "cref list" | CWait | CReturned

datatype shutPc = PRunning | PStopped | PWaiting | PDown

record pool =
  po_tasks :: "task list"
  po_cap :: nat
  po_stopped :: bool
  po_closed :: bool
  po_num :: nat
  po_workers :: "nat \<Rightarrow> workerPc"
  po_ncallers :: nat
  po_callers :: "nat \<Rightarrow> callerPc"
  po_wg :: "nat \<Rightarrow> int"
  po_clients :: "nat \<Rightarrow> cref list"
  po_log :: "nat \<Rightarrow> cref list"
  po_shut :: shutPc

definition newWorkerPool :: "nat \<Rightarrow> nat \<Rightarrow> pool" where
  "newWorkerPool numWorkers ncallers = \<lparr>po_tasks = [], po_cap = numWorkers * 4, po_stopped = False, po_closed = False,
     po_num = numWorkers, po_workers = (\<lambda>_. WIdle), po_ncallers = ncallers, po_callers = (\<lambda>_. CIdle),
     po_wg = (\<lambda>_. 0), po_clients = (\<lambda>_. []), po_log = (\<lambda>_. []), po_shut = PRunning\<rparr>"

definition at_caller :: "nat \<Rightarrow> callerPc \<Rightarrow> pool \<Rightarrow> pool" where
  "at_caller i pc s = s\<lparr>po_callers := (po_callers s)(i := pc)\<rparr>"

definition at_worker :: "nat \<Rightarrow> workerPc \<Rightarrow> pool \<Rightarrow> pool" where
  "at_worker w pc s = s\<lparr>po_workers := (po_workers s)(w := pc)\<rparr>"

definition wgAdd :: "nat \<Rightarrow> int \<Rightarrow> pool \<Rightarrow> pool" where
  "wgAdd i k s = s\<lparr>po_wg := (po_wg s)(i := po_wg s i + k)\<rparr>"

text \<open>\<open>h.trySend(client, item)\<close> for the message of goroutine \<open>i\<close>.\<close>

definition poolSend :: "nat \<Rightarrow> cref \<Rightarrow> pool \<Rightarrow> pool" where
  "poolSend i c s = s\<lparr>po_log := (po_log s)(i := po_log s i @ [c])\<rparr>"

text \<open>Goroutine \<open>i\<close> enters \<open>parallelSend\<close> with more clients than fit in one batch.\<close>

definition startSend :: "nat \<Rightarrow> nat \<Rightarrow> cref list \<Rightarrow> pool \<Rightarrow> pool option" where
  "startSend i b cs s =
     (if i < po_ncallers s \<and> po_callers s i = CIdle \<and> 0 < b \<and> b < length cs
      then let numBatches = (length cs + b - 1) div b in
           Some (at_caller i (CLoop (map (batch b cs) [0..<numBatches]))
             (wgAdd i (int numBatches) (s\<lparr>po_clients := (po_clients s)(i := cs)\<rparr>)))
      else None)"

text \<open>\<open>submit\<close> returned false: the wait group is released for the batches left, which the goroutine
  then sends itself.\<close>

definition refused :: "nat \<Rightarrow> cref list list \<Rightarrow> pool \<Rightarrow> pool" where
  "refused i ts s = at_caller i (CInline (concat ts)) (wgAdd i (- int (length ts)) s)"

text \<open>A step of goroutine \<open>i\<close>; \<open>None\<close> when it waits. A send on the closed channel panics, which
  \<open>submit\<close> turns into false; a send on a full channel waits.\<close>

definition callerStep :: "nat \<Rightarrow> pool \<Rightarrow> pool option" where
  "callerStep i s = (if po_ncallers s \<le> i then None else case po_callers s i of
       CIdle \<Rightarrow> None
     | CLoop [] \<Rightarrow> Some (at_caller i CWait s)
     | CLoop (t # ts) \<Rightarrow>
         Some (if po_stopped s then refused i (t # ts) s else at_caller i (CSubmit t ts) s)
     | CSubmit t ts \<Rightarrow>
         if po_closed s then Some (refused i (t # ts) s)
         else if length (po_tasks s) < po_cap s
         then Some (at_caller i (CLoop ts) (s\<lparr>po_tasks := po_tasks s @ [(i, t)]\<rparr>))
         else None
     | CInline [] \<Rightarrow> Some (at_caller i CWait s)
     | CInline (c # cs) \<Rightarrow> Some (at_caller i (CInline cs) (poolSend i c s))
     | CWait \<Rightarrow> if po_wg s i = 0 then Some (at_caller i CReturned s) else None
     | CReturned \<Rightarrow> None)"

text \<open>A step of a worker: \<open>runWorker\<close> takes a task or, when the channel is closed and empty, exits;
  \<open>execute\<close> serves one client, or ends with \<open>wg.Done()\<close>.\<close>

definition workerStep :: "nat \<Rightarrow> pool \<Rightarrow> pool option" where
  "workerStep w s = (if po_num s \<le> w then None else case po_workers s w of
       WIdle \<Rightarrow> (case po_tasks s of
           t # ts \<Rightarrow> Some (at_worker w (WBusy t) (s\<lparr>po_tasks := ts\<rparr>))
         | [] \<Rightarrow> if po_closed s then Some (at_worker w WExited s) else None)
     | WBusy (i, []) \<Rightarrow> Some (at_worker w WIdle (wgAdd i (- 1) s))
     | WBusy (i, c # cs) \<Rightarrow> Some (at_worker w (WBusy (i, cs)) (poolSend i c s))
     | WExited \<Rightarrow> None)"

text \<open>The three parts of \<open>shutdown\<close>; a second call finds the flag set and the channel closed and
  only waits.\<close>

definition shutStart :: "pool \<Rightarrow> pool option" where
  "shutStart s = (if po_shut s = PRunning then Some (s\<lparr>po_stopped := True, po_shut := PStopped\<rparr>) else None)"

definition shutStep :: "pool \<Rightarrow> pool option" where
  "shutStep s = (case po_shut s of
       PStopped \<Rightarrow> Some (s\<lparr>po_closed := True, po_shut := PWaiting\<rparr>)
     | PWaiting \<Rightarrow> if \<forall>w<po_num s. po_workers s w = WExited then Some (s\<lparr>po_shut := PDown\<rparr>) else None
     | _ \<Rightarrow> None)"

text \<open>The goroutines' own steps, and the calls from outside.\<close>

inductive pool_work :: "pool \<Rightarrow> pool \<Rightarrow> bool" where
  work_caller: "callerStep i s = Some t \<Longrightarrow> pool_work s t"
| work_worker: "workerStep w s = Some t \<Longrightarrow> pool_work s t"
| work_shut: "shutStep s = Some t \<Longrightarrow> pool_work s t"

inductive pool_step :: "pool \<Rightarrow> pool \<Rightarrow> bool" where
  step_work: "pool_work s t \<Longrightarrow> pool_step s t"
| step_send: "startSend i b cs s = Some t \<Longrightarrow> pool_step s t"
| step_shutdown: "shutStart s = Some t \<Longrightarrow> pool_step s t"

definition pool_init :: "pool \<Rightarrow> bool" where
  "pool_init s \<longleftrightarrow> (\<exists>numWorkers n. 0 < numWorkers \<and> s = newWorkerPool numWorkers n)"

lemmas pool_fields = at_caller_def at_worker_def wgAdd_def poolSend_def refused_def

subsection \<open>Nothing is lost, nothing is done twice\<close>

text \<open>Where the clients of goroutine \<open>i\<close> that have not been served yet are, as multisets: in its own
  hands, in a task, at a worker; and the same for the count of its wait group.\<close>

fun held :: "callerPc \<Rightarrow> cref multiset" where
  "held (CLoop ts) = mset (concat ts)"
| "held (CSubmit t ts) = mset t + mset (concat ts)"
| "held (CInline cs) = mset cs"
| "held _ = {#}"

fun owed :: "callerPc \<Rightarrow> int" where
  "owed (CLoop ts) = int (length ts)"
| "owed (CSubmit t ts) = int (length ts) + 1"
| "owed _ = 0"

fun taskClients :: "nat \<Rightarrow> task \<Rightarrow> cref multiset" where
  "taskClients i (j, cs) = (if j = i then mset cs else {#})"

fun taskOwed :: "nat \<Rightarrow> task \<Rightarrow> int" where
  "taskOwed i (j, cs) = (if j = i then 1 else 0)"

fun atWorker :: "(task \<Rightarrow> 'a::zero) \<Rightarrow> workerPc \<Rightarrow> 'a" where
  "atWorker f (WBusy t) = f t"
| "atWorker f _ = 0"

definition everywhere :: "(task \<Rightarrow> 'a::comm_monoid_add) \<Rightarrow> pool \<Rightarrow> 'a" where
  "everywhere f s = sum_list (map f (po_tasks s)) + (\<Sum>w<po_num s. atWorker f (po_workers s w))"

definition serves :: "pool \<Rightarrow> nat \<Rightarrow> bool" where
  "serves s i \<longleftrightarrow> mset (po_log s i) + everywhere (taskClients i) s + held (po_callers s i) = mset (po_clients s i)"

definition counts :: "pool \<Rightarrow> nat \<Rightarrow> bool" where
  "counts s i \<longleftrightarrow> po_wg s i = everywhere (taskOwed i) s + owed (po_callers s i) \<and>
     (po_callers s i = CReturned \<longrightarrow> everywhere (taskOwed i) s = 0)"

definition shut_ok :: "pool \<Rightarrow> bool" where
  "shut_ok s \<longleftrightarrow> 0 < po_num s \<and> 0 < po_cap s \<and> (po_stopped s \<longleftrightarrow> po_shut s \<noteq> PRunning) \<and>
     (po_closed s \<longleftrightarrow> po_shut s \<in> {PWaiting, PDown}) \<and>
     (\<forall>w<po_num s. po_workers s w = WExited \<longrightarrow> po_closed s \<and> po_tasks s = []) \<and>
     (\<forall>i. po_callers s i = CIdle \<longrightarrow> po_clients s i = [])"

definition pool_inv :: "pool \<Rightarrow> bool" where
  "pool_inv s \<longleftrightarrow> shut_ok s \<and> (\<forall>i. serves s i \<and> counts s i)"

lemma pool_init_inv: "pool_init s \<Longrightarrow> pool_inv s"
  by (auto simp: pool_init_def newWorkerPool_def pool_inv_def shut_ok_def serves_def counts_def everywhere_def)

text \<open>What moving a worker does to a sum over all tasks.\<close>

lemma everywhere_worker:
  assumes "w < po_num s"
  shows "everywhere f (at_worker w pc s) + atWorker f (po_workers s w) = everywhere f s + atWorker f pc"
  using sum_upd [OF assms, of "atWorker f" "po_workers s" pc]
  by (simp add: everywhere_def at_worker_def add.assoc)

lemma everywhere_frame [simp]:
  "everywhere f (at_caller i pc s) = everywhere f s" "everywhere f (wgAdd i k s) = everywhere f s"
  "everywhere f (poolSend i c s) = everywhere f s" "everywhere f (s\<lparr>po_clients := x\<rparr>) = everywhere f s"
  "everywhere f (s\<lparr>po_stopped := b\<rparr>) = everywhere f s" "everywhere f (s\<lparr>po_shut := p\<rparr>) = everywhere f s"
  "everywhere f (s\<lparr>po_closed := b\<rparr>) = everywhere f s"
  by (simp_all add: everywhere_def pool_fields)

lemma inner_fields [simp]:
  "po_num (poolSend i c s) = po_num s" "po_workers (poolSend i c s) = po_workers s"
  "po_num (wgAdd i k s) = po_num s" "po_workers (wgAdd i k s) = po_workers s"
  by (simp_all add: poolSend_def wgAdd_def)

lemma everywhere_put [simp]:
  "everywhere f (s\<lparr>po_tasks := po_tasks s @ [t]\<rparr>) = everywhere f s + f t"
  by (simp add: everywhere_def ac_simps)

lemma everywhere_take:
  "po_tasks s = t # ts \<Longrightarrow> everywhere f s = everywhere f (s\<lparr>po_tasks := ts\<rparr>) + f t"
  by (simp add: everywhere_def ac_simps)

subsection \<open>Every step keeps the invariant\<close>

lemma startSend_inv:
  assumes "pool_inv s" and "startSend i b cs s = Some t"
  shows "pool_inv t"
proof -
  let ?n = "(length cs + b - 1) div b"
  have i: "po_callers s i = CIdle" "0 < b" and t: "t = at_caller i (CLoop (map (batch b cs) [0..<?n]))
      (wgAdd i (int ?n) (s\<lparr>po_clients := (po_clients s)(i := cs)\<rparr>))"
    using assms(2) by (simp_all add: startSend_def Let_def split: if_splits)
  have c: "concat (map (batch b cs) [0..<?n]) = cs"
    using ceil_div_covers [OF i(2), of "length cs"] by (rule concat_batches)
  have "mset (po_log s i) + everywhere (taskClients i) s = {#}"
    using assms(1) i by (auto simp: pool_inv_def shut_ok_def serves_def dest!: spec [of _ i])
  then have "serves t j" for j
    using assms(1) c by (cases "j = i") (auto simp: pool_inv_def serves_def t, simp_all add: pool_fields)
  moreover have "counts t j" for j
    using assms(1) i by (cases "j = i") (auto simp: pool_inv_def counts_def t, simp_all add: pool_fields)
  moreover have "shut_ok t"
    using assms(1) by (auto simp: pool_inv_def shut_ok_def t pool_fields)
  ultimately show ?thesis by (simp add: pool_inv_def)
qed

lemma callerStep_cases [consumes 1, case_names last check refuse put send wait]:
  assumes "callerStep i s = Some t"
  obtains (last) "i < po_ncallers s" "po_callers s i = CLoop [] \<or> po_callers s i = CInline []" "t = at_caller i CWait s"
  | (check) b bs where "i < po_ncallers s" "po_callers s i = CLoop (b # bs)" "t = at_caller i (CSubmit b bs) s"
  | (refuse) b bs where "i < po_ncallers s" "po_callers s i = CLoop (b # bs) \<or> po_callers s i = CSubmit b bs" "t = refused i (b # bs) s"
  | (put) b bs where "i < po_ncallers s" "po_callers s i = CSubmit b bs" "\<not> po_closed s"
      "t = at_caller i (CLoop bs) (s\<lparr>po_tasks := po_tasks s @ [(i, b)]\<rparr>)"
  | (send) c cs where "i < po_ncallers s" "po_callers s i = CInline (c # cs)" "t = at_caller i (CInline cs) (poolSend i c s)"
  | (wait) "i < po_ncallers s" "po_callers s i = CWait" "po_wg s i = 0" "t = at_caller i CReturned s"
proof -
  have "i < po_ncallers s" using assms by (simp add: callerStep_def split: if_splits)
  with assms that show thesis
    by (cases "po_callers s i") (auto simp: callerStep_def split: list.splits if_splits)
qed

text \<open>A step that moves goroutine \<open>i\<close> alone.\<close>

lemma caller_moves:
  assumes "pool_inv s" and "po_callers s i \<noteq> CIdle" and "pc \<noteq> CIdle"
    and "mset xs + m = {#} + held (po_callers s i)" and "held pc = m" and "owed (po_callers s i) + k = owed pc"
    and "pc = CReturned \<Longrightarrow> everywhere (taskOwed i) s = 0"
  shows "pool_inv (at_caller i pc (s\<lparr>po_log := (po_log s)(i := po_log s i @ xs), po_wg := (po_wg s)(i := po_wg s i + k)\<rparr>))"
proof -
  let ?t = "at_caller i pc (s\<lparr>po_log := (po_log s)(i := po_log s i @ xs), po_wg := (po_wg s)(i := po_wg s i + k)\<rparr>)"
  have e: "everywhere f ?t = everywhere f s" for f :: "task \<Rightarrow> 'b::comm_monoid_add"
    by (simp add: everywhere_def at_caller_def)
  have "serves ?t j" for j
  proof (cases "j = i")
    case True
    have "mset (po_log s i) + everywhere (taskClients i) s + (mset xs + m) = mset (po_clients s i)"
      using assms(1,4) by (simp add: pool_inv_def serves_def)
    then show ?thesis using True assms(5) e [of "taskClients i"] by (simp add: serves_def at_caller_def ac_simps)
  next
    case False
    then show ?thesis using assms(1) e [of "taskClients j"] by (simp add: pool_inv_def serves_def at_caller_def)
  qed
  moreover have "counts ?t j" for j
    using assms(1,6,7) e [of "taskOwed j"]
    by (cases "j = i") (force simp: pool_inv_def counts_def at_caller_def)+
  moreover have "shut_ok ?t"
    using assms(1,2,3) by (auto simp: pool_inv_def shut_ok_def at_caller_def)
  ultimately show ?thesis by (simp add: pool_inv_def)
qed

lemma caller_moves_simple:
  assumes "pool_inv s" and "po_callers s i \<noteq> CIdle" and "pc \<noteq> CIdle"
    and "held pc = held (po_callers s i)" and "owed (po_callers s i) = owed pc"
    and "pc = CReturned \<Longrightarrow> everywhere (taskOwed i) s = 0"
  shows "pool_inv (at_caller i pc s)"
  using caller_moves [OF assms(1-3), of "[]" "held pc" 0] assms(4-6) by simp

lemma caller_inv:
  assumes "pool_inv s" and "callerStep i s = Some t"
  shows "pool_inv t"
  using assms(2)
proof (cases rule: callerStep_cases)
  case last
  then show ?thesis using caller_moves_simple [OF assms(1), of i CWait] by auto
next
  case (check b bs)
  then show ?thesis using caller_moves_simple [OF assms(1), of i "CSubmit b bs"] by simp
next
  case (refuse b bs)
  then show ?thesis
    using caller_moves [OF assms(1), of i "CInline (concat (b # bs))" "[]" "mset (concat (b # bs))" "- int (length (b # bs))"]
    by (elim disjE) (simp_all add: refused_def wgAdd_def)
next
  case (put b bs)
  have b: "serves s j" "counts s j" for j using assms(1) by (simp_all add: pool_inv_def)
  have e: "everywhere f t = everywhere f s + f (i, b)" for f :: "task \<Rightarrow> 'b::comm_monoid_add" by (simp add: put(4))
  have r: "po_log t = po_log s" "po_clients t = po_clients s" "po_wg t = po_wg s" "po_callers t = (po_callers s)(i := CLoop bs)"
    by (simp_all add: put(4) at_caller_def)
  have "serves t j" for j
    using b(1) [of j] put(2) by (cases "j = i") (simp_all add: serves_def e r ac_simps)
  moreover have "counts t j" for j
    using b(2) [of j] put(2) by (cases "j = i") (simp_all add: counts_def e r)
  moreover have "shut_ok t"
    using assms(1) put by (auto simp: pool_inv_def shut_ok_def at_caller_def)
  ultimately show ?thesis by (simp add: pool_inv_def)
next
  case (send c cs)
  then show ?thesis
    using caller_moves [OF assms(1), of i "CInline cs" "[c]" "mset cs" 0] by (simp add: poolSend_def)
next
  case wait
  then have "everywhere (taskOwed i) s = 0"
    using assms(1) by (auto simp: pool_inv_def counts_def dest!: spec [of _ i])
  then show ?thesis using wait caller_moves_simple [OF assms(1), of i CReturned] by simp
qed

lemma workerStep_cases [consumes 1, case_names take exit serve ready]:
  assumes "workerStep w s = Some t"
  obtains (take) x xs where "w < po_num s" "po_workers s w = WIdle" "po_tasks s = x # xs" "t = at_worker w (WBusy x) (s\<lparr>po_tasks := xs\<rparr>)"
  | (exit) "w < po_num s" "po_workers s w = WIdle" "po_tasks s = []" "po_closed s" "t = at_worker w WExited s"
  | (serve) i c cs where "w < po_num s" "po_workers s w = WBusy (i, c # cs)" "t = at_worker w (WBusy (i, cs)) (poolSend i c s)"
  | (ready) i where "w < po_num s" "po_workers s w = WBusy (i, [])" "t = at_worker w WIdle (wgAdd i (- 1) s)"
proof -
  have "w < po_num s" using assms by (simp add: workerStep_def split: if_splits)
  with assms that show thesis
    by (cases "po_workers s w") (auto simp: workerStep_def split: list.splits if_splits prod.splits)
qed

lemma at_worker_fields [simp]:
  "po_log (at_worker w pc s) = po_log s" "po_callers (at_worker w pc s) = po_callers s"
  "po_clients (at_worker w pc s) = po_clients s" "po_wg (at_worker w pc s) = po_wg s"
  by (simp_all add: at_worker_def)

lemma everywhere_owed: "0 \<le> everywhere (taskOwed i) s"
proof -
  have f: "0 \<le> taskOwed i t" for t by (cases t) simp
  have "0 \<le> atWorker (taskOwed i) pc" for pc by (cases pc) (simp_all add: f)
  then show ?thesis by (auto simp: everywhere_def f intro!: add_nonneg_nonneg sum_list_nonneg sum_nonneg)
qed

lemma worker_spreads:
  assumes "workerStep w s = Some t"
  obtains (same) "\<And>f :: task \<Rightarrow> cref multiset. everywhere f t = everywhere f s" "\<And>f :: task \<Rightarrow> int. everywhere f t = everywhere f s"
      "po_log t = po_log s" "po_wg t = po_wg s"
  | (serve) i c where "\<And>j. everywhere (taskClients j) s = everywhere (taskClients j) t + (if j = i then {#c#} else {#})"
      "\<And>j. everywhere (taskOwed j) t = everywhere (taskOwed j) s" "po_log t = (po_log s)(i := po_log s i @ [c])" "po_wg t = po_wg s"
  | (ready) i where "\<And>j. everywhere (taskClients j) t = everywhere (taskClients j) s"
      "\<And>j. everywhere (taskOwed j) s = everywhere (taskOwed j) t + (if j = i then 1 else 0)"
      "po_log t = po_log s" "po_wg t = (po_wg s)(i := po_wg s i - 1)"
  using assms
proof (cases rule: workerStep_cases)
  case (take x xs)
  have e: "everywhere f t = everywhere f s" for f :: "task \<Rightarrow> 'b::comm_monoid_add"
    using everywhere_worker [of w "s\<lparr>po_tasks := xs\<rparr>" f "WBusy x"] everywhere_take [OF take(3), of f] take by simp
  show thesis by (rule same) (simp_all only: e, simp_all add: take(4))
next
  case exit
  have e: "everywhere f t = everywhere f s" for f :: "task \<Rightarrow> 'b::comm_monoid_add"
    using everywhere_worker [of w s f WExited] exit by simp
  show thesis by (rule same) (simp_all only: e, simp_all add: exit(5))
next
  case (serve i c cs)
  have e: "everywhere f t + f (i, c # cs) = everywhere f s + f (i, cs)" for f :: "task \<Rightarrow> 'b::comm_monoid_add"
    using everywhere_worker [of w "poolSend i c s" f "WBusy (i, cs)"] serve by simp
  show thesis
  proof (rule that(2) [of i c])
    show "everywhere (taskClients j) s = everywhere (taskClients j) t + (if j = i then {#c#} else {#})" for j
      using e [of "taskClients j"] by (cases "j = i") simp_all
    show "everywhere (taskOwed j) t = everywhere (taskOwed j) s" for j
      using e [of "taskOwed j"] by (cases "j = i") simp_all
  qed (simp_all add: serve(3) poolSend_def)
next
  case (ready i)
  have e: "everywhere f t + f (i, []) = everywhere f s" for f :: "task \<Rightarrow> 'b::comm_monoid_add"
    using everywhere_worker [of w "wgAdd i (- 1) s" f WIdle] ready by simp
  show thesis
  proof (rule that(3) [of i])
    show "everywhere (taskClients j) t = everywhere (taskClients j) s" for j
      using e [of "taskClients j"] by (cases "j = i") simp_all
    show "everywhere (taskOwed j) s = everywhere (taskOwed j) t + (if j = i then 1 else 0)" for j
      using e [of "taskOwed j"] by (cases "j = i") simp_all
  qed (simp_all add: ready(3) wgAdd_def)
qed

lemma worker_frame:
  assumes "workerStep w s = Some t"
  shows "po_callers t = po_callers s" "po_clients t = po_clients s" "po_num t = po_num s" "po_cap t = po_cap s"
    "po_ncallers t = po_ncallers s" "po_stopped t = po_stopped s" "po_closed t = po_closed s" "po_shut t = po_shut s"
  using assms by (cases rule: workerStep_cases; simp add: pool_fields)+

lemma worker_shut_ok:
  assumes "shut_ok s" and "workerStep w s = Some t"
  shows "shut_ok t"
proof -
  have "po_closed t \<and> po_tasks t = []" if "v < po_num t" "po_workers t v = WExited" for v
    using assms(2)
  proof (cases rule: workerStep_cases)
    case (take x xs)
    then show ?thesis using that assms(1) by (auto simp: shut_ok_def pool_fields split: if_splits)
  qed (use that assms(1) in \<open>auto simp: shut_ok_def pool_fields split: if_splits\<close>)
  then show ?thesis using assms(1) worker_frame [OF assms(2)] by (simp add: shut_ok_def)
qed

lemma worker_inv:
  assumes "pool_inv s" and "workerStep w s = Some t"
  shows "pool_inv t"
proof -
  have "serves t j \<and> counts t j" for j
  proof -
    have b: "serves s j" "counts s j" using assms(1) by (simp_all add: pool_inv_def)
    from assms(2) show ?thesis
    proof (cases rule: worker_spreads)
      case same
      then show ?thesis using b by (simp add: serves_def counts_def worker_frame [OF assms(2)])
    next
      case (serve i c)
      then show ?thesis
        using b by (cases "j = i") (simp_all add: serves_def counts_def worker_frame [OF assms(2)])
    next
      case (ready i)
      then show ?thesis
        using b everywhere_owed [of i t]
        by (cases "j = i") (auto simp: serves_def counts_def worker_frame [OF assms(2)])
    qed
  qed
  with worker_shut_ok [OF _ assms(2)] assms(1) show ?thesis by (simp add: pool_inv_def)
qed

lemma shut_inv:
  assumes "pool_inv s" and "shutStart s = Some t \<or> shutStep s = Some t"
  shows "pool_inv t"
proof -
  have "serves t j \<and> counts t j" for j
    using assms by (auto simp: pool_inv_def serves_def counts_def shutStart_def shutStep_def split: shutPc.splits if_splits)
  moreover have "shut_ok t"
    using assms by (auto simp: pool_inv_def shut_ok_def shutStart_def shutStep_def split: shutPc.splits if_splits)
  ultimately show ?thesis by (simp add: pool_inv_def)
qed

lemma pool_step_inv:
  assumes "pool_inv s" and "pool_step s t"
  shows "pool_inv t"
  using assms(2)
proof cases
  case step_work
  then show ?thesis using assms(1) by cases (auto intro: caller_inv worker_inv shut_inv)
qed (use assms(1) in \<open>auto intro: startSend_inv shut_inv\<close>)

subsection \<open>The pool never stops short\<close>

text \<open>The steps that are left to do.\<close>

fun callerWork :: "callerPc \<Rightarrow> nat" where
  "callerWork (CLoop ts) = 2 + (\<Sum>t\<leftarrow>ts. 5 + length t)"
| "callerWork (CSubmit t ts) = 6 + length t + (\<Sum>t\<leftarrow>ts. 5 + length t)"
| "callerWork (CInline cs) = 2 + length cs"
| "callerWork CWait = 1"
| "callerWork _ = 0"

fun workerWork :: "workerPc \<Rightarrow> nat" where
  "workerWork WIdle = 1"
| "workerWork (WBusy (i, cs)) = 2 + length cs"
| "workerWork WExited = 0"

fun shutWork :: "shutPc \<Rightarrow> nat" where
  "shutWork PStopped = 2"
| "shutWork PWaiting = 1"
| "shutWork _ = 0"

definition poolWork :: "pool \<Rightarrow> nat" where
  "poolWork s = (\<Sum>i<po_ncallers s. callerWork (po_callers s i)) + (\<Sum>(i, cs)\<leftarrow>po_tasks s. 3 + length cs) +
     (\<Sum>w<po_num s. workerWork (po_workers s w)) + shutWork (po_shut s)"

lemma length_concat_le: "length (concat ts) \<le> (\<Sum>t\<leftarrow>ts. 5 + length t)"
  by (induction ts) simp_all

lemma caller_work:
  assumes "callerStep i s = Some t"
  shows "poolWork t < poolWork s"
proof -
  have u: "(\<Sum>x<po_ncallers s. callerWork (((po_callers s)(i := pc)) x)) + callerWork (po_callers s i) =
      (\<Sum>x<po_ncallers s. callerWork (po_callers s x)) + callerWork pc" if "i < po_ncallers s" for pc
    by (rule sum_upd [OF that])
  from assms show ?thesis
  proof (cases rule: callerStep_cases)
    case last
    then show ?thesis using u [of CWait] by (auto simp: poolWork_def pool_fields)
  next
    case (check b bs)
    then show ?thesis using u [of "CSubmit b bs"] by (simp add: poolWork_def pool_fields)
  next
    case (refuse b bs)
    then show ?thesis
      using u [of "CInline (concat (b # bs))"] length_concat_le [of bs] by (auto simp: poolWork_def pool_fields)
  next
    case (put b bs)
    then show ?thesis using u [of "CLoop bs"] by (simp add: poolWork_def pool_fields)
  next
    case (send c cs)
    then show ?thesis using u [of "CInline cs"] by (simp add: poolWork_def pool_fields)
  next
    case wait
    then show ?thesis using u [of CReturned] by (simp add: poolWork_def pool_fields)
  qed
qed

lemma worker_work:
  assumes "workerStep w s = Some t"
  shows "poolWork t < poolWork s"
proof -
  have u: "(\<Sum>x<po_num s. workerWork (((po_workers s)(w := pc)) x)) + workerWork (po_workers s w) =
      (\<Sum>x<po_num s. workerWork (po_workers s x)) + workerWork pc" if "w < po_num s" for pc
    by (rule sum_upd [OF that])
  from assms show ?thesis
  proof (cases rule: workerStep_cases)
    case (take x xs)
    then show ?thesis using u [of "WBusy x"] by (cases x) (simp add: poolWork_def pool_fields)
  next
    case exit
    then show ?thesis using u [of WExited] by (simp add: poolWork_def pool_fields)
  next
    case (serve i c cs)
    then show ?thesis using u [of "WBusy (i, cs)"] by (simp add: poolWork_def pool_fields)
  next
    case (ready i)
    then show ?thesis using u [of WIdle] by (simp add: poolWork_def pool_fields)
  qed
qed

lemma work_decreases: "pool_work s t \<Longrightarrow> poolWork t < poolWork s"
  by (cases rule: pool_work.cases)
    (auto dest: caller_work worker_work simp: shutStep_def poolWork_def split: shutPc.splits if_splits)

lemma everywhere_none:
  assumes "po_tasks s = []" and "\<And>w x. w < po_num s \<Longrightarrow> po_workers s w \<noteq> WBusy x"
  shows "everywhere f s = 0"
proof -
  have "atWorker f (po_workers s w) = 0" if "w < po_num s" for w
    using assms(2) [OF that] by (cases "po_workers s w") auto
  with assms(1) show ?thesis by (simp add: everywhere_def)
qed

text \<open>Where no goroutine can move, all of them are finished: no send waits for a worker that is
  gone, and no wait group stays above zero.\<close>

lemma worker_stuck:
  assumes "workerStep w s = None" and "w < po_num s"
  shows "po_workers s w = WIdle \<and> po_tasks s = [] \<and> \<not> po_closed s \<or> po_workers s w = WExited"
proof (cases "po_workers s w")
  case (WBusy x)
  with assms show ?thesis by (cases x; cases "snd x") (auto simp: workerStep_def)
qed (use assms in \<open>auto simp: workerStep_def split: list.splits if_splits\<close>)

definition pool_settled :: "pool \<Rightarrow> bool" where
  "pool_settled s \<longleftrightarrow> (\<forall>i<po_ncallers s. po_callers s i = CIdle \<or> po_callers s i = CReturned) \<and> po_tasks s = [] \<and>
     (po_shut s = PRunning \<or> po_shut s = PDown)"

lemma pool_stuck:
  assumes inv: "pool_inv s" and stuck: "\<not> (\<exists>t. pool_work s t)"
  shows "pool_settled s"
  unfolding pool_settled_def
proof (intro conjI allI impI)
  have n: "callerStep i s = None" "workerStep w s = None" "shutStep s = None" for i w
    using stuck work_caller work_worker work_shut by (metis not_None_eq)+
  have sh: "shut_ok s" using inv by (simp add: pool_inv_def)
  have w: "po_workers s w = WIdle \<and> po_tasks s = [] \<and> \<not> po_closed s \<or> po_workers s w = WExited" if "w < po_num s" for w
    using n(2) that by (rule worker_stuck)
  show none: "po_tasks s = []" using w [of 0] sh by (auto simp: shut_ok_def)
  have idle: "everywhere f s = 0" for f :: "task \<Rightarrow> 'b::comm_monoid_add"
    using none w by (intro everywhere_none) force+
  show "po_shut s = PRunning \<or> po_shut s = PDown"
    using n(3) w sh by (cases "po_shut s") (auto simp: shutStep_def shut_ok_def split: if_splits)
  fix i assume i: "i < po_ncallers s"
  show "po_callers s i = CIdle \<or> po_callers s i = CReturned"
  proof (cases "po_callers s i")
    case CWait
    then have "po_wg s i = 0" using inv idle by (simp add: pool_inv_def counts_def)
    with CWait i n(1) [of i] show ?thesis by (simp add: callerStep_def)
  next
    case (CSubmit t ts)
    with none sh i n(1) [of i] show ?thesis by (simp add: callerStep_def shut_ok_def split: if_splits)
  next
    case (CLoop ts)
    with i n(1) [of i] show ?thesis by (cases ts) (simp_all add: callerStep_def)
  next
    case (CInline cs)
    with i n(1) [of i] show ?thesis by (cases cs) (simp_all add: callerStep_def)
  qed simp_all
qed

interpretation pools: settling_system pool_init pool_step pool_inv pool_work poolWork pool_settled
proof
  show "pool_init s \<Longrightarrow> pool_inv s" for s by (rule pool_init_inv)
  show "pool_inv s \<Longrightarrow> pool_step s t \<Longrightarrow> pool_inv t" for s t by (rule pool_step_inv)
  show "pool_work s t \<Longrightarrow> pool_step s t" for s t by (rule step_work)
  show "poolWork t < poolWork s" if "pool_work s t" for s t using that by (rule work_decreases)
  show "pool_inv s \<Longrightarrow> \<not> (\<exists>t. pool_work s t) \<Longrightarrow> pool_settled s" for s by (rule pool_stuck)
qed

lemma sum_list_zero:
  fixes f :: "'a \<Rightarrow> int"
  assumes "\<And>x. 0 \<le> f x"
  shows "sum_list (map f xs) = 0 \<Longrightarrow> x \<in> set xs \<Longrightarrow> f x = 0"
proof (induction xs)
  case (Cons y ys)
  have "0 \<le> f y" "0 \<le> sum_list (map f ys)" using assms by (auto intro!: sum_list_nonneg)
  with Cons show ?case by auto
qed simp

lemma owed_none: "everywhere (taskOwed i) s = 0 \<Longrightarrow> everywhere (taskClients i) s = {#}"
proof -
  assume z: "everywhere (taskOwed i) s = 0"
  have f: "0 \<le> taskOwed i t" "taskOwed i t = 0 \<Longrightarrow> taskClients i t = {#}" for t
    by (cases t; simp split: if_splits)+
  have g: "0 \<le> atWorker (taskOwed i) pc" "atWorker (taskOwed i) pc = 0 \<Longrightarrow> atWorker (taskClients i) pc = {#}" for pc
    by (cases pc; simp add: f)+
  have "sum_list (map (taskOwed i) (po_tasks s)) = 0" "(\<Sum>w<po_num s. atWorker (taskOwed i) (po_workers s w)) = 0"
    using z f(1) g(1) unfolding everywhere_def
    by (smt (verit) sum_list_nonneg sum_nonneg imageE list.set_map)+
  then have "\<forall>t\<in>set (po_tasks s). taskOwed i t = 0" "\<forall>w<po_num s. atWorker (taskOwed i) (po_workers s w) = 0"
    using sum_list_zero [of "taskOwed i", OF f(1)] g(1) by (blast, simp add: sum_nonneg_eq_0_iff)
  then show ?thesis using f(2) g(2) by (simp add: everywhere_def cong: map_cong)
qed

lemma returned_served:
  assumes "reach pool_init pool_step s" and "po_callers s i = CReturned"
  shows "mset (po_log s i) = mset (po_clients s i)"
proof -
  have "serves s i" "counts s i" using pools.reach_inv [OF assms(1)] by (simp_all add: pool_inv_def)
  with assms(2) owed_none [of i s] show ?thesis by (simp add: serves_def counts_def)
qed

text \<open>C18: The worker pool, for any number of workers, concurrent parallel sends, batch sizes and a shutdown
  at any moment. It never gets stuck: the goroutines make only boundedly many steps, and when
  none of them can move, every \<open>parallelSend\<close> has returned and a \<open>shutdown\<close> that was begun is
  complete. A \<open>parallelSend\<close> that has returned sent to each of its clients exactly once, by a worker
  or inline after a refusal, so the buffers are those of the sequential loop.\<close>

theorem pool_exactly_once:
  assumes "reach pool_init pool_step s"
  shows "(\<forall>n t. (pool_work ^^ n) s t \<longrightarrow> n \<le> poolWork s) \<and>
    (\<forall>t. pool_work\<^sup>*\<^sup>* s t \<and> \<not> (\<exists>u. pool_work t u) \<longrightarrow>
       (\<forall>i<po_ncallers t. po_callers t i = CIdle \<or> po_callers t i = CReturned) \<and>
       (po_shut t = PRunning \<or> po_shut t = PDown)) \<and>
    (\<forall>i. po_callers s i = CReturned \<longrightarrow> mset (po_log s i) = mset (po_clients s i) \<and>
       (\<forall>e item h. send_env e \<and> queues_ok h \<and> distinct (po_clients s i) \<longrightarrow>
          h_mem (sendEach e item (po_log s i) h) = h_mem (sendEach e item (po_clients s i) h)))"
proof -
  have bound: "n \<le> poolWork s" if "(pool_work ^^ n) s t" for n t
    using pools.internal_bound [OF assms that] by simp
  have settles: "(\<forall>i<po_ncallers t. po_callers t i = CIdle \<or> po_callers t i = CReturned) \<and>
      (po_shut t = PRunning \<or> po_shut t = PDown)"
    if "pool_work\<^sup>*\<^sup>* s t \<and> \<not> (\<exists>u. pool_work t u)" for t
    using pools.settles [OF assms] that by (simp add: pool_settled_def)
  have once: "mset (po_log s i) = mset (po_clients s i)" if "po_callers s i = CReturned" for i
    using assms that by (rule returned_served)
  have like: "h_mem (sendEach e item (po_log s i) h) = h_mem (sendEach e item (po_clients s i) h)"
    if "po_callers s i = CReturned" and "send_env e \<and> queues_ok h \<and> distinct (po_clients s i)" for i e item h
  proof -
    have "distinct (po_log s i)" "set (po_log s i) = set (po_clients s i)"
      using once [OF that(1)] that(2) by (metis mset_eq_imp_distinct_iff, metis mset_eq_setD)
    then show ?thesis
      using sendEach_delivers [of e h "po_log s i" item] sendEach_delivers [of e h "po_clients s i" item] that(2)
      by (auto simp: delivers_def dest!: sentD(1))
  qed
  show ?thesis using bound settles once like by blast
qed

text \<open>One worker, one sender with two batches, and a shutdown between its two submissions: the first
  batch goes through the channel, the second is sent inline.\<close>

definition shutdownInBetween :: "(pool \<Rightarrow> pool option) list" where
  "shutdownInBetween = [startSend 0 2 [0, 1, 2], callerStep 0, callerStep 0, shutStart, callerStep 0, workerStep 0,
     callerStep 0, workerStep 0, shutStep, workerStep 0, callerStep 0, workerStep 0, callerStep 0]"

theorem pool_exactly_once_witness:
  "\<exists>s. runMoves shutdownInBetween (newWorkerPool 1 1) = Some s \<and> po_log s 0 = [2, 0, 1] \<and>
     po_callers s 0 = CReturned \<and> mset (po_log s 0) = mset [0, 1, 2]"
proof -
  have init: "reach pool_init pool_step (newWorkerPool 1 1)" by (rule reach_start) (auto simp: pool_init_def)
  have moves: "\<forall>f\<in>set shutdownInBetween. \<forall>u v. f u = Some v \<longrightarrow> pool_step u v"
    by (auto simp: shutdownInBetween_def intro: pool_step.intros pool_work.intros)
  obtain s where s: "runMoves shutdownInBetween (newWorkerPool 1 1) = Some s" "po_log s 0 = [2, 0, 1]"
    "po_callers s 0 = CReturned" "po_clients s 0 = [0, 1, 2]"
    by (simp add: shutdownInBetween_def newWorkerPool_def startSend_def callerStep_def workerStep_def shutStart_def
        shutStep_def pool_fields batch_def Let_def upt_rec)
  with pool_exactly_once [OF runMoves_reach [OF init s(1) moves]] show ?thesis by auto
qed

end
