(* ===== verification/Ws_Redis.thy ===== *)
theory Ws_Redis
  imports Ws_Adapter
begin

section \<open>The Redis adapter (adapter/redis/redis.go)\<close>

text \<open>
  The adapter as the hub uses it: \<open>Publish\<close>, and any number of concurrent \<open>Subscribe\<close> and \<open>Close\<close>
  calls with the two goroutines that each subscription starts. The calls are numbered; a step is
  a critical section, a cancelled context, or one action of a goroutine.

  go-redis and the JSON encoding are arguments, collected in \<open>redisEnv\<close>: whether the confirmation of
  the \<open>k\<close>-th subscription fails, whether a PubSub's channel is closed once the PubSub was closed or
  not, the answer to a publication, and the two directions of the encoding. \<open>redis_ok\<close> is what the
  code relies on: closing a PubSub closes its channel.
\<close>

datatype redisErr = RedisClosed | LibErr string | WrapErr string redisErr

record redisEnv =
  re_receive :: "nat \<Rightarrow> string option"
  re_chanClosed :: "bool \<Rightarrow> bool"
  re_publish :: "string \<Rightarrow> bytes \<Rightarrow> string option"
  re_marshal :: "AdapterMessage \<Rightarrow> string + bytes"
  re_unmarshal :: "bytes \<Rightarrow> string + AdapterMessage"

definition redis_ok :: "redisEnv \<Rightarrow> bool" where
  "redis_ok env \<longleftrightarrow> re_chanClosed env True"

text \<open>A call of \<open>Subscribe\<close>: not made, about to cancel the previous subscription, waiting for the
  confirmation, cleaning up after a failed one, returned. A goroutine: not started, in its loop,
  about to call \<open>wg.Done()\<close>, exited. A call of \<open>Close\<close>: not made, about to cancel, in \<open>wg.Wait()\<close>,
  returned (after having waited or at once).\<close>

datatype subscribePc = SubIdle | SubCancelPrev nat | SubReceive | SubFailed string | SubReturned "redisErr option"

datatype goPc = GNone | GRunning | GLeaving | GExited

datatype closePc = CloseIdle | CloseCancel nat | CloseWait | CloseReturned bool

record redisAdapter =
  rd_channel :: string
  rd_unmarshalErrorHandler :: bool
  rd_cancel :: "nat option"
  rd_wg :: int
  rd_closed :: bool

record redisSys = redisAdapter +
  rs_n :: nat
  rs_calls :: "nat \<Rightarrow> subscribePc"
  rs_cancelled :: "nat \<Rightarrow> bool"
  rs_subClosed :: "nat \<Rightarrow> bool"
  rs_watcher :: "nat \<Rightarrow> goPc"
  rs_receiver :: "nat \<Rightarrow> goPc"
  rs_handled :: "AdapterMessage list"
  rs_undecoded :: "bytes list"
  rs_nc :: nat
  rs_close :: "nat \<Rightarrow> closePc"

subsection \<open>Construction and publishing\<close>

definition WithChannel :: "string \<Rightarrow> 'a redisAdapter_scheme \<Rightarrow> 'a redisAdapter_scheme" where
  "WithChannel channel a = (if channel \<noteq> '''' then a\<lparr>rd_channel := channel\<rparr> else a)"

definition WithUnmarshalErrorHandler :: "bool \<Rightarrow> 'a redisAdapter_scheme \<Rightarrow> 'a redisAdapter_scheme" where
  "WithUnmarshalErrorHandler handler a = a\<lparr>rd_unmarshalErrorHandler := handler\<rparr>"

definition New :: "(redisAdapter \<Rightarrow> redisAdapter) list \<Rightarrow> redisAdapter" where
  "New opts = fold (\<lambda>opt. opt) opts \<lparr>rd_channel = ''wshub:messages'', rd_unmarshalErrorHandler = False,
     rd_cancel = None, rd_wg = 0, rd_closed = False\<rparr>"

definition redisPublish :: "redisEnv \<Rightarrow> AdapterMessage \<Rightarrow> 'a redisAdapter_scheme \<Rightarrow> redisErr option" where
  "redisPublish env msg a =
     (if rd_closed a then Some RedisClosed
      else case re_marshal env msg of
             Inl err \<Rightarrow> Some (WrapErr ''marshal message'' (LibErr err))
           | Inr data \<Rightarrow> (case re_publish env (rd_channel a) data of
                 Some err \<Rightarrow> Some (WrapErr (''publish to channel '' @ rd_channel a) (LibErr err))
               | None \<Rightarrow> None))"

subsection \<open>Subscribe\<close>

definition at_call :: "nat \<Rightarrow> subscribePc \<Rightarrow> redisSys \<Rightarrow> redisSys" where
  "at_call k pc s = s\<lparr>rs_calls := (rs_calls s)(k := pc)\<rparr>"

definition cancelCtx :: "nat \<Rightarrow> redisSys \<Rightarrow> redisSys" where
  "cancelCtx k s = s\<lparr>rs_cancelled := (rs_cancelled s)(k := True)\<rparr>"

text \<open>The call up to the end of its critical section.\<close>

definition subscribeStart :: "nat \<Rightarrow> redisSys \<Rightarrow> redisSys option" where
  "subscribeStart k s =
     (if k < rs_n s \<and> rs_calls s k = SubIdle
      then Some (if rd_closed s then at_call k (SubReturned (Some RedisClosed)) (cancelCtx k s)
                 else at_call k (case rd_cancel s of None \<Rightarrow> SubReceive | Some prev \<Rightarrow> SubCancelPrev prev)
                        (s\<lparr>rd_cancel := Some k, rd_wg := rd_wg s + 2\<rparr>))
      else None)"

text \<open>The rest: \<open>prev()\<close>; \<open>sub.Receive(ctx)\<close> and the two \<open>go\<close> statements; the clean-up.\<close>

definition subscribeStep :: "redisEnv \<Rightarrow> nat \<Rightarrow> redisSys \<Rightarrow> redisSys option" where
  "subscribeStep env k s = (if rs_n s \<le> k then None else case rs_calls s k of
       SubCancelPrev prev \<Rightarrow> Some (at_call k SubReceive (cancelCtx prev s))
     | SubReceive \<Rightarrow> Some (case re_receive env k of
           Some err \<Rightarrow> at_call k (SubFailed err) s
         | None \<Rightarrow> at_call k (SubReturned None)
             (s\<lparr>rs_watcher := (rs_watcher s)(k := GRunning), rs_receiver := (rs_receiver s)(k := GRunning)\<rparr>))
     | SubFailed err \<Rightarrow> Some (at_call k (SubReturned (Some (LibErr err)))
             ((cancelCtx k s)\<lparr>rs_subClosed := (rs_subClosed s)(k := True), rd_wg := rd_wg s - 2\<rparr>))
     | _ \<Rightarrow> None)"

text \<open>The goroutine that waits for the context and closes the PubSub.\<close>

definition watcherStep :: "nat \<Rightarrow> redisSys \<Rightarrow> redisSys option" where
  "watcherStep k s = (if rs_n s \<le> k then None else case rs_watcher s k of
       GRunning \<Rightarrow> if rs_cancelled s k
         then Some (s\<lparr>rs_subClosed := (rs_subClosed s)(k := True), rs_watcher := (rs_watcher s)(k := GLeaving)\<rparr>)
         else None
     | GLeaving \<Rightarrow> Some (s\<lparr>rd_wg := rd_wg s - 1, rs_watcher := (rs_watcher s)(k := GExited)\<rparr>)
     | _ \<Rightarrow> None)"

text \<open>The goroutine that ranges over the channel: it ends when the channel is closed.\<close>

definition receiverStep :: "redisEnv \<Rightarrow> nat \<Rightarrow> redisSys \<Rightarrow> redisSys option" where
  "receiverStep env k s = (if rs_n s \<le> k then None else case rs_receiver s k of
       GRunning \<Rightarrow> if re_chanClosed env (rs_subClosed s k)
         then Some (s\<lparr>rs_receiver := (rs_receiver s)(k := GLeaving)\<rparr>) else None
     | GLeaving \<Rightarrow> Some (s\<lparr>rd_wg := rd_wg s - 1, rs_receiver := (rs_receiver s)(k := GExited)\<rparr>)
     | _ \<Rightarrow> None)"

text \<open>A payload arrives at a receiver: it is decoded and handed to the handler, or skipped.\<close>

definition receiveMsg :: "redisEnv \<Rightarrow> nat \<Rightarrow> bytes \<Rightarrow> redisSys \<Rightarrow> redisSys option" where
  "receiveMsg env k payload s =
     (if k < rs_n s \<and> rs_receiver s k = GRunning
      then Some (case re_unmarshal env payload of
             Inl _ \<Rightarrow> if rd_unmarshalErrorHandler s then s\<lparr>rs_undecoded := rs_undecoded s @ [payload]\<rparr> else s
           | Inr am \<Rightarrow> s\<lparr>rs_handled := rs_handled s @ [am]\<rparr>)
      else None)"

subsection \<open>Close\<close>

definition at_close :: "nat \<Rightarrow> closePc \<Rightarrow> redisSys \<Rightarrow> redisSys" where
  "at_close j pc s = s\<lparr>rs_close := (rs_close s)(j := pc)\<rparr>"

definition closeStart :: "nat \<Rightarrow> redisSys \<Rightarrow> redisSys option" where
  "closeStart j s =
     (if j < rs_nc s \<and> rs_close s j = CloseIdle
      then Some (if rd_closed s then at_close j (CloseReturned False) s
                 else at_close j (case rd_cancel s of None \<Rightarrow> CloseWait | Some k \<Rightarrow> CloseCancel k) (s\<lparr>rd_closed := True\<rparr>))
      else None)"

definition closeStep :: "nat \<Rightarrow> redisSys \<Rightarrow> redisSys option" where
  "closeStep j s = (if rs_nc s \<le> j then None else case rs_close s j of
       CloseCancel k \<Rightarrow> Some (at_close j CloseWait (cancelCtx k s))
     | CloseWait \<Rightarrow> if rd_wg s = 0 then Some (at_close j (CloseReturned True) s) else None
     | _ \<Rightarrow> None)"

subsection \<open>All goroutines together\<close>

inductive redis_work :: "redisEnv \<Rightarrow> redisSys \<Rightarrow> redisSys \<Rightarrow> bool" for env where
  work_subscribe: "subscribeStep env k s = Some t \<Longrightarrow> redis_work env s t"
| work_watcher: "watcherStep k s = Some t \<Longrightarrow> redis_work env s t"
| work_receiver: "receiverStep env k s = Some t \<Longrightarrow> redis_work env s t"
| work_close: "closeStep j s = Some t \<Longrightarrow> redis_work env s t"

inductive redis_step :: "redisEnv \<Rightarrow> redisSys \<Rightarrow> redisSys \<Rightarrow> bool" for env where
  redis_internal: "redis_work env s t \<Longrightarrow> redis_step env s t"
| redis_subscribe: "subscribeStart k s = Some t \<Longrightarrow> redis_step env s t"
| redis_message: "receiveMsg env k payload s = Some t \<Longrightarrow> redis_step env s t"
| redis_cancel: "k < rs_n s \<Longrightarrow> rs_calls s k \<noteq> SubIdle \<Longrightarrow> redis_step env s (cancelCtx k s)"
| redis_close: "closeStart j s = Some t \<Longrightarrow> redis_step env s t"

text \<open>A new adapter with room for \<open>n\<close> subscriptions and \<open>m\<close> calls of \<open>Close\<close>.\<close>

definition redisSysOf :: "redisAdapter \<Rightarrow> nat \<Rightarrow> nat \<Rightarrow> redisSys" where
  "redisSysOf a n m = redisAdapter.extend a
     (redisSys.fields n (\<lambda>_. SubIdle) (\<lambda>_. False) (\<lambda>_. False) (\<lambda>_. GNone) (\<lambda>_. GNone) [] [] m (\<lambda>_. CloseIdle))"

definition redis_init :: "redisSys \<Rightarrow> bool" where
  "redis_init s \<longleftrightarrow> (\<exists>opts n m. s = redisSysOf (New opts) n m \<and>
     set opts \<subseteq> range WithChannel \<union> range WithUnmarshalErrorHandler)"

lemma redis_frame [simp]:
  "rd_cancel (at_call k pc s) = rd_cancel s" "rd_wg (at_call k pc s) = rd_wg s"
  "rd_closed (at_call k pc s) = rd_closed s" "rs_n (at_call k pc s) = rs_n s"
  "rs_calls (at_call k pc s) = (rs_calls s)(k := pc)" "rs_cancelled (at_call k pc s) = rs_cancelled s"
  "rs_subClosed (at_call k pc s) = rs_subClosed s" "rs_watcher (at_call k pc s) = rs_watcher s"
  "rs_receiver (at_call k pc s) = rs_receiver s" "rs_handled (at_call k pc s) = rs_handled s"
  "rs_nc (at_call k pc s) = rs_nc s" "rs_close (at_call k pc s) = rs_close s"
  "rd_cancel (cancelCtx k s) = rd_cancel s" "rd_wg (cancelCtx k s) = rd_wg s"
  "rd_closed (cancelCtx k s) = rd_closed s" "rs_n (cancelCtx k s) = rs_n s"
  "rs_calls (cancelCtx k s) = rs_calls s" "rs_cancelled (cancelCtx k s) = (rs_cancelled s)(k := True)"
  "rs_subClosed (cancelCtx k s) = rs_subClosed s" "rs_watcher (cancelCtx k s) = rs_watcher s"
  "rs_receiver (cancelCtx k s) = rs_receiver s" "rs_handled (cancelCtx k s) = rs_handled s"
  "rs_nc (cancelCtx k s) = rs_nc s" "rs_close (cancelCtx k s) = rs_close s"
  "rd_cancel (at_close j q s) = rd_cancel s" "rd_wg (at_close j q s) = rd_wg s"
  "rd_closed (at_close j q s) = rd_closed s" "rs_n (at_close j q s) = rs_n s"
  "rs_calls (at_close j q s) = rs_calls s" "rs_cancelled (at_close j q s) = rs_cancelled s"
  "rs_subClosed (at_close j q s) = rs_subClosed s" "rs_watcher (at_close j q s) = rs_watcher s"
  "rs_receiver (at_close j q s) = rs_receiver s" "rs_handled (at_close j q s) = rs_handled s"
  "rs_nc (at_close j q s) = rs_nc s" "rs_close (at_close j q s) = (rs_close s)(j := q)"
  by (simp_all add: at_call_def cancelCtx_def at_close_def)

subsection \<open>The invariant\<close>

text \<open>The wait group counts the slots reserved by calls in progress and the goroutines alive.\<close>

fun reserved :: "subscribePc \<Rightarrow> int" where
  "reserved (SubCancelPrev _) = 2"
| "reserved SubReceive = 2"
| "reserved (SubFailed _) = 2"
| "reserved _ = 0"

fun alive :: "goPc \<Rightarrow> int" where
  "alive GRunning = 1"
| "alive GLeaving = 1"
| "alive _ = 0"

definition wg_exact :: "redisSys \<Rightarrow> bool" where
  "wg_exact s \<longleftrightarrow> rd_wg s = (\<Sum>k<rs_n s. reserved (rs_calls s k)) + (\<Sum>k<rs_n s. alive (rs_watcher s k)) +
     (\<Sum>k<rs_n s. alive (rs_receiver s k))"

text \<open>Goroutines run in pairs, for calls that succeeded; a watcher that is leaving has closed the PubSub.\<close>

definition pair_ok :: "redisSys \<Rightarrow> nat \<Rightarrow> bool" where
  "pair_ok s k \<longleftrightarrow> (rs_watcher s k = GNone \<longleftrightarrow> rs_receiver s k = GNone) \<and>
     (rs_watcher s k \<noteq> GNone \<longrightarrow> rs_calls s k = SubReturned None) \<and>
     (rs_watcher s k \<in> {GLeaving, GExited} \<longrightarrow> rs_subClosed s k)"

text \<open>A subscription in use is the current one, or somebody is about to cancel it.\<close>

definition wanted :: "redisSys \<Rightarrow> nat \<Rightarrow> bool" where
  "wanted s k \<longleftrightarrow> (\<exists>m<rs_n s. rs_calls s m = SubCancelPrev k) \<or> (\<exists>j<rs_nc s. rs_close s j = CloseCancel k)"

definition cancel_ok :: "redisSys \<Rightarrow> nat \<Rightarrow> bool" where
  "cancel_ok s k \<longleftrightarrow> (rs_watcher s k \<noteq> GNone \<or> reserved (rs_calls s k) = 2) \<and> \<not> rs_cancelled s k \<longrightarrow>
     rd_cancel s = Some k \<or> wanted s k"

definition closed_ok :: "redisSys \<Rightarrow> bool" where
  "closed_ok s \<longleftrightarrow> (\<forall>k. rd_closed s \<longrightarrow> rd_cancel s = Some k \<longrightarrow> rs_cancelled s k \<or> (\<exists>j<rs_nc s. rs_close s j = CloseCancel k)) \<and>
     (\<forall>j<rs_nc s. rs_close s j \<noteq> CloseIdle \<longrightarrow> rd_closed s) \<and>
     (\<forall>j<rs_nc s. rs_close s j = CloseReturned True \<longrightarrow> rd_wg s = 0)"

definition redis_inv :: "redisSys \<Rightarrow> bool" where
  "redis_inv s \<longleftrightarrow> wg_exact s \<and> (\<forall>k. pair_ok s k) \<and> (\<forall>k<rs_n s. cancel_ok s k) \<and> closed_ok s"

lemma reserved_nonneg: "0 \<le> reserved pc" "0 \<le> alive g"
  by (cases pc; simp) (cases g; simp)

lemma New_fields:
  assumes "set opts \<subseteq> range WithChannel \<union> range WithUnmarshalErrorHandler"
  shows "rd_cancel (New opts) = None \<and> rd_wg (New opts) = 0 \<and> \<not> rd_closed (New opts)"
proof -
  have "rd_cancel (fold (\<lambda>opt. opt) opts a) = rd_cancel a \<and> rd_wg (fold (\<lambda>opt. opt) opts a) = rd_wg a \<and>
      rd_closed (fold (\<lambda>opt. opt) opts a) = rd_closed a" for a
    using assms
  proof (induction opts arbitrary: a)
    case (Cons opt opts)
    then have "rd_cancel (opt a) = rd_cancel a \<and> rd_wg (opt a) = rd_wg a \<and> rd_closed (opt a) = rd_closed a"
      by (auto simp: WithChannel_def WithUnmarshalErrorHandler_def split: if_splits)
    with Cons show ?case by simp
  qed simp
  then show ?thesis by (simp add: New_def)
qed

lemma redis_init_inv: "redis_init s \<Longrightarrow> redis_inv s"
proof -
  assume "redis_init s"
  then obtain opts n m where s: "s = redisSysOf (New opts) n m"
    and o: "set opts \<subseteq> range WithChannel \<union> range WithUnmarshalErrorHandler" by (auto simp: redis_init_def)
  show ?thesis
    using New_fields [OF o]
    by (simp add: s redisSysOf_def redis_inv_def wg_exact_def pair_ok_def cancel_ok_def closed_ok_def
        redisAdapter.defs redisSys.defs)
qed

lemma wanted_frame:
  "wanted (cancelCtx k s) = wanted s" "wanted (s\<lparr>rd_wg := x\<rparr>) = wanted s" "wanted (s\<lparr>rd_cancel := y\<rparr>) = wanted s"
  "wanted (s\<lparr>rs_watcher := a\<rparr>) = wanted s" "wanted (s\<lparr>rs_receiver := b\<rparr>) = wanted s"
  "wanted (s\<lparr>rs_subClosed := c\<rparr>) = wanted s" "wanted (s\<lparr>rd_closed := d\<rparr>) = wanted s"
  by (simp_all add: wanted_def fun_eq_iff)

lemma wanted_call:
  assumes "wanted s k" and "rs_calls s m \<noteq> SubCancelPrev k"
  shows "wanted (at_call m pc s) k"
  using assms by (auto simp: wanted_def)

lemma wanted_close:
  assumes "wanted s k" and "rs_close s j \<noteq> CloseCancel k"
  shows "wanted (at_close j pc s) k"
  using assms by (auto simp: wanted_def)

lemma cancelCtx_inv:
  assumes "redis_inv s"
  shows "redis_inv (cancelCtx k s)"
proof -
  have "cancel_ok (cancelCtx k s) j" if "cancel_ok s j" for j
    using that by (auto simp: cancel_ok_def wanted_frame split: if_splits)
  moreover have "closed_ok (cancelCtx k s)" using assms by (auto simp: redis_inv_def closed_ok_def)
  ultimately show ?thesis using assms by (simp add: redis_inv_def wg_exact_def pair_ok_def)
qed

lemma subscribeStart_inv:
  assumes inv: "redis_inv s" and "subscribeStart k s = Some t"
  shows "redis_inv t"
proof -
  have k: "k < rs_n s" "rs_calls s k = SubIdle" using assms(2) by (auto simp: subscribeStart_def split: if_splits)
  have g: "rs_watcher s k = GNone" "rs_receiver s k = GNone"
    using inv k(2) by (auto simp: redis_inv_def pair_ok_def dest!: spec [of _ k])
  show ?thesis
  proof (cases "rd_closed s")
    case True
    then have t: "t = at_call k (SubReturned (Some RedisClosed)) (cancelCtx k s)"
      using assms(2) k by (simp add: subscribeStart_def)
    have inv': "redis_inv (cancelCtx k s)" using inv by (rule cancelCtx_inv)
    have "cancel_ok t m" if "m < rs_n s" for m
      using inv' that k g wanted_call [of "cancelCtx k s" m k "SubReturned (Some RedisClosed)"]
      by (auto simp: t redis_inv_def cancel_ok_def)
    moreover have "wg_exact t" using inv' k by (simp add: redis_inv_def t wg_exact_def sum_upd_int del: fun_upd_apply)
    moreover have "pair_ok t m" for m
      using inv' g by (cases "m = k") (simp_all add: redis_inv_def t pair_ok_def)
    moreover have "closed_ok t" using inv' by (simp add: redis_inv_def t closed_ok_def)
    ultimately show ?thesis by (simp add: redis_inv_def t)
  next
    case False
    let ?pc = "case rd_cancel s of None \<Rightarrow> SubReceive | Some prev \<Rightarrow> SubCancelPrev prev"
    have t: "t = at_call k ?pc (s\<lparr>rd_cancel := Some k, rd_wg := rd_wg s + 2\<rparr>)"
      using assms(2) k False by (simp add: subscribeStart_def)
    have r: "reserved ?pc = 2" by (simp split: option.split)
    have "cancel_ok t m" if m: "m < rs_n s" for m
    proof (cases "m = k")
      case True
      then show ?thesis by (simp add: t cancel_ok_def)
    next
      case False
      show ?thesis
      proof (cases "rd_cancel s = Some m")
        case True
        then have "wanted t m" using k(1) by (auto simp: t wanted_def)
        then show ?thesis by (simp add: cancel_ok_def)
      next
        case nc: False
        have "wanted t m" if "wanted s m"
          using that k wanted_call [of "s\<lparr>rd_cancel := Some k, rd_wg := rd_wg s + 2\<rparr>" m k ?pc] by (simp add: t wanted_frame)
        then show ?thesis
          using inv m False nc by (auto simp: redis_inv_def cancel_ok_def t)
      qed
    qed
    moreover have "wg_exact t" using inv k r by (simp add: redis_inv_def t wg_exact_def sum_upd_int del: fun_upd_apply)
    moreover have "pair_ok t m" for m
      using inv g by (cases "m = k") (simp_all add: redis_inv_def t pair_ok_def)
    moreover have "closed_ok t" using inv False by (auto simp: redis_inv_def t closed_ok_def)
    ultimately show ?thesis by (simp add: redis_inv_def t)
  qed
qed

text \<open>While a slot is taken the wait group is positive, so no \<open>Close\<close> that waited has returned.\<close>

lemma wg_slots:
  assumes "redis_inv s" and "k < rs_n s"
  shows "reserved (rs_calls s k) + alive (rs_watcher s k) + alive (rs_receiver s k) \<le> rd_wg s"
proof -
  have le: "f (g k) \<le> (\<Sum>m<rs_n s. f (g m))" if "\<And>x. 0 \<le> f x" for f :: "'b \<Rightarrow> int" and g :: "nat \<Rightarrow> 'b"
    using assms(2) that by (intro member_le_sum) auto
  have "reserved (rs_calls s k) \<le> (\<Sum>m<rs_n s. reserved (rs_calls s m))" by (rule le) (rule reserved_nonneg)
  moreover have "alive (rs_watcher s k) \<le> (\<Sum>m<rs_n s. alive (rs_watcher s m))" by (rule le) (rule reserved_nonneg)
  moreover have "alive (rs_receiver s k) \<le> (\<Sum>m<rs_n s. alive (rs_receiver s m))" by (rule le) (rule reserved_nonneg)
  ultimately show ?thesis using assms(1) by (simp add: redis_inv_def wg_exact_def)
qed

lemma busy_open:
  assumes "redis_inv s" and "k < rs_n s"
    and "0 < reserved (rs_calls s k) + alive (rs_watcher s k) + alive (rs_receiver s k)" and "j < rs_nc s"
  shows "rs_close s j \<noteq> CloseReturned True"
  using wg_slots [OF assms(1,2)] assms by (auto simp: redis_inv_def closed_ok_def)

lemma subscribeStep_inv:
  assumes inv: "redis_inv s" and st: "subscribeStep env k s = Some t"
  shows "redis_inv t"
proof -
  have k: "k < rs_n s" using st by (simp add: subscribeStep_def split: if_splits)
  have p: "pair_ok s m" for m using inv by (simp add: redis_inv_def)
  show ?thesis
  proof (cases "rs_calls s k")
    case (SubCancelPrev prev)
    then have t: "t = at_call k SubReceive (cancelCtx prev s)" using st k by (simp add: subscribeStep_def)
    have inv': "redis_inv (cancelCtx prev s)" using inv by (rule cancelCtx_inv)
    have "cancel_ok t m" if m: "m < rs_n s" for m
    proof (cases "m = prev")
      case False
      then have "wanted t m" if "wanted (cancelCtx prev s) m"
        using that SubCancelPrev wanted_call [of "cancelCtx prev s" m k SubReceive] by (simp add: t)
      then show ?thesis using inv' m SubCancelPrev by (auto simp: redis_inv_def cancel_ok_def t)
    qed (simp add: t cancel_ok_def)
    moreover have "wg_exact t"
      using inv' k SubCancelPrev by (simp add: redis_inv_def t wg_exact_def sum_upd_int del: fun_upd_apply)
    moreover have "pair_ok t m" for m using p [of m] SubCancelPrev by (auto simp: t pair_ok_def)
    moreover have "closed_ok t" using inv' by (simp add: redis_inv_def t closed_ok_def)
    ultimately show ?thesis by (simp add: redis_inv_def t)
  next
    case SubReceive
    have g: "rs_watcher s k = GNone" "rs_receiver s k = GNone" using p [of k] SubReceive by (auto simp: pair_ok_def)
    have w: "wanted s m \<Longrightarrow> wanted (at_call k pc s) m" for m pc using wanted_call [of s m k] SubReceive by simp
    show ?thesis
    proof (cases "re_receive env k")
      case (Some err)
      then have t: "t = at_call k (SubFailed err) s" using st k SubReceive by (simp add: subscribeStep_def)
      have "cancel_ok t m" if "m < rs_n s" for m
        using inv that w [of m "SubFailed err"] SubReceive by (auto simp: redis_inv_def cancel_ok_def t)
      moreover have "wg_exact t"
        using inv k SubReceive by (simp add: redis_inv_def t wg_exact_def sum_upd_int del: fun_upd_apply)
      moreover have "pair_ok t m" for m using p [of m] SubReceive by (auto simp: t pair_ok_def)
      moreover have "closed_ok t" using inv by (simp add: redis_inv_def t closed_ok_def)
      ultimately show ?thesis by (simp add: redis_inv_def t)
    next
      case None
      let ?s1 = "s\<lparr>rs_watcher := (rs_watcher s)(k := GRunning), rs_receiver := (rs_receiver s)(k := GRunning)\<rparr>"
      have t: "t = at_call k (SubReturned None) ?s1" using st k SubReceive None by (simp add: subscribeStep_def)
      have "cancel_ok t m" if "m < rs_n s" for m
        using inv that wanted_call [of ?s1 m k "SubReturned None"] SubReceive
        by (auto simp: redis_inv_def cancel_ok_def t wanted_frame split: if_splits)
      moreover have "wg_exact t"
        using inv k g SubReceive by (simp add: redis_inv_def t wg_exact_def sum_upd_int del: fun_upd_apply)
      moreover have "pair_ok t m" for m using p [of m] g by (auto simp: t pair_ok_def)
      moreover have "closed_ok t" using inv by (simp add: redis_inv_def t closed_ok_def)
      ultimately show ?thesis by (simp add: redis_inv_def t)
    qed
  next
    case (SubFailed err)
    let ?s1 = "(cancelCtx k s)\<lparr>rs_subClosed := (rs_subClosed s)(k := True), rd_wg := rd_wg s - 2\<rparr>"
    have t: "t = at_call k (SubReturned (Some (LibErr err))) ?s1" using st k SubFailed by (simp add: subscribeStep_def)
    have inv': "redis_inv (cancelCtx k s)" using inv by (rule cancelCtx_inv)
    have "cancel_ok t m" if "m < rs_n s" for m
      using inv' that wanted_call [of ?s1 m k "SubReturned (Some (LibErr err))"] SubFailed
      by (auto simp: redis_inv_def cancel_ok_def t wanted_frame)
    moreover have w: "wg_exact t"
      using inv' k SubFailed by (simp add: redis_inv_def t wg_exact_def sum_upd_int del: fun_upd_apply)
    moreover have "pair_ok t m" for m using p [of m] SubFailed by (auto simp: t pair_ok_def)
    moreover have "closed_ok t"
      using inv' busy_open [OF inv k] SubFailed reserved_nonneg(2) [of "rs_watcher s k"] reserved_nonneg(2) [of "rs_receiver s k"]
      by (auto simp: redis_inv_def t closed_ok_def)
    ultimately show ?thesis by (simp add: redis_inv_def t)
  qed (use st k in \<open>simp_all add: subscribeStep_def\<close>)
qed

lemma watcherStep_inv:
  assumes inv: "redis_inv s" and st: "watcherStep k s = Some t"
  shows "redis_inv t"
proof -
  have k: "k < rs_n s" using st by (simp add: watcherStep_def split: if_splits)
  have p: "pair_ok s m" for m using inv by (simp add: redis_inv_def)
  show ?thesis
  proof (cases "rs_watcher s k")
    case GRunning
    then have t: "t = s\<lparr>rs_subClosed := (rs_subClosed s)(k := True), rs_watcher := (rs_watcher s)(k := GLeaving)\<rparr>"
      and c: "rs_cancelled s k" using st k by (auto simp: watcherStep_def split: if_splits)
    have "cancel_ok t m" if "m < rs_n s" for m
      using inv that c by (auto simp: redis_inv_def cancel_ok_def t wanted_frame)
    moreover have "wg_exact t"
      using inv k GRunning by (simp add: redis_inv_def t wg_exact_def sum_upd_int del: fun_upd_apply)
    moreover have "pair_ok t m" for m using p [of m] GRunning by (auto simp: t pair_ok_def)
    moreover have "closed_ok t" using inv by (simp add: redis_inv_def t closed_ok_def)
    ultimately show ?thesis by (simp add: redis_inv_def t)
  next
    case GLeaving
    then have t: "t = s\<lparr>rd_wg := rd_wg s - 1, rs_watcher := (rs_watcher s)(k := GExited)\<rparr>"
      using st k by (simp add: watcherStep_def)
    have "cancel_ok t m" if "m < rs_n s" for m
      using inv that GLeaving by (cases "m = k") (auto simp: redis_inv_def cancel_ok_def t wanted_frame)
    moreover have "wg_exact t"
      using inv k GLeaving by (simp add: redis_inv_def t wg_exact_def sum_upd_int del: fun_upd_apply)
    moreover have "pair_ok t m" for m using p [of m] GLeaving by (auto simp: t pair_ok_def)
    moreover have "closed_ok t"
      using inv busy_open [OF inv k] GLeaving reserved_nonneg(1) [of "rs_calls s k"] reserved_nonneg(2) [of "rs_receiver s k"]
      by (auto simp: redis_inv_def t closed_ok_def)
    ultimately show ?thesis by (simp add: redis_inv_def t)
  qed (use st k in \<open>simp_all add: watcherStep_def\<close>)
qed

lemma receiverStep_inv:
  assumes inv: "redis_inv s" and st: "receiverStep env k s = Some t"
  shows "redis_inv t"
proof -
  have k: "k < rs_n s" using st by (simp add: receiverStep_def split: if_splits)
  have p: "pair_ok s m" for m using inv by (simp add: redis_inv_def)
  show ?thesis
  proof (cases "rs_receiver s k")
    case GRunning
    then have t: "t = s\<lparr>rs_receiver := (rs_receiver s)(k := GLeaving)\<rparr>"
      using st k by (auto simp: receiverStep_def split: if_splits)
    have "wg_exact t"
      using inv k GRunning by (simp add: redis_inv_def t wg_exact_def sum_upd_int del: fun_upd_apply)
    moreover have "pair_ok t m" for m using p [of m] GRunning by (auto simp: t pair_ok_def)
    ultimately show ?thesis using inv by (simp add: redis_inv_def t closed_ok_def cancel_ok_def wanted_frame)
  next
    case GLeaving
    then have t: "t = s\<lparr>rd_wg := rd_wg s - 1, rs_receiver := (rs_receiver s)(k := GExited)\<rparr>"
      using st k by (simp add: receiverStep_def)
    have "wg_exact t"
      using inv k GLeaving by (simp add: redis_inv_def t wg_exact_def sum_upd_int del: fun_upd_apply)
    moreover have "pair_ok t m" for m using p [of m] GLeaving by (auto simp: t pair_ok_def)
    moreover have "closed_ok t"
      using inv busy_open [OF inv k] GLeaving reserved_nonneg(1) [of "rs_calls s k"] reserved_nonneg(2) [of "rs_watcher s k"]
      by (auto simp: redis_inv_def t closed_ok_def)
    ultimately show ?thesis using inv by (simp add: redis_inv_def t cancel_ok_def wanted_frame)
  qed (use st k in \<open>simp_all add: receiverStep_def\<close>)
qed

lemma receiveMsg_inv:
  assumes "redis_inv s" and "receiveMsg env k payload s = Some t"
  shows "redis_inv t"
proof -
  have "redis_inv (s\<lparr>rs_handled := x\<rparr>) = redis_inv s" "redis_inv (s\<lparr>rs_undecoded := y\<rparr>) = redis_inv s" for x y
    by (simp_all add: redis_inv_def wg_exact_def pair_ok_def cancel_ok_def wanted_def closed_ok_def)
  with assms show ?thesis by (auto simp: receiveMsg_def split: if_splits sum.splits)
qed

lemma closer_inv:
  assumes inv: "redis_inv s" and "j < rs_nc s" and w: "\<And>k. rs_close s j = CloseCancel k \<Longrightarrow> rs_cancelled s k"
    and pc: "pc \<noteq> CloseIdle" "rd_closed s" "pc = CloseReturned True \<Longrightarrow> rd_wg s = 0" "rs_close s j \<noteq> CloseReturned True"
  shows "redis_inv (at_close j pc s)"
proof -
  let ?t = "at_close j pc s"
  have "cancel_ok ?t m" if "m < rs_n s" for m
    using inv that w wanted_close [of s m j pc] by (auto simp: redis_inv_def cancel_ok_def)
  moreover have "rs_cancelled s k \<or> (\<exists>i<rs_nc s. ((rs_close s)(j := pc)) i = CloseCancel k)" if "rd_cancel s = Some k" for k
  proof -
    have "rs_cancelled s k \<or> (\<exists>i<rs_nc s. rs_close s i = CloseCancel k)"
      using inv that pc(2) by (simp add: redis_inv_def closed_ok_def)
    then show ?thesis using w [of k] by (metis fun_upd_other)
  qed
  then have "closed_ok ?t" using inv pc by (auto simp: redis_inv_def closed_ok_def)
  ultimately show ?thesis using inv by (simp add: redis_inv_def wg_exact_def pair_ok_def)
qed

lemma closeStep_inv:
  assumes inv: "redis_inv s" and st: "closeStep j s = Some t"
  shows "redis_inv t"
proof -
  have j: "j < rs_nc s" using st by (simp add: closeStep_def split: if_splits)
  have c: "rs_close s j \<noteq> CloseIdle \<Longrightarrow> rd_closed s" using inv j by (simp add: redis_inv_def closed_ok_def)
  show ?thesis
  proof (cases "rs_close s j")
    case (CloseCancel k)
    then show ?thesis
      using st j c closer_inv [OF cancelCtx_inv [OF inv, of k], of j CloseWait] by (simp add: closeStep_def)
  next
    case CloseWait
    then show ?thesis
      using st j c closer_inv [OF inv j, of "CloseReturned True"] by (auto simp: closeStep_def split: if_splits)
  qed (use st j in \<open>simp_all add: closeStep_def\<close>)
qed

lemma closeStart_inv:
  assumes inv: "redis_inv s" and st: "closeStart j s = Some t"
  shows "redis_inv t"
proof (cases "rd_closed s")
  case True
  then show ?thesis
    using st closer_inv [OF inv, of j "CloseReturned False"] by (auto simp: closeStart_def split: if_splits)
next
  case False
  let ?pc = "case rd_cancel s of None \<Rightarrow> CloseWait | Some k \<Rightarrow> CloseCancel k"
  have j: "j < rs_nc s" "rs_close s j = CloseIdle" and t: "t = at_close j ?pc (s\<lparr>rd_closed := True\<rparr>)"
    using st False by (auto simp: closeStart_def split: if_splits)
  have "cancel_ok t m" if "m < rs_n s" for m
    using inv that j wanted_close [of "s\<lparr>rd_closed := True\<rparr>" m j ?pc]
    by (auto simp: redis_inv_def cancel_ok_def t wanted_frame)
  moreover have "closed_ok t"
    using inv j False by (auto simp: redis_inv_def closed_ok_def t split: option.split)
  ultimately show ?thesis using inv by (simp add: redis_inv_def t wg_exact_def pair_ok_def)
qed

lemma redis_step_inv:
  assumes "redis_inv s" and "redis_step env s t"
  shows "redis_inv t"
  using assms(2)
proof cases
  case redis_internal
  then show ?thesis
    using assms(1) by cases (auto intro: subscribeStep_inv watcherStep_inv receiverStep_inv closeStep_inv)
qed (use assms(1) in \<open>auto intro: subscribeStart_inv receiveMsg_inv cancelCtx_inv closeStart_inv\<close>)

subsection \<open>No goroutine is left behind\<close>

fun callWork :: "subscribePc \<Rightarrow> nat" where
  "callWork (SubCancelPrev _) = 6"
| "callWork SubReceive = 5"
| "callWork (SubFailed _) = 1"
| "callWork _ = 0"

fun goWork :: "goPc \<Rightarrow> nat" where
  "goWork GRunning = 2"
| "goWork GLeaving = 1"
| "goWork _ = 0"

fun closeWork :: "closePc \<Rightarrow> nat" where
  "closeWork (CloseCancel _) = 2"
| "closeWork CloseWait = 1"
| "closeWork _ = 0"

definition redisWork :: "redisSys \<Rightarrow> nat" where
  "redisWork s = (\<Sum>k<rs_n s. callWork (rs_calls s k)) + (\<Sum>k<rs_n s. goWork (rs_watcher s k)) +
     (\<Sum>k<rs_n s. goWork (rs_receiver s k)) + (\<Sum>j<rs_nc s. closeWork (rs_close s j))"

lemma redis_work_lowers:
  assumes "redis_inv s" and "redis_work env s t"
  shows "redisWork t < redisWork s"
  using assms(2)
proof cases
  case (work_subscribe k)
  then have k: "k < rs_n s" by (simp add: subscribeStep_def split: if_splits)
  have p: "pair_ok s k" using assms(1) by (simp add: redis_inv_def)
  show ?thesis
  proof (cases "rs_calls s k")
    case SubReceive
    then have g: "rs_watcher s k = GNone" "rs_receiver s k = GNone" using p by (auto simp: pair_ok_def)
    show ?thesis
      using work_subscribe k SubReceive g sum_upd [OF k, of callWork "rs_calls s" "SubReturned None"]
        sum_upd [OF k, of goWork "rs_watcher s" GRunning] sum_upd [OF k, of goWork "rs_receiver s" GRunning]
        sum_lowers [OF k, of callWork _ "rs_calls s"]
      by (auto simp: subscribeStep_def redisWork_def simp del: fun_upd_apply split: option.splits)
  qed (use work_subscribe k sum_lowers [OF k, of callWork _ "rs_calls s"] in
      \<open>auto simp: subscribeStep_def redisWork_def simp del: fun_upd_apply\<close>)
next
  case (work_watcher k)
  then have k: "k < rs_n s" by (simp add: watcherStep_def split: if_splits)
  show ?thesis
    using work_watcher k sum_lowers [OF k, of goWork _ "rs_watcher s"]
    by (cases "rs_watcher s k") (auto simp: watcherStep_def redisWork_def simp del: fun_upd_apply split: if_splits)
next
  case (work_receiver k)
  then have k: "k < rs_n s" by (simp add: receiverStep_def split: if_splits)
  show ?thesis
    using work_receiver k sum_lowers [OF k, of goWork _ "rs_receiver s"]
    by (cases "rs_receiver s k") (auto simp: receiverStep_def redisWork_def simp del: fun_upd_apply split: if_splits)
next
  case (work_close j)
  then have j: "j < rs_nc s" by (simp add: closeStep_def split: if_splits)
  show ?thesis
    using work_close j sum_lowers [OF j, of closeWork _ "rs_close s"]
    by (cases "rs_close s j") (auto simp: closeStep_def redisWork_def simp del: fun_upd_apply split: if_splits)
qed

text \<open>When nothing moves any more, every call has returned, and only the goroutines of the current
  subscription of an open adapter are alive.\<close>

definition redis_settled :: "redisSys \<Rightarrow> bool" where
  "redis_settled s \<longleftrightarrow>
     (\<forall>k<rs_n s. (rs_calls s k = SubIdle \<or> (\<exists>r. rs_calls s k = SubReturned r)) \<and>
        (alive (rs_watcher s k) = 0 \<and> alive (rs_receiver s k) = 0 \<or> rd_cancel s = Some k \<and> \<not> rd_closed s)) \<and>
     (\<forall>j<rs_nc s. rs_close s j = CloseIdle \<or> (\<exists>b. rs_close s j = CloseReturned b))"

lemma redis_stuck:
  assumes ok: "redis_ok env" and inv: "redis_inv s" and stuck: "\<not> (\<exists>t. redis_work env s t)"
  shows "redis_settled s"
proof -
  have n: "subscribeStep env k s = None" "watcherStep k s = None" "receiverStep env k s = None" "closeStep j s = None" for k j
    using stuck work_subscribe work_watcher work_receiver work_close by (metis not_None_eq)+
  have calls: "rs_calls s k = SubIdle \<or> (\<exists>r. rs_calls s k = SubReturned r)" if "k < rs_n s" for k
    using n(1) [of k] that by (cases "rs_calls s k") (auto simp: subscribeStep_def)
  have nocc: "rs_close s j \<noteq> CloseCancel k" if "j < rs_nc s" for j k
    using n(4) [of j] that by (auto simp: closeStep_def)
  have idle: "alive (rs_watcher s k) = 0 \<and> alive (rs_receiver s k) = 0 \<or> rd_cancel s = Some k \<and> \<not> rd_closed s"
    if k: "k < rs_n s" for k
  proof (cases "rs_watcher s k")
    case GRunning
    then have c: "\<not> rs_cancelled s k" using n(2) [of k] k by (auto simp: watcherStep_def split: if_splits)
    have "\<not> wanted s k" using calls nocc by (force simp: wanted_def)
    then have "rd_cancel s = Some k" using inv k c GRunning by (auto simp: redis_inv_def cancel_ok_def)
    moreover have "\<not> rd_closed s" using inv c calculation nocc by (auto simp: redis_inv_def closed_ok_def)
    ultimately show ?thesis by simp
  next
    case GLeaving
    then show ?thesis using n(2) [of k] k by (simp add: watcherStep_def)
  next
    case GExited
    then have "rs_subClosed s k" using inv by (auto simp: redis_inv_def pair_ok_def)
    then show ?thesis
      using GExited n(3) [of k] k ok by (cases "rs_receiver s k") (auto simp: receiverStep_def redis_ok_def split: if_splits)
  next
    case GNone
    then show ?thesis using inv by (auto simp: redis_inv_def pair_ok_def dest!: spec [of _ k])
  qed
  have "rs_close s j = CloseIdle \<or> (\<exists>b. rs_close s j = CloseReturned b)" if j: "j < rs_nc s" for j
  proof (cases "rs_close s j")
    case CloseWait
    then have "rd_closed s" using inv j by (auto simp: redis_inv_def closed_ok_def)
    then have "reserved (rs_calls s k) = 0" "alive (rs_watcher s k) = 0" "alive (rs_receiver s k) = 0" if "k < rs_n s" for k
      using idle [OF that] calls [OF that] by auto
    then have "rd_wg s = 0" using inv by (simp add: redis_inv_def wg_exact_def)
    then show ?thesis using CloseWait n(4) [of j] j by (simp add: closeStep_def)
  qed (use nocc j in auto)
  with calls idle show ?thesis by (simp add: redis_settled_def)
qed

interpretation redis: settling_system redis_init "redis_step env" redis_inv "redis_work env" redisWork
  "\<lambda>s. redis_ok env \<longrightarrow> redis_settled s" for env
proof
  show "redis_init s \<Longrightarrow> redis_inv s" for s by (rule redis_init_inv)
  show "redis_inv s \<Longrightarrow> redis_step env s t \<Longrightarrow> redis_inv t" for s t by (rule redis_step_inv)
  show "redis_work env s t \<Longrightarrow> redis_step env s t" for s t by (rule redis_internal)
  show "redis_inv s \<Longrightarrow> redis_work env s t \<Longrightarrow> redisWork t < redisWork s" for s t by (rule redis_work_lowers)
  show "redis_inv s \<Longrightarrow> \<not> (\<exists>t. redis_work env s t) \<Longrightarrow> redis_ok env \<longrightarrow> redis_settled s" for s
    using redis_stuck by blast
qed

text \<open>After a \<open>Close\<close> that waited has returned, no goroutine is alive and no message is handled.\<close>

lemma closed_down:
  assumes "redis_inv s" and "j < rs_nc s" and "rs_close s j = CloseReturned True" and "k < rs_n s"
  shows "alive (rs_watcher s k) = 0" "alive (rs_receiver s k) = 0"
proof -
  have "rd_wg s = 0" using assms by (simp add: redis_inv_def closed_ok_def)
  then show "alive (rs_watcher s k) = 0" "alive (rs_receiver s k) = 0"
    using wg_slots [OF assms(1,4)] reserved_nonneg(1) [of "rs_calls s k"] reserved_nonneg(2) [of "rs_watcher s k"]
      reserved_nonneg(2) [of "rs_receiver s k"] by linarith+
qed

lemma redis_work_handled:
  assumes "redis_work env s t"
  shows "rs_handled t = rs_handled s" "rs_nc t = rs_nc s" "rs_close s j = CloseReturned b \<Longrightarrow> rs_close t j = CloseReturned b"
  using assms
  by (cases rule: redis_work.cases;
      auto simp: subscribeStep_def watcherStep_def receiverStep_def closeStep_def
        split: subscribePc.splits goPc.splits closePc.splits option.splits if_splits)+

lemma closed_handles_nothing:
  assumes "redis_inv s" and "j < rs_nc s" and "rs_close s j = CloseReturned True" and "redis_step env s t"
  shows "rs_handled t = rs_handled s" "rs_nc t = rs_nc s" "rs_close t j = CloseReturned True"
proof -
  have r: "rs_receiver s k \<noteq> GRunning" if "k < rs_n s" for k using closed_down [OF assms(1-3) that] by auto
  have "rs_handled t = rs_handled s \<and> rs_nc t = rs_nc s \<and> rs_close t j = CloseReturned True"
    using assms(4)
  proof cases
    case redis_internal
    then show ?thesis using redis_work_handled assms(3) by metis
  next
    case (redis_message k payload)
    then show ?thesis using r [of k] by (auto simp: receiveMsg_def split: if_splits)
  next
    case (redis_subscribe k)
    then show ?thesis using assms(3) by (auto simp: subscribeStart_def split: if_splits)
  next
    case (redis_close i)
    then show ?thesis using assms(3) by (auto simp: closeStart_def split: if_splits)
  qed (use assms(3) in simp_all)
  then show "rs_handled t = rs_handled s" "rs_nc t = rs_nc s" "rs_close t j = CloseReturned True" by simp_all
qed

lemma closed_handles_nothing_later:
  assumes "(redis_step env)\<^sup>*\<^sup>* s t" and "redis_inv s" and "j < rs_nc s" and "rs_close s j = CloseReturned True"
  shows "rs_handled t = rs_handled s"
proof -
  have "redis_inv t \<and> rs_nc t = rs_nc s \<and> rs_close t j = CloseReturned True \<and> rs_handled t = rs_handled s"
    using assms
  proof (induction rule: rtranclp_induct)
    case (step t u)
    then have t: "redis_inv t" "j < rs_nc t" "rs_close t j = CloseReturned True" "rs_handled t = rs_handled s" "rs_nc t = rs_nc s"
      by simp_all
    show ?case using closed_handles_nothing [OF t(1-3) step(2)] redis_step_inv [OF t(1) step(2)] t(4,5) by simp
  qed simp
  then show ?thesis by simp
qed

text \<open>C26: The Redis adapter leaves no goroutine behind. For any number of concurrent \<open>Subscribe\<close> and \<open>Close\<close>
  calls, failing confirmations, cancelled contexts and incoming messages: the wait group never goes
  below zero; the goroutines never block each other, and when they have done their steps every call
  has returned and only the current subscription of an open adapter is alive; and once the \<open>Close\<close>
  that waited has returned, no goroutine is alive and no message is ever handed to the handler again.\<close>

theorem redis_close_quiesces:
  assumes "redis_ok env" and "reach redis_init (redis_step env) s"
  shows "0 \<le> rd_wg s \<and> (\<forall>n t. (redis_work env ^^ n) s t \<longrightarrow> n \<le> redisWork s) \<and>
    (\<forall>t. (redis_work env)\<^sup>*\<^sup>* s t \<and> \<not> (\<exists>u. redis_work env t u) \<longrightarrow> redis_settled t) \<and>
    (\<forall>j<rs_nc s. rs_close s j = CloseReturned True \<longrightarrow>
       (\<forall>k<rs_n s. alive (rs_watcher s k) = 0 \<and> alive (rs_receiver s k) = 0) \<and>
       (\<forall>t. (redis_step env)\<^sup>*\<^sup>* s t \<longrightarrow> rs_handled t = rs_handled s))"
proof -
  have inv: "redis_inv s" using assms(2) by (rule redis.reach_inv)
  have "0 \<le> rd_wg s"
    using inv reserved_nonneg by (auto simp: redis_inv_def wg_exact_def intro!: add_nonneg_nonneg sum_nonneg)
  moreover have "n \<le> redisWork s" if "(redis_work env ^^ n) s t" for n t
    using redis.internal_bound [OF assms(2) that] by simp
  moreover have "redis_settled t" if "(redis_work env)\<^sup>*\<^sup>* s t \<and> \<not> (\<exists>u. redis_work env t u)" for t
    using redis.settles [OF assms(2)] that assms(1) by blast
  ultimately show ?thesis using closed_down [OF inv] closed_handles_nothing_later [OF _ inv] by blast
qed

text \<open>A second subscription replaces the first, a message arrives, and the adapter is closed.\<close>

definition exampleRedis :: redisEnv where
  "exampleRedis = \<lparr>re_receive = (\<lambda>_. None), re_chanClosed = (\<lambda>b. b), re_publish = (\<lambda>_ _. None),
     re_marshal = (\<lambda>m. Inr (am_Data m)), re_unmarshal = (\<lambda>d. Inr (zeroAdapterMessage\<lparr>am_Data := d\<rparr>))\<rparr>"

definition replaceAndClose :: "(redisSys \<Rightarrow> redisSys option) list" where
  "replaceAndClose = [subscribeStart 0, subscribeStep exampleRedis 0, subscribeStart 1, receiveMsg exampleRedis 0 ''x'',
     subscribeStep exampleRedis 1, subscribeStep exampleRedis 1, closeStart 0, closeStep 0, watcherStep 0, watcherStep 1,
     receiverStep exampleRedis 0, receiverStep exampleRedis 1, watcherStep 0, watcherStep 1,
     receiverStep exampleRedis 0, receiverStep exampleRedis 1, closeStep 0]"

theorem redis_close_quiesces_witness:
  "\<exists>s. runMoves replaceAndClose (redisSysOf (New []) 2 1) = Some s \<and> rs_close s 0 = CloseReturned True \<and>
     length (rs_handled s) = 1 \<and> alive (rs_receiver s 0) = 0 \<and>
     (\<forall>t. (redis_step exampleRedis)\<^sup>*\<^sup>* s t \<longrightarrow> length (rs_handled t) = 1)"
proof -
  have init: "reach redis_init (redis_step exampleRedis) (redisSysOf (New []) 2 1)"
    by (rule reach_start) (force simp: redis_init_def)
  have moves: "\<forall>f\<in>set replaceAndClose. \<forall>u v. f u = Some v \<longrightarrow> redis_step exampleRedis u v"
    by (auto simp: replaceAndClose_def intro: redis_step.intros redis_work.intros)
  obtain s where s: "runMoves replaceAndClose (redisSysOf (New []) 2 1) = Some s" "rs_close s 0 = CloseReturned True"
    "length (rs_handled s) = 1" "rs_n s = 2" "rs_nc s = 1"
    by (simp add: replaceAndClose_def redisSysOf_def New_def redisAdapter.defs redisSys.defs subscribeStart_def
        subscribeStep_def watcherStep_def receiverStep_def receiveMsg_def closeStart_def closeStep_def exampleRedis_def
        at_call_def cancelCtx_def at_close_def)
  have "redis_ok exampleRedis" by (simp add: redis_ok_def exampleRedis_def)
  then have q: "\<forall>j<rs_nc s. rs_close s j = CloseReturned True \<longrightarrow>
       (\<forall>k<rs_n s. alive (rs_watcher s k) = 0 \<and> alive (rs_receiver s k) = 0) \<and>
       (\<forall>t. (redis_step exampleRedis)\<^sup>*\<^sup>* s t \<longrightarrow> rs_handled t = rs_handled s)"
    by (rule redis_close_quiesces [OF _ runMoves_reach [OF init s(1) moves], THEN conjunct2, THEN conjunct2, THEN conjunct2])
  have nc: "0 < rs_nc s" using s(5) by simp
  have d: "\<forall>k<rs_n s. alive (rs_watcher s k) = 0 \<and> alive (rs_receiver s k) = 0"
    "(redis_step exampleRedis)\<^sup>*\<^sup>* s t \<Longrightarrow> rs_handled t = rs_handled s" for t
    using q [THEN spec, THEN mp, OF nc, THEN mp, OF s(2)] by blast+
  have "alive (rs_receiver s 0) = 0" using d(1) s(4) by simp
  moreover have "length (rs_handled t) = 1" if "(redis_step exampleRedis)\<^sup>*\<^sup>* s t" for t
    using s(3) by (simp only: d(2) [OF that])
  ultimately show ?thesis using s(1-3) by blast
qed

subsection \<open>What arrives is what was published\<close>

text \<open>A published message that decodes back is handed to the handler of a running subscription as it
  was sent; a payload that does not decode is skipped and the loop goes on.\<close>

lemma redis_roundtrip:
  assumes "redisPublish env msg a = None" and "\<And>m d. re_marshal env m = Inr d \<Longrightarrow> re_unmarshal env d = Inr m"
    and "k < rs_n s" and "rs_receiver s k = GRunning"
  shows "\<exists>d t. re_marshal env msg = Inr d \<and> receiveMsg env k d s = Some t \<and> rs_handled t = rs_handled s @ [msg]"
proof -
  obtain d where "re_marshal env msg = Inr d"
    using assms(1) by (auto simp: redisPublish_def split: if_splits sum.splits)
  with assms(2) [OF this] assms(3,4) show ?thesis by (simp add: receiveMsg_def)
qed

end
