(* ===== verification/Ws_Nats.thy ===== *)
theory Ws_Nats
  imports Ws_Adapter
begin

section \<open>The NATS adapter (adapter/nats/nats.go)\<close>

text \<open>
  Concurrent \<open>Subscribe\<close> and \<open>Close\<close> calls on one adapter. A call to \<open>Subscribe\<close> takes the current
  subscription out of the adapter, releases and drains it, subscribes without the lock, and installs
  the result only if nobody else has started to subscribe or closed the adapter meanwhile; a watcher
  goroutine per subscription waits for the context or for its release. The \<open>k\<close>-th call makes
  subscription \<open>k\<close>. A step is a critical section, a channel operation, or one call into NATS.

  The NATS client and the JSON encoding are arguments, in \<open>natsEnv\<close>: whether \<open>conn.Subscribe\<close> fails, and
  the answers of \<open>Drain\<close> and \<open>Publish\<close>. The generation counter is an unbounded number here; the
  code's \<open>uint64\<close> would wrap after \<open>2^64\<close> calls. \<open>ns_drained\<close> counts the calls of \<open>Drain\<close> for each
  subscription.
\<close>

datatype natsErr = NatsClosed | NatsErr string

record natsEnv =
  ne_subscribe :: "nat \<Rightarrow> string option"
  ne_drain :: "nat \<Rightarrow> string option"
  ne_publish :: "string \<Rightarrow> bytes \<Rightarrow> string option"
  ne_marshal :: "AdapterMessage \<Rightarrow> string + bytes"
  ne_unmarshal :: "bytes \<Rightarrow> string + AdapterMessage"

datatype natsPc = NIdle | NRelease nat | NAwait nat | NDrainPrev nat | NConn | NInstall
  | NDiscard "natsErr option" | NReturned "natsErr option"

datatype watchPc = VNone | VWaiting | VDraining | VLeaving | VClosing | VExited

datatype natsClosePc = KIdle | KRelease nat | KAwait nat | KDrain nat | KReturned "natsErr option"

record natsAdapter =
  na_subject :: string
  na_unmarshalErrorHandler :: bool
  na_cur :: "nat option"
  na_closed :: bool
  na_gen :: nat
  na_watchers :: int

record natsSys = natsAdapter +
  ns_n :: nat
  ns_calls :: "nat \<Rightarrow> natsPc"
  ns_myGen :: "nat \<Rightarrow> nat"
  ns_live :: "nat \<Rightarrow> bool"
  ns_stop :: "nat \<Rightarrow> bool"
  ns_done :: "nat \<Rightarrow> bool"
  ns_drainOnce :: "nat \<Rightarrow> bool"
  ns_drained :: "nat \<Rightarrow> nat"
  ns_ctxDone :: "nat \<Rightarrow> bool"
  ns_watcher :: "nat \<Rightarrow> watchPc"
  ns_nc :: nat
  ns_close :: "nat \<Rightarrow> natsClosePc"

subsection \<open>Construction, publishing, receiving\<close>

definition WithSubject :: "string \<Rightarrow> natsAdapter \<Rightarrow> natsAdapter" where
  "WithSubject subject a = (if subject \<noteq> '''' then a\<lparr>na_subject := subject\<rparr> else a)"

definition natsErrorHandler :: "bool \<Rightarrow> natsAdapter \<Rightarrow> natsAdapter" where
  "natsErrorHandler handler a = a\<lparr>na_unmarshalErrorHandler := handler\<rparr>"

definition natsNew :: "(natsAdapter \<Rightarrow> natsAdapter) list \<Rightarrow> natsAdapter" where
  "natsNew opts = fold (\<lambda>opt. opt) opts \<lparr>na_subject = ''wshub.messages'', na_unmarshalErrorHandler = False,
     na_cur = None, na_closed = False, na_gen = 0, na_watchers = 0\<rparr>"

text \<open>\<open>ctxErr\<close> is the answer of \<open>ctx.Err()\<close>.\<close>

definition natsPublish :: "natsEnv \<Rightarrow> string option \<Rightarrow> AdapterMessage \<Rightarrow> 'a natsAdapter_scheme \<Rightarrow> natsErr option" where
  "natsPublish env ctxErr msg a =
     (if na_closed a then Some NatsClosed
      else case ctxErr of
             Some err \<Rightarrow> Some (NatsErr err)
           | None \<Rightarrow> (case ne_marshal env msg of
                 Inl err \<Rightarrow> Some (NatsErr err)
               | Inr data \<Rightarrow> map_option NatsErr (ne_publish env (na_subject a) data)))"

text \<open>The callback given to \<open>conn.Subscribe\<close>: the messages handed to the handler and the payloads
  handed to the error handler.\<close>

definition natsReceive :: "natsEnv \<Rightarrow> bytes \<Rightarrow> 'a natsAdapter_scheme \<Rightarrow> AdapterMessage list \<times> bytes list" where
  "natsReceive env data a = (case ne_unmarshal env data of
       Inl _ \<Rightarrow> ([], if na_unmarshalErrorHandler a then [data] else [])
     | Inr am \<Rightarrow> ([am], []))"

subsection \<open>Subscriptions\<close>

definition nats_call :: "nat \<Rightarrow> natsPc \<Rightarrow> natsSys \<Rightarrow> natsSys" where
  "nats_call k pc s = s\<lparr>ns_calls := (ns_calls s)(k := pc)\<rparr>"

definition nats_close :: "nat \<Rightarrow> natsClosePc \<Rightarrow> natsSys \<Rightarrow> natsSys" where
  "nats_close j pc s = s\<lparr>ns_close := (ns_close s)(j := pc)\<rparr>"

definition nats_watch :: "nat \<Rightarrow> watchPc \<Rightarrow> natsSys \<Rightarrow> natsSys" where
  "nats_watch k pc s = s\<lparr>ns_watcher := (ns_watcher s)(k := pc)\<rparr>"

text \<open>The two halves of \<open>release\<close>: \<open>stopOnce.Do(close(stop))\<close>, then the receive from \<open>done\<close>; and \<open>drain\<close>.\<close>

definition release :: "nat \<Rightarrow> natsSys \<Rightarrow> natsSys" where
  "release k s = s\<lparr>ns_stop := (ns_stop s)(k := True)\<rparr>"

definition drain :: "nat \<Rightarrow> natsSys \<Rightarrow> natsSys" where
  "drain k s = (if ns_drainOnce s k then s
     else s\<lparr>ns_drainOnce := (ns_drainOnce s)(k := True), ns_drained := (ns_drained s)(k := ns_drained s k + 1)\<rparr>)"

definition natsSubscribe :: "nat \<Rightarrow> natsSys \<Rightarrow> natsSys option" where
  "natsSubscribe k s =
     (if k < ns_n s \<and> ns_calls s k = NIdle
      then Some (if na_closed s then nats_call k (NReturned (Some NatsClosed)) s
                 else nats_call k (case na_cur s of None \<Rightarrow> NConn | Some prev \<Rightarrow> NRelease prev)
                        (s\<lparr>na_gen := na_gen s + 1, ns_myGen := (ns_myGen s)(k := na_gen s + 1), na_cur := None\<rparr>))
      else None)"

definition natsSubscribeStep :: "natsEnv \<Rightarrow> nat \<Rightarrow> natsSys \<Rightarrow> natsSys option" where
  "natsSubscribeStep env k s = (if ns_n s \<le> k then None else case ns_calls s k of
       NRelease prev \<Rightarrow> Some (nats_call k (NAwait prev) (release prev s))
     | NAwait prev \<Rightarrow> if ns_done s prev then Some (nats_call k (NDrainPrev prev) s) else None
     | NDrainPrev prev \<Rightarrow> Some (nats_call k NConn (drain prev s))
     | NConn \<Rightarrow> Some (case ne_subscribe env k of
           Some err \<Rightarrow> nats_call k (NReturned (Some (NatsErr err))) s
         | None \<Rightarrow> (nats_call k NInstall s)\<lparr>ns_live := (ns_live s)(k := True)\<rparr>)
     | NInstall \<Rightarrow> Some (if na_closed s then nats_call k (NDiscard (Some NatsClosed)) s
         else if na_gen s \<noteq> ns_myGen s k then nats_call k (NDiscard (map_option NatsErr (ne_drain env k))) s
         else nats_watch k VWaiting (nats_call k (NReturned None) (s\<lparr>na_cur := Some k, na_watchers := na_watchers s + 1\<rparr>)))
     | NDiscard res \<Rightarrow> Some (nats_call k (NReturned res) (drain k s))
     | _ \<Rightarrow> None)"

text \<open>The watcher: \<open>select\<close>, \<open>drain\<close> on a cancelled context, then the two deferred calls.\<close>

definition natsWatcher :: "nat \<Rightarrow> natsSys \<Rightarrow> natsSys option" where
  "natsWatcher k s = (if ns_n s \<le> k then None else case ns_watcher s k of
       VWaiting \<Rightarrow> if ns_ctxDone s k then Some (nats_watch k VDraining s)
         else if ns_stop s k then Some (nats_watch k VLeaving s) else None
     | VDraining \<Rightarrow> Some (nats_watch k VLeaving (drain k s))
     | VLeaving \<Rightarrow> Some (nats_watch k VClosing (s\<lparr>na_watchers := na_watchers s - 1\<rparr>))
     | VClosing \<Rightarrow> Some (nats_watch k VExited (s\<lparr>ns_done := (ns_done s)(k := True)\<rparr>))
     | _ \<Rightarrow> None)"

text \<open>When both channels of the \<open>select\<close> are ready Go may take the second case.\<close>

definition natsWatcherStop :: "nat \<Rightarrow> natsSys \<Rightarrow> natsSys option" where
  "natsWatcherStop k s =
     (if k < ns_n s \<and> ns_watcher s k = VWaiting \<and> ns_stop s k then Some (nats_watch k VLeaving s) else None)"

definition natsClose :: "nat \<Rightarrow> natsSys \<Rightarrow> natsSys option" where
  "natsClose j s =
     (if j < ns_nc s \<and> ns_close s j = KIdle
      then Some (if na_closed s then nats_close j (KReturned None) s
                 else nats_close j (case na_cur s of None \<Rightarrow> KReturned None | Some cur \<Rightarrow> KRelease cur)
                        (s\<lparr>na_closed := True, na_cur := None\<rparr>))
      else None)"

definition natsCloseStep :: "natsEnv \<Rightarrow> nat \<Rightarrow> natsSys \<Rightarrow> natsSys option" where
  "natsCloseStep env j s = (if ns_nc s \<le> j then None else case ns_close s j of
       KRelease cur \<Rightarrow> Some (nats_close j (KAwait cur) (release cur s))
     | KAwait cur \<Rightarrow> if ns_done s cur then Some (nats_close j (KDrain cur) s) else None
     | KDrain cur \<Rightarrow> Some (nats_close j (KReturned (map_option NatsErr (ne_drain env cur))) (drain cur s))
     | _ \<Rightarrow> None)"

inductive nats_work :: "natsEnv \<Rightarrow> natsSys \<Rightarrow> natsSys \<Rightarrow> bool" for env where
  nats_subscribes: "natsSubscribeStep env k s = Some t \<Longrightarrow> nats_work env s t"
| nats_watches: "natsWatcher k s = Some t \<Longrightarrow> nats_work env s t"
| nats_stops: "natsWatcherStop k s = Some t \<Longrightarrow> nats_work env s t"
| nats_closes: "natsCloseStep env j s = Some t \<Longrightarrow> nats_work env s t"

inductive nats_step :: "natsEnv \<Rightarrow> natsSys \<Rightarrow> natsSys \<Rightarrow> bool" for env where
  nats_internal: "nats_work env s t \<Longrightarrow> nats_step env s t"
| nats_subscribe: "natsSubscribe k s = Some t \<Longrightarrow> nats_step env s t"
| nats_cancel: "nats_step env s (s\<lparr>ns_ctxDone := (ns_ctxDone s)(k := True)\<rparr>)"
| nats_closed: "natsClose j s = Some t \<Longrightarrow> nats_step env s t"

definition natsSysOf :: "natsAdapter \<Rightarrow> nat \<Rightarrow> nat \<Rightarrow> natsSys" where
  "natsSysOf a n m = natsAdapter.extend a
     (natsSys.fields n (\<lambda>_. NIdle) (\<lambda>_. 0) (\<lambda>_. False) (\<lambda>_. False) (\<lambda>_. False) (\<lambda>_. False) (\<lambda>_. 0) (\<lambda>_. False)
        (\<lambda>_. VNone) m (\<lambda>_. KIdle))"

definition nats_init :: "natsSys \<Rightarrow> bool" where
  "nats_init s \<longleftrightarrow> (\<exists>opts n m. s = natsSysOf (natsNew opts) n m \<and> set opts \<subseteq> range WithSubject \<union> range natsErrorHandler)"

lemma nats_frame [simp]:
  "na_cur (nats_call k pc s) = na_cur s" "na_closed (nats_call k pc s) = na_closed s"
  "na_gen (nats_call k pc s) = na_gen s" "na_watchers (nats_call k pc s) = na_watchers s"
  "ns_n (nats_call k pc s) = ns_n s" "ns_calls (nats_call k pc s) = (ns_calls s)(k := pc)"
  "ns_myGen (nats_call k pc s) = ns_myGen s" "ns_live (nats_call k pc s) = ns_live s"
  "ns_stop (nats_call k pc s) = ns_stop s" "ns_done (nats_call k pc s) = ns_done s"
  "ns_ctxDone (nats_call k pc s) = ns_ctxDone s" "ns_watcher (nats_call k pc s) = ns_watcher s"
  "ns_nc (nats_call k pc s) = ns_nc s" "ns_close (nats_call k pc s) = ns_close s"
  "ns_drainOnce (nats_call k pc s) = ns_drainOnce s" "ns_drained (nats_call k pc s) = ns_drained s"
  "na_cur (nats_close j q s) = na_cur s" "na_closed (nats_close j q s) = na_closed s"
  "na_gen (nats_close j q s) = na_gen s" "na_watchers (nats_close j q s) = na_watchers s"
  "ns_n (nats_close j q s) = ns_n s" "ns_calls (nats_close j q s) = ns_calls s"
  "ns_myGen (nats_close j q s) = ns_myGen s" "ns_live (nats_close j q s) = ns_live s"
  "ns_stop (nats_close j q s) = ns_stop s" "ns_done (nats_close j q s) = ns_done s"
  "ns_ctxDone (nats_close j q s) = ns_ctxDone s" "ns_watcher (nats_close j q s) = ns_watcher s"
  "ns_nc (nats_close j q s) = ns_nc s" "ns_close (nats_close j q s) = (ns_close s)(j := q)"
  "ns_drainOnce (nats_close j q s) = ns_drainOnce s" "ns_drained (nats_close j q s) = ns_drained s"
  "na_cur (nats_watch k v s) = na_cur s" "na_closed (nats_watch k v s) = na_closed s"
  "na_gen (nats_watch k v s) = na_gen s" "na_watchers (nats_watch k v s) = na_watchers s"
  "ns_n (nats_watch k v s) = ns_n s" "ns_calls (nats_watch k v s) = ns_calls s"
  "ns_myGen (nats_watch k v s) = ns_myGen s" "ns_live (nats_watch k v s) = ns_live s"
  "ns_stop (nats_watch k v s) = ns_stop s" "ns_done (nats_watch k v s) = ns_done s"
  "ns_ctxDone (nats_watch k v s) = ns_ctxDone s" "ns_watcher (nats_watch k v s) = (ns_watcher s)(k := v)"
  "ns_nc (nats_watch k v s) = ns_nc s" "ns_close (nats_watch k v s) = ns_close s"
  "ns_drainOnce (nats_watch k v s) = ns_drainOnce s" "ns_drained (nats_watch k v s) = ns_drained s"
  "na_cur (release k s) = na_cur s" "na_closed (release k s) = na_closed s" "na_gen (release k s) = na_gen s"
  "na_watchers (release k s) = na_watchers s" "ns_n (release k s) = ns_n s"
  "ns_calls (release k s) = ns_calls s" "ns_myGen (release k s) = ns_myGen s"
  "ns_live (release k s) = ns_live s" "ns_stop (release k s) = (ns_stop s)(k := True)"
  "ns_done (release k s) = ns_done s" "ns_ctxDone (release k s) = ns_ctxDone s"
  "ns_watcher (release k s) = ns_watcher s" "ns_nc (release k s) = ns_nc s"
  "ns_close (release k s) = ns_close s" "ns_drainOnce (release k s) = ns_drainOnce s"
  "ns_drained (release k s) = ns_drained s" "na_cur (drain k s) = na_cur s"
  "na_closed (drain k s) = na_closed s" "na_gen (drain k s) = na_gen s"
  "na_watchers (drain k s) = na_watchers s" "ns_n (drain k s) = ns_n s" "ns_calls (drain k s) = ns_calls s"
  "ns_myGen (drain k s) = ns_myGen s" "ns_live (drain k s) = ns_live s" "ns_stop (drain k s) = ns_stop s"
  "ns_done (drain k s) = ns_done s" "ns_ctxDone (drain k s) = ns_ctxDone s"
  "ns_watcher (drain k s) = ns_watcher s" "ns_nc (drain k s) = ns_nc s" "ns_close (drain k s) = ns_close s"
  "ns_drainOnce (drain k s) = (ns_drainOnce s)(k := True)"
  by (auto simp: nats_call_def nats_close_def nats_watch_def release_def drain_def fun_eq_iff)


subsection \<open>The invariant\<close>

text \<open>Which subscription a call is releasing or about to drain.\<close>

fun relN :: "natsPc \<Rightarrow> nat option" where
  "relN (NRelease k) = Some k"
| "relN (NAwait k) = Some k"
| "relN _ = None"

fun finN :: "natsPc \<Rightarrow> nat option" where
  "finN (NDrainPrev k) = Some k"
| "finN _ = None"

fun relK :: "natsClosePc \<Rightarrow> nat option" where
  "relK (KRelease k) = Some k"
| "relK (KAwait k) = Some k"
| "relK _ = None"

fun finK :: "natsClosePc \<Rightarrow> nat option" where
  "finK (KDrain k) = Some k"
| "finK _ = None"

definition somebody :: "(natsPc \<Rightarrow> nat option) \<Rightarrow> (natsClosePc \<Rightarrow> nat option) \<Rightarrow> natsSys \<Rightarrow> nat \<Rightarrow> bool" where
  "somebody f g s k \<longleftrightarrow> (\<exists>m<ns_n s. f (ns_calls s m) = Some k) \<or> (\<exists>j<ns_nc s. g (ns_close s j) = Some k)"

abbreviation releasing :: "natsSys \<Rightarrow> nat \<Rightarrow> bool" where "releasing \<equiv> somebody relN relK"
abbreviation finishing :: "natsSys \<Rightarrow> nat \<Rightarrow> bool" where "finishing \<equiv> somebody finN finK"

text \<open>A subscription that NATS delivers to and that has not been drained has an owner who will drain it,
  and a watcher that has not exited is the current one or is being released.\<close>

definition sub_ok :: "natsSys \<Rightarrow> nat \<Rightarrow> bool" where
  "sub_ok s k \<longleftrightarrow> (ns_done s k \<longleftrightarrow> ns_watcher s k = VExited) \<and>
     ns_drained s k = (if ns_drainOnce s k then 1 else 0) \<and>
     (ns_watcher s k \<noteq> VNone \<longrightarrow> ns_calls s k = NReturned None \<and> k < ns_n s) \<and>
     (ns_watcher s k \<notin> {VNone, VExited} \<longrightarrow> na_cur s = Some k \<or> releasing s k) \<and>
     (ns_live s k \<and> \<not> ns_drainOnce s k \<longrightarrow> na_cur s = Some k \<or> releasing s k \<or> finishing s k \<or>
        ns_calls s k = NInstall \<or> (\<exists>r. ns_calls s k = NDiscard r)) \<and>
     (ns_live s k \<longrightarrow> ns_calls s k = NInstall \<or> (\<exists>r. ns_calls s k = NDiscard r) \<or> (\<exists>r. ns_calls s k = NReturned r))"

definition call_ok :: "natsSys \<Rightarrow> natsPc \<Rightarrow> bool" where
  "call_ok s pc \<longleftrightarrow> (case pc of NRelease k \<Rightarrow> ns_watcher s k \<noteq> VNone
     | NAwait k \<Rightarrow> ns_watcher s k \<noteq> VNone \<and> ns_stop s k | NDrainPrev k \<Rightarrow> ns_watcher s k = VExited | _ \<Rightarrow> True)"

definition close_ok :: "natsSys \<Rightarrow> natsClosePc \<Rightarrow> bool" where
  "close_ok s pc \<longleftrightarrow> (case pc of KRelease k \<Rightarrow> ns_watcher s k \<noteq> VNone
     | KAwait k \<Rightarrow> ns_watcher s k \<noteq> VNone \<and> ns_stop s k | KDrain k \<Rightarrow> ns_watcher s k = VExited | _ \<Rightarrow> True)"

fun underway :: "natsPc \<Rightarrow> bool" where
  "underway NIdle = False"
| "underway (NReturned r) = False"
| "underway (NDiscard r) = False"
| "underway _ = True"

text \<open>Generations: the calls that have started have different ones, none above the adapter's, and the
  current subscription has the adapter's.\<close>

definition gen_ok :: "natsSys \<Rightarrow> bool" where
  "gen_ok s \<longleftrightarrow> (\<forall>k. ns_myGen s k \<le> na_gen s) \<and> (\<forall>k k'. ns_myGen s k = ns_myGen s k' \<longrightarrow> ns_myGen s k = 0 \<or> k = k') \<and>
     (\<forall>k. underway (ns_calls s k) \<longrightarrow> 0 < ns_myGen s k) \<and> (\<forall>k. ns_calls s k = NIdle \<longrightarrow> ns_myGen s k = 0) \<and>
     (\<forall>p. na_cur s = Some p \<longrightarrow> ns_watcher s p \<noteq> VNone \<and> ns_myGen s p = na_gen s \<and> 0 < na_gen s \<and> \<not> na_closed s)"

fun watching :: "watchPc \<Rightarrow> int" where
  "watching VWaiting = 1"
| "watching VDraining = 1"
| "watching VLeaving = 1"
| "watching _ = 0"

definition nats_inv :: "natsSys \<Rightarrow> bool" where
  "nats_inv s \<longleftrightarrow> (\<forall>k. sub_ok s k) \<and> (\<forall>m<ns_n s. call_ok s (ns_calls s m)) \<and> (\<forall>j<ns_nc s. close_ok s (ns_close s j)) \<and>
     gen_ok s \<and> na_watchers s = (\<Sum>k<ns_n s. watching (ns_watcher s k))"

lemma nats_invD:
  assumes "nats_inv s"
  shows "sub_ok s k" "m < ns_n s \<Longrightarrow> call_ok s (ns_calls s m)" "j < ns_nc s \<Longrightarrow> close_ok s (ns_close s j)"
    "gen_ok s" "na_watchers s = (\<Sum>k<ns_n s. watching (ns_watcher s k))"
  using assms by (simp_all add: nats_inv_def)

lemma nats_init_inv: "nats_init s \<Longrightarrow> nats_inv s"
proof -
  assume "nats_init s"
  then obtain opts n m where s: "s = natsSysOf (natsNew opts) n m"
    and o: "set opts \<subseteq> range WithSubject \<union> range natsErrorHandler" by (auto simp: nats_init_def)
  have "na_cur (fold (\<lambda>opt. opt) opts a) = na_cur a \<and> na_watchers (fold (\<lambda>opt. opt) opts a) = na_watchers a" for a
    using o
  proof (induction opts arbitrary: a)
    case (Cons opt opts)
    then have "na_cur (opt a) = na_cur a \<and> na_watchers (opt a) = na_watchers a"
      by (auto simp: WithSubject_def natsErrorHandler_def split: if_splits)
    with Cons show ?case by simp
  qed simp
  then have "na_cur (natsNew opts) = None" "na_watchers (natsNew opts) = 0" by (simp_all add: natsNew_def)
  then show ?thesis
    by (simp add: s natsSysOf_def nats_inv_def sub_ok_def call_ok_def close_ok_def gen_ok_def natsAdapter.defs natsSys.defs)
qed

lemma somebody_frame [simp]:
  "somebody f g (nats_watch k v s) = somebody f g s" "somebody f g (release k s) = somebody f g s"
  "somebody f g (drain k s) = somebody f g s" "somebody f g (s\<lparr>na_cur := a\<rparr>) = somebody f g s"
  "somebody f g (s\<lparr>na_watchers := b\<rparr>) = somebody f g s" "somebody f g (s\<lparr>ns_done := d\<rparr>) = somebody f g s"
  "somebody f g (s\<lparr>ns_live := l\<rparr>) = somebody f g s" "somebody f g (s\<lparr>na_closed := c\<rparr>) = somebody f g s"
  "somebody f g (s\<lparr>na_gen := x\<rparr>) = somebody f g s" "somebody f g (s\<lparr>ns_myGen := y\<rparr>) = somebody f g s"
  "somebody f g (s\<lparr>ns_ctxDone := z\<rparr>) = somebody f g s"
  by (simp_all add: somebody_def fun_eq_iff)

lemma somebody_keep: "somebody f g s k \<Longrightarrow> f (ns_calls s m) \<noteq> Some k \<Longrightarrow> somebody f g (nats_call m pc s) k"
  by (auto simp: somebody_def)

lemma somebody_new: "m < ns_n s \<Longrightarrow> f pc = Some k \<Longrightarrow> somebody f g (nats_call m pc s) k"
  by (auto simp: somebody_def)

lemma somebody_keepK: "somebody f g s k \<Longrightarrow> g (ns_close s j) \<noteq> Some k \<Longrightarrow> somebody f g (nats_close j q s) k"
  by (auto simp: somebody_def)

lemma somebody_newK: "j < ns_nc s \<Longrightarrow> g q = Some k \<Longrightarrow> somebody f g (nats_close j q s) k"
  by (auto simp: somebody_def)

lemma drain_count: "sub_ok s k \<Longrightarrow> ns_drained (drain m s) k = (if ns_drainOnce (drain m s) k then 1 else 0)"
proof -
  assume "sub_ok s k"
  then have "ns_drained s k = (if ns_drainOnce s k then 1 else 0)" by (simp add: sub_ok_def)
  then show ?thesis by (auto simp: drain_def)
qed

lemma call_ok_frame [simp]:
  "call_ok (nats_call k pc s) = call_ok s" "call_ok (nats_close j q s) = call_ok s" "call_ok (drain k s) = call_ok s"
  "close_ok (nats_call k pc s) = close_ok s" "close_ok (nats_close j q s) = close_ok s" "close_ok (drain k s) = close_ok s"
  "call_ok (s\<lparr>na_cur := a\<rparr>) = call_ok s" "call_ok (s\<lparr>na_watchers := b\<rparr>) = call_ok s" "call_ok (s\<lparr>ns_done := d\<rparr>) = call_ok s"
  "call_ok (s\<lparr>ns_live := l\<rparr>) = call_ok s" "call_ok (s\<lparr>na_closed := c\<rparr>) = call_ok s" "call_ok (s\<lparr>na_gen := x\<rparr>) = call_ok s"
  "call_ok (s\<lparr>ns_myGen := y\<rparr>) = call_ok s" "close_ok (s\<lparr>na_cur := a\<rparr>) = close_ok s"
  "close_ok (s\<lparr>na_watchers := b\<rparr>) = close_ok s" "close_ok (s\<lparr>ns_done := d\<rparr>) = close_ok s"
  "close_ok (s\<lparr>ns_live := l\<rparr>) = close_ok s" "close_ok (s\<lparr>na_closed := c\<rparr>) = close_ok s"
  "close_ok (s\<lparr>na_gen := x\<rparr>) = close_ok s" "close_ok (s\<lparr>ns_myGen := y\<rparr>) = close_ok s"
  "call_ok (s\<lparr>ns_ctxDone := z\<rparr>) = call_ok s" "close_ok (s\<lparr>ns_ctxDone := z\<rparr>) = close_ok s"
  by (rule ext, simp add: call_ok_def close_ok_def split: natsPc.split natsClosePc.split)+

lemma call_ok_release: "call_ok s pc \<Longrightarrow> call_ok (release k s) pc" "close_ok s q \<Longrightarrow> close_ok (release k s) q"
  by (auto simp: call_ok_def close_ok_def split: natsPc.splits natsClosePc.splits)

text \<open>A watcher that moves without starting anew or coming back from its exit.\<close>

lemma call_ok_watch:
  assumes "ns_watcher s k \<noteq> VExited" and "v \<noteq> VNone"
  shows "call_ok s pc \<Longrightarrow> call_ok (nats_watch k v s) pc" "close_ok s q \<Longrightarrow> close_ok (nats_watch k v s) q"
  using assms by (auto simp: call_ok_def close_ok_def split: natsPc.splits natsClosePc.splits)

text \<open>Moving a call that has no watcher yet, when nothing else changes.\<close>

lemma call_moves:
  assumes inv: "nats_inv s" and m: "m < ns_n s" and w: "ns_watcher s m = VNone" and pc: "call_ok s pc"
    and u: "underway pc \<Longrightarrow> underway (ns_calls s m)" "pc \<noteq> NIdle"
    and keep: "\<And>k. relN (ns_calls s m) = Some k \<Longrightarrow> relN pc = Some k \<or> ns_watcher s k = VExited \<and> finN pc = Some k"
      "\<And>k. finN (ns_calls s m) = Some k \<Longrightarrow> finN pc = Some k \<or> ns_drainOnce s k"
      "ns_live s m \<Longrightarrow> pc = NInstall \<or> (\<exists>r. pc = NDiscard r) \<or> ns_drainOnce s m \<and> (\<exists>r. pc = NReturned r)"
  shows "nats_inv (nats_call m pc s)"
proof -
  let ?t = "nats_call m pc s"
  have rel: "releasing ?t k \<or> ns_watcher s k = VExited \<and> finishing ?t k" if "releasing s k" for k
    using that keep(1) [of k] m somebody_keep [of relN relK s k m pc] somebody_new [of m s relN pc k relK]
      somebody_new [of m s finN pc k finK] by blast
  have fin: "finishing ?t k \<or> ns_drainOnce s k" if "finishing s k" for k
    using that keep(2) [of k] m somebody_keep [of finN finK s k m pc] somebody_new [of m s finN pc k finK] by blast
  have "sub_ok ?t k" for k
  proof (cases "k = m")
    case True
    then show ?thesis using nats_invD(1) [OF inv, of m] w keep(3) by (auto simp: sub_ok_def)
  next
    case False
    then show ?thesis using nats_invD(1) [OF inv, of k] rel [of k] fin [of k] by (auto simp: sub_ok_def)
  qed
  moreover have "gen_ok ?t" using nats_invD(4) [OF inv] u w by (auto simp: gen_ok_def)
  ultimately show ?thesis using inv m pc by (simp add: nats_inv_def)
qed

lemma natsSubscribe_inv:
  assumes inv: "nats_inv s" and st: "natsSubscribe k s = Some t"
  shows "nats_inv t"
proof -
  have k: "k < ns_n s" "ns_calls s k = NIdle" using st by (auto simp: natsSubscribe_def split: if_splits)
  then have w: "ns_watcher s k = VNone" "\<not> ns_live s k" using nats_invD(1) [OF inv, of k] by (auto simp: sub_ok_def)
  show ?thesis
  proof (cases "na_closed s")
    case True
    then have "t = nats_call k (NReturned (Some NatsClosed)) s" using st k by (simp add: natsSubscribe_def)
    then show ?thesis using call_moves [OF inv k(1) w(1), of "NReturned (Some NatsClosed)"] k w by (simp add: call_ok_def)
  next
    case False
    let ?pc = "case na_cur s of None \<Rightarrow> NConn | Some prev \<Rightarrow> NRelease prev"
    let ?s1 = "s\<lparr>na_gen := na_gen s + 1, ns_myGen := (ns_myGen s)(k := na_gen s + 1), na_cur := None\<rparr>"
    have t: "t = nats_call k ?pc ?s1" using st k False by (simp add: natsSubscribe_def)
    have g: "gen_ok s" using inv by (rule nats_invD)
    have r: "releasing t i" if "releasing s i \<or> na_cur s = Some i" for i
      using that k somebody_keep [of relN relK ?s1 i k ?pc] somebody_new [of k ?s1 relN ?pc i relK] by (auto simp: t)
    have f: "finishing t i" if "finishing s i" for i
      using that k somebody_keep [of finN finK ?s1 i k ?pc] by (simp add: t)
    have "sub_ok t i" for i
      using nats_invD(1) [OF inv, of i] r [of i] f [of i] k w by (auto simp: sub_ok_def t)
    moreover have "call_ok t ?pc" using g by (auto simp: t call_ok_def gen_ok_def split: option.split)
    moreover have "gen_ok t"
    proof -
      have "ns_myGen s i \<noteq> Suc (na_gen s)" "Suc (na_gen s) \<noteq> ns_myGen s i" for i
        using g by (metis Suc_n_not_le_n gen_ok_def)+
      moreover have "?pc \<noteq> NIdle" by (simp split: option.split)
      ultimately show ?thesis using g k by (auto simp: t gen_ok_def intro: le_SucI)
    qed
    ultimately show ?thesis using inv by (simp add: nats_inv_def t)
  qed
qed

lemma release_inv: "nats_inv s \<Longrightarrow> nats_inv (release k s)"
  by (simp add: nats_inv_def sub_ok_def gen_ok_def call_ok_release)

lemma drain_inv:
  assumes "nats_inv s"
  shows "nats_inv (drain k s)"
proof -
  have "sub_ok (drain k s) m" for m
    using nats_invD(1) [OF assms, of m] drain_count [OF nats_invD(1) [OF assms], of k m] by (simp add: sub_ok_def)
  with assms show ?thesis by (simp add: nats_inv_def gen_ok_def)
qed

lemma live_inv:
  assumes "nats_inv s" and "ns_calls s k = NInstall"
  shows "nats_inv (s\<lparr>ns_live := (ns_live s)(k := True)\<rparr>)"
proof -
  have "sub_ok (s\<lparr>ns_live := (ns_live s)(k := True)\<rparr>) m" for m
    using nats_invD(1) [OF assms(1), of m] assms(2) by (simp add: sub_ok_def)
  with assms show ?thesis by (simp add: nats_inv_def gen_ok_def)
qed

lemma install_inv:
  assumes inv: "nats_inv s" and k: "k < ns_n s" and pc: "ns_calls s k = NInstall" and o: "\<not> na_closed s" "na_gen s = ns_myGen s k"
  shows "nats_inv (nats_watch k VWaiting (nats_call k (NReturned None) (s\<lparr>na_cur := Some k, na_watchers := na_watchers s + 1\<rparr>)))"
    (is "nats_inv ?t")
proof -
  have w: "ns_watcher s k = VNone" using nats_invD(1) [OF inv, of k] pc by (auto simp: sub_ok_def)
  have g: "gen_ok s" using inv by (rule nats_invD)
  have pos: "0 < ns_myGen s k" using g pc by (simp add: gen_ok_def)
  have "na_cur s = None"
  proof (rule ccontr)
    assume "na_cur s \<noteq> None"
    then obtain p where p: "na_cur s = Some p" by blast
    then have "ns_watcher s p \<noteq> VNone" "ns_myGen s p = ns_myGen s k" using g o by (auto simp: gen_ok_def)
    then show False using g pos w by (metis gen_ok_def not_less_zero)
  qed
  moreover have "releasing s i \<Longrightarrow> releasing ?t i" "finishing s i \<Longrightarrow> finishing ?t i" for i
    using pc somebody_keep [of relN relK "s\<lparr>na_cur := Some k, na_watchers := na_watchers s + 1\<rparr>" i k "NReturned None"]
      somebody_keep [of finN finK "s\<lparr>na_cur := Some k, na_watchers := na_watchers s + 1\<rparr>" i k "NReturned None"] by simp_all
  ultimately have "sub_ok ?t i" for i
    using nats_invD(1) [OF inv, of i] w k by (cases "i = k") (auto simp: sub_ok_def)
  moreover have "call_ok ?t (ns_calls ?t m)" if "m < ns_n s" for m
    using call_ok_watch(1) [of "nats_call k (NReturned None) (s\<lparr>na_cur := Some k, na_watchers := na_watchers s + 1\<rparr>)" k VWaiting]
      w nats_invD(2) [OF inv that] by (cases "m = k") (simp_all, simp add: call_ok_def)
  moreover have "close_ok ?t (ns_close ?t j)" if "j < ns_nc s" for j
    using call_ok_watch(2) [of "nats_call k (NReturned None) (s\<lparr>na_cur := Some k, na_watchers := na_watchers s + 1\<rparr>)" k VWaiting]
      w nats_invD(3) [OF inv that] by simp
  moreover have "gen_ok ?t" using g o pos by (auto simp: gen_ok_def)
  moreover have "na_watchers ?t = (\<Sum>i<ns_n s. watching (ns_watcher ?t i))"
    using nats_invD(5) [OF inv] k w by (simp add: sum_upd_int del: fun_upd_apply)
  ultimately show ?thesis by (simp add: nats_inv_def)
qed

lemma natsSubscribeStep_inv:
  assumes inv: "nats_inv s" and st: "natsSubscribeStep env k s = Some t"
  shows "nats_inv t"
proof -
  have k: "k < ns_n s" using st by (simp add: natsSubscribeStep_def split: if_splits)
  have so: "sub_ok s k" and co: "call_ok s (ns_calls s k)" using nats_invD(1,2) [OF inv] k by simp_all
  have w: "ns_calls s k \<noteq> NReturned None \<Longrightarrow> ns_watcher s k = VNone" using so by (auto simp: sub_ok_def)
  show ?thesis
  proof (cases "ns_calls s k")
    case (NRelease p)
    then show ?thesis
      using st k w so co call_moves [OF release_inv [OF inv, of p], of k "NAwait p"]
      by (auto simp: natsSubscribeStep_def call_ok_def sub_ok_def)
  next
    case (NAwait p)
    then have "ns_watcher s p = VExited" "t = nats_call k (NDrainPrev p) s"
      using st k nats_invD(1) [OF inv, of p] by (auto simp: natsSubscribeStep_def sub_ok_def split: if_splits)
    then show ?thesis
      using NAwait k w so call_moves [OF inv k, of "NDrainPrev p"] by (auto simp: call_ok_def sub_ok_def)
  next
    case (NDrainPrev p)
    then show ?thesis
      using st k w so call_moves [OF drain_inv [OF inv, of p], of k NConn]
      by (auto simp: natsSubscribeStep_def call_ok_def sub_ok_def)
  next
    case NConn
    then have l: "\<not> ns_live s k" using so by (auto simp: sub_ok_def)
    have "nats_inv (nats_call k NInstall s)" using call_moves [OF inv k, of NInstall] NConn l w by (simp add: call_ok_def)
    then have "nats_inv ((nats_call k NInstall s)\<lparr>ns_live := (ns_live s)(k := True)\<rparr>)"
      using live_inv [of "nats_call k NInstall s" k] by simp
    moreover have "nats_inv (nats_call k (NReturned (Some (NatsErr err))) s)" for err
      using call_moves [OF inv k, of "NReturned (Some (NatsErr err))"] NConn l w by (simp add: call_ok_def)
    ultimately show ?thesis using st k NConn by (auto simp: natsSubscribeStep_def split: option.splits)
  next
    case NInstall
    have "nats_inv (nats_call k (NDiscard r) s)" for r
      using call_moves [OF inv k, of "NDiscard r"] NInstall w by (simp add: call_ok_def)
    then show ?thesis
      using st k NInstall install_inv [OF inv k NInstall] by (auto simp: natsSubscribeStep_def split: if_splits)
  next
    case (NDiscard r)
    then show ?thesis
      using st k w call_moves [OF drain_inv [OF inv, of k], of k "NReturned r"] by (simp add: natsSubscribeStep_def call_ok_def)
  qed (use st k in \<open>simp_all add: natsSubscribeStep_def\<close>)
qed

lemma watch_moves:
  assumes inv: "nats_inv s" and k: "k < ns_n s" and w: "ns_watcher s k \<notin> {VNone, VExited}" and v: "v \<notin> {VNone, VExited}"
  shows "nats_inv (nats_watch k v (s\<lparr>na_watchers := na_watchers s + watching v - watching (ns_watcher s k)\<rparr>))"
    (is "nats_inv ?t")
proof -
  have "sub_ok ?t i" for i using nats_invD(1) [OF inv, of i] w v by (cases "i = k") (auto simp: sub_ok_def)
  moreover have "call_ok ?t pc" if "call_ok s pc" for pc using call_ok_watch(1) [of _ k v] that w v by simp
  moreover have "close_ok ?t pc" if "close_ok s pc" for pc using call_ok_watch(2) [of _ k v] that w v by simp
  moreover have "gen_ok ?t" using nats_invD(4) [OF inv] v by (auto simp: gen_ok_def)
  moreover have "na_watchers ?t = (\<Sum>i<ns_n s. watching (ns_watcher ?t i))"
    using nats_invD(5) [OF inv] k by (simp add: sum_upd_int del: fun_upd_apply)
  ultimately show ?thesis using inv by (simp add: nats_inv_def)
qed

lemma watch_moves_same:
  assumes "nats_inv s" and "k < ns_n s" and "ns_watcher s k \<notin> {VNone, VExited}" and "v \<notin> {VNone, VExited}"
    and "watching v = watching (ns_watcher s k)"
  shows "nats_inv (nats_watch k v s)"
  using watch_moves [OF assms(1-4)] assms(5) by simp

lemma watch_exits:
  assumes inv: "nats_inv s" and k: "k < ns_n s" and w: "ns_watcher s k = VClosing"
  shows "nats_inv (nats_watch k VExited (s\<lparr>ns_done := (ns_done s)(k := True)\<rparr>))" (is "nats_inv ?t")
proof -
  have "sub_ok ?t i" for i using nats_invD(1) [OF inv, of i] w by (cases "i = k") (auto simp: sub_ok_def)
  moreover have "call_ok ?t pc" if "call_ok s pc" for pc using call_ok_watch(1) [of _ k VExited] that w by simp
  moreover have "close_ok ?t pc" if "close_ok s pc" for pc using call_ok_watch(2) [of _ k VExited] that w by simp
  moreover have "gen_ok ?t" using nats_invD(4) [OF inv] by (auto simp: gen_ok_def)
  moreover have "na_watchers ?t = (\<Sum>i<ns_n s. watching (ns_watcher ?t i))"
    using nats_invD(5) [OF inv] k w by (simp add: sum_upd_int del: fun_upd_apply)
  ultimately show ?thesis using inv by (simp add: nats_inv_def)
qed

lemma natsWatcher_inv:
  assumes inv: "nats_inv s" and st: "natsWatcher k s = Some t \<or> natsWatcherStop k s = Some t"
  shows "nats_inv t"
proof -
  have k: "k < ns_n s" using st by (auto simp: natsWatcher_def natsWatcherStop_def split: if_splits)
  show ?thesis
  proof (cases "ns_watcher s k")
    case VWaiting
    then show ?thesis
      using st k watch_moves_same [OF inv k, of VDraining] watch_moves_same [OF inv k, of VLeaving]
      by (auto simp: natsWatcher_def natsWatcherStop_def split: if_splits)
  next
    case VDraining
    then show ?thesis
      using st k watch_moves_same [OF drain_inv [OF inv, of k], of k VLeaving] by (auto simp: natsWatcher_def natsWatcherStop_def)
  next
    case VLeaving
    then show ?thesis
      using st k watch_moves [OF inv k, of VClosing] by (auto simp: natsWatcher_def natsWatcherStop_def)
  next
    case VClosing
    then show ?thesis using st k watch_exits [OF inv k] by (auto simp: natsWatcher_def natsWatcherStop_def)
  qed (use st in \<open>auto simp: natsWatcher_def natsWatcherStop_def split: if_splits\<close>)
qed

lemma close_moves:
  assumes inv: "nats_inv s" and j: "j < ns_nc s" and q: "close_ok s q"
    and keep: "\<And>k. relK (ns_close s j) = Some k \<Longrightarrow> relK q = Some k \<or> ns_watcher s k = VExited \<and> finK q = Some k"
      "\<And>k. finK (ns_close s j) = Some k \<Longrightarrow> finK q = Some k \<or> ns_drainOnce s k"
  shows "nats_inv (nats_close j q s)"
proof -
  let ?t = "nats_close j q s"
  have rel: "releasing ?t k \<or> ns_watcher s k = VExited \<and> finishing ?t k" if "releasing s k" for k
    using that keep(1) [of k] j somebody_keepK [of relN relK s k j q] somebody_newK [of j s relK q k relN]
      somebody_newK [of j s finK q k finN] by blast
  have fin: "finishing ?t k \<or> ns_drainOnce s k" if "finishing s k" for k
    using that keep(2) [of k] j somebody_keepK [of finN finK s k j q] somebody_newK [of j s finK q k finN] by blast
  have "sub_ok ?t k" for k using nats_invD(1) [OF inv, of k] rel [of k] fin [of k] by (auto simp: sub_ok_def)
  then show ?thesis using inv j q by (simp add: nats_inv_def gen_ok_def)
qed

lemma natsClose_inv:
  assumes inv: "nats_inv s" and st: "natsClose j s = Some t"
  shows "nats_inv t"
proof -
  have j: "j < ns_nc s" "ns_close s j = KIdle" using st by (auto simp: natsClose_def split: if_splits)
  show ?thesis
  proof (cases "na_closed s")
    case True
    then show ?thesis
      using st j close_moves [OF inv j(1), of "KReturned None"] by (simp add: natsClose_def close_ok_def)
  next
    case False
    let ?q = "case na_cur s of None \<Rightarrow> KReturned None | Some cur \<Rightarrow> KRelease cur"
    let ?s1 = "s\<lparr>na_closed := True, na_cur := None\<rparr>"
    have t: "t = nats_close j ?q ?s1" using st j False by (simp add: natsClose_def)
    have g: "gen_ok s" using inv by (rule nats_invD)
    have r: "releasing t i" if "releasing s i \<or> na_cur s = Some i" for i
      using that j somebody_keepK [of relN relK ?s1 i j ?q] somebody_newK [of j ?s1 relK ?q i relN] by (auto simp: t)
    have f: "finishing t i" if "finishing s i" for i
      using that j somebody_keepK [of finN finK ?s1 i j ?q] by (simp add: t)
    have "sub_ok t i" for i
      using nats_invD(1) [OF inv, of i] r [of i] f [of i] by (auto simp: sub_ok_def t)
    moreover have "close_ok t ?q" using g by (auto simp: t close_ok_def gen_ok_def split: option.split)
    moreover have "gen_ok t" using g by (simp add: t gen_ok_def)
    ultimately show ?thesis using inv by (simp add: nats_inv_def t)
  qed
qed

lemma natsCloseStep_inv:
  assumes inv: "nats_inv s" and st: "natsCloseStep env j s = Some t"
  shows "nats_inv t"
proof -
  have j: "j < ns_nc s" using st by (simp add: natsCloseStep_def split: if_splits)
  have co: "close_ok s (ns_close s j)" using nats_invD(3) [OF inv j] .
  show ?thesis
  proof (cases "ns_close s j")
    case (KRelease p)
    then show ?thesis
      using st j co close_moves [OF release_inv [OF inv, of p], of j "KAwait p"] by (simp add: natsCloseStep_def close_ok_def)
  next
    case (KAwait p)
    then have "ns_watcher s p = VExited" "t = nats_close j (KDrain p) s"
      using st j nats_invD(1) [OF inv, of p] by (auto simp: natsCloseStep_def sub_ok_def split: if_splits)
    then show ?thesis using KAwait close_moves [OF inv j, of "KDrain p"] by (simp add: close_ok_def)
  next
    case (KDrain p)
    then show ?thesis
      using st j close_moves [OF drain_inv [OF inv, of p], of j "KReturned (map_option NatsErr (ne_drain env p))"]
      by (simp add: natsCloseStep_def close_ok_def)
  qed (use st j in \<open>simp_all add: natsCloseStep_def\<close>)
qed

lemma nats_step_inv:
  assumes inv: "nats_inv s" and "nats_step env s t"
  shows "nats_inv t"
  using assms(2)
proof cases
  case nats_internal
  then show ?thesis using inv by cases (auto intro: natsSubscribeStep_inv natsWatcher_inv natsCloseStep_inv)
next
  case (nats_cancel k)
  then show ?thesis using inv by (simp add: nats_inv_def sub_ok_def gen_ok_def)
qed (use inv in \<open>auto intro: natsSubscribe_inv natsClose_inv\<close>)

subsection \<open>Nothing leaks\<close>

fun natsCallWork :: "natsPc \<Rightarrow> nat" where
  "natsCallWork (NRelease _) = 9"
| "natsCallWork (NAwait _) = 8"
| "natsCallWork (NDrainPrev _) = 7"
| "natsCallWork NConn = 6"
| "natsCallWork NInstall = 5"
| "natsCallWork (NDiscard _) = 1"
| "natsCallWork _ = 0"

fun watchWork :: "watchPc \<Rightarrow> nat" where
  "watchWork VWaiting = 4"
| "watchWork VDraining = 3"
| "watchWork VLeaving = 2"
| "watchWork VClosing = 1"
| "watchWork _ = 0"

fun natsCloseWork :: "natsClosePc \<Rightarrow> nat" where
  "natsCloseWork (KRelease _) = 3"
| "natsCloseWork (KAwait _) = 2"
| "natsCloseWork (KDrain _) = 1"
| "natsCloseWork _ = 0"

definition natsWork :: "natsSys \<Rightarrow> nat" where
  "natsWork s = (\<Sum>k<ns_n s. natsCallWork (ns_calls s k)) + (\<Sum>k<ns_n s. watchWork (ns_watcher s k)) +
     (\<Sum>j<ns_nc s. natsCloseWork (ns_close s j))"

lemma nats_work_lowers:
  assumes "nats_inv s" and "nats_work env s t"
  shows "natsWork t < natsWork s"
  using assms(2)
proof cases
  case (nats_subscribes k)
  then have k: "k < ns_n s" by (simp add: natsSubscribeStep_def split: if_splits)
  note d = sum_lowers [OF k, of natsCallWork _ "ns_calls s"]
  show ?thesis
  proof (cases "ns_calls s k")
    case NInstall
    then have "ns_watcher s k = VNone" using nats_invD(1) [OF assms(1), of k] by (auto simp: sub_ok_def)
    then show ?thesis
      using nats_subscribes k NInstall d sum_upd [OF k, of natsCallWork "ns_calls s" "NReturned None"]
        sum_upd [OF k, of watchWork "ns_watcher s" VWaiting]
      by (auto simp: natsSubscribeStep_def natsWork_def simp del: fun_upd_apply split: if_splits)
  qed (use nats_subscribes k d in
      \<open>auto simp: natsSubscribeStep_def natsWork_def simp del: fun_upd_apply split: if_splits option.splits\<close>)
next
  case (nats_watches k)
  then have k: "k < ns_n s" by (simp add: natsWatcher_def split: if_splits)
  show ?thesis
    using nats_watches k sum_lowers [OF k, of watchWork _ "ns_watcher s"]
    by (cases "ns_watcher s k") (auto simp: natsWatcher_def natsWork_def simp del: fun_upd_apply split: if_splits)
next
  case (nats_stops k)
  then have k: "k < ns_n s" by (simp add: natsWatcherStop_def split: if_splits)
  show ?thesis
    using nats_stops k sum_lowers [OF k, of watchWork _ "ns_watcher s"]
    by (auto simp: natsWatcherStop_def natsWork_def simp del: fun_upd_apply split: if_splits)
next
  case (nats_closes j)
  then have j: "j < ns_nc s" by (simp add: natsCloseStep_def split: if_splits)
  show ?thesis
    using nats_closes j sum_lowers [OF j, of natsCloseWork _ "ns_close s"]
    by (cases "ns_close s j") (auto simp: natsCloseStep_def natsWork_def simp del: fun_upd_apply split: if_splits)
qed

text \<open>At rest every call has returned; every subscription but the current one of an open adapter has
  been drained and its watcher is gone.\<close>

definition nats_settled :: "natsSys \<Rightarrow> bool" where
  "nats_settled s \<longleftrightarrow>
     (\<forall>k<ns_n s. (ns_calls s k = NIdle \<or> (\<exists>r. ns_calls s k = NReturned r)) \<and>
        (na_cur s = Some k \<and> \<not> na_closed s \<or>
         (ns_live s k \<longrightarrow> ns_drained s k = 1) \<and> (ns_watcher s k = VNone \<or> ns_watcher s k = VExited))) \<and>
     (\<forall>j<ns_nc s. ns_close s j = KIdle \<or> (\<exists>r. ns_close s j = KReturned r))"

lemma nats_stuck:
  assumes inv: "nats_inv s" and stuck: "\<not> (\<exists>t. nats_work env s t)"
  shows "nats_settled s"
proof -
  have n: "natsSubscribeStep env k s = None" "natsWatcher k s = None" "natsCloseStep env j s = None" for k j
    using stuck nats_subscribes nats_watches nats_closes by (metis not_None_eq)+
  have away: "ns_done s p" if "ns_watcher s p \<noteq> VNone" "ns_stop s p" for p
  proof -
    have "p < ns_n s" "ns_done s p \<longleftrightarrow> ns_watcher s p = VExited" using nats_invD(1) [OF inv, of p] that by (simp_all add: sub_ok_def)
    then show ?thesis using n(2) [of p] that by (cases "ns_watcher s p") (auto simp: natsWatcher_def split: if_splits)
  qed
  have calls: "ns_calls s k = NIdle \<or> (\<exists>r. ns_calls s k = NReturned r)" if k: "k < ns_n s" for k
  proof (cases "ns_calls s k")
    case (NAwait p)
    then have "ns_done s p" using nats_invD(2) [OF inv k] by (intro away) (simp_all add: call_ok_def)
    then show ?thesis using NAwait n(1) [of k] k by (simp add: natsSubscribeStep_def)
  qed (use n(1) [of k] k in \<open>simp_all add: natsSubscribeStep_def\<close>)
  have closers: "ns_close s j = KIdle \<or> (\<exists>r. ns_close s j = KReturned r)" if j: "j < ns_nc s" for j
  proof (cases "ns_close s j")
    case (KAwait p)
    then have "ns_done s p" using nats_invD(3) [OF inv j] by (intro away) (simp_all add: close_ok_def)
    then show ?thesis using KAwait n(3) [of j] j by (simp add: natsCloseStep_def)
  qed (use n(3) [of j] j in \<open>simp_all add: natsCloseStep_def\<close>)
  have "\<not> releasing s k" "\<not> finishing s k" for k
    using calls closers by (force simp: somebody_def)+
  then have "na_cur s = Some k \<and> \<not> na_closed s \<or>
      (ns_live s k \<longrightarrow> ns_drained s k = 1) \<and> (ns_watcher s k = VNone \<or> ns_watcher s k = VExited)" if "k < ns_n s" for k
    using nats_invD(1) [OF inv, of k] nats_invD(4) [OF inv] calls [OF that]
    by (cases "na_cur s = Some k") (auto simp: sub_ok_def gen_ok_def)
  with calls closers show ?thesis by (simp add: nats_settled_def)
qed

interpretation nats: settling_system nats_init "nats_step env" nats_inv "nats_work env" natsWork nats_settled for env
proof
  show "nats_init s \<Longrightarrow> nats_inv s" for s by (rule nats_init_inv)
  show "nats_inv s \<Longrightarrow> nats_step env s t \<Longrightarrow> nats_inv t" for s t by (rule nats_step_inv)
  show "nats_work env s t \<Longrightarrow> nats_step env s t" for s t by (rule nats_internal)
  show "nats_inv s \<Longrightarrow> nats_work env s t \<Longrightarrow> natsWork t < natsWork s" for s t by (rule nats_work_lowers)
  show "nats_inv s \<Longrightarrow> \<not> (\<exists>t. nats_work env s t) \<Longrightarrow> nats_settled s" for s by (rule nats_stuck)
qed

lemma nats_drained_once: "nats_inv s \<Longrightarrow> ns_drained s k \<le> 1"
  using nats_invD(1) [of s k] by (simp add: sub_ok_def)

text \<open>C27: The NATS adapter leaks no subscription and drains none twice. For any number of concurrent \<open>Subscribe\<close>
  and \<open>Close\<close> calls, failing subscriptions and cancelled contexts: each subscription is drained at most
  once; the counter of running watchers never goes below zero; no call blocks for ever; and when the goroutines have done their steps, every subscription
  that NATS accepted has been drained and its watcher has exited, except for the current one of an
  adapter that is still open.\<close>

theorem nats_no_leak:
  assumes "reach nats_init (nats_step env) s"
  shows "(\<forall>k. ns_drained s k \<le> 1) \<and> 0 \<le> na_watchers s \<and> (\<forall>n t. (nats_work env ^^ n) s t \<longrightarrow> n \<le> natsWork s) \<and>
    (\<forall>t. (nats_work env)\<^sup>*\<^sup>* s t \<and> \<not> (\<exists>u. nats_work env t u) \<longrightarrow> nats_settled t) \<and>
    (\<exists>t. (nats_work env)\<^sup>*\<^sup>* s t \<and> nats_settled t)"
proof -
  have inv: "nats_inv s" using assms by (rule nats.reach_inv)
  have "0 \<le> watching v" for v by (cases v) simp_all
  then have "0 \<le> na_watchers s" unfolding nats_invD(5) [OF inv] by (intro sum_nonneg)
  moreover have "n \<le> natsWork s" if "(nats_work env ^^ n) s t" for n t
    using nats.internal_bound [OF assms that] by simp
  ultimately show ?thesis
    using nats_drained_once [OF inv] nats.settles [OF assms] nats.settles_eventually [OF assms] by blast
qed

text \<open>The second \<open>Subscribe\<close> takes the first subscription over, then \<open>Close\<close> comes in: it finds no current
  subscription and returns while the watcher of the first one is still running; the second call
  cleans up behind it.\<close>

definition exampleNats :: natsEnv where
  "exampleNats = \<lparr>ne_subscribe = (\<lambda>_. None), ne_drain = (\<lambda>_. None), ne_publish = (\<lambda>_ _. None),
     ne_marshal = (\<lambda>m. Inr (am_Data m)), ne_unmarshal = (\<lambda>d. Inr (zeroAdapterMessage\<lparr>am_Data := d\<rparr>))\<rparr>"

definition closeInBetween :: "(natsSys \<Rightarrow> natsSys option) list" where
  "closeInBetween = [natsSubscribe 0, natsSubscribeStep exampleNats 0, natsSubscribeStep exampleNats 0,
     natsSubscribe 1, natsClose 0]"

lemma closeInBetween_run:
  "\<exists>s. runMoves closeInBetween (natsSysOf (natsNew []) 2 1) = Some s \<and> ns_close s 0 = KReturned None \<and>
     na_watchers s = 1 \<and> ns_watcher s 0 = VWaiting \<and> ns_live s 0 \<and> ns_drained s 0 = 0 \<and> ns_n s = 2 \<and> na_closed s"
  by (simp add: closeInBetween_def natsSysOf_def natsNew_def natsAdapter.defs natsSys.defs natsSubscribe_def
      natsSubscribeStep_def natsClose_def exampleNats_def nats_call_def nats_watch_def nats_close_def)

lemma closeInBetween_reach:
  assumes "runMoves closeInBetween (natsSysOf (natsNew []) 2 1) = Some s"
  shows "reach nats_init (nats_step exampleNats) s"
proof -
  have init: "reach nats_init (nats_step exampleNats) (natsSysOf (natsNew []) 2 1)"
    by (rule reach_start) (force simp: nats_init_def)
  have moves: "\<forall>f\<in>set closeInBetween. \<forall>u v. f u = Some v \<longrightarrow> nats_step exampleNats u v"
    by (auto simp: closeInBetween_def intro: nats_step.intros nats_work.intros)
  show ?thesis by (rule runMoves_reach [OF init assms moves])
qed

text \<open>\<open>Close\<close> has returned although a watcher started by \<open>Subscribe\<close> is still alive.\<close>

lemma nats_close_early:
  "\<exists>s. reach nats_init (nats_step exampleNats) s \<and> ns_close s 0 = KReturned None \<and> 0 < na_watchers s"
proof -
  obtain s where s: "runMoves closeInBetween (natsSysOf (natsNew []) 2 1) = Some s" "ns_close s 0 = KReturned None" "na_watchers s = 1"
    using closeInBetween_run by blast
  have "0 < na_watchers s" using s(3) by simp
  with closeInBetween_reach [OF s(1)] s(2) show ?thesis by blast
qed

theorem nats_no_leak_witness:
  "\<exists>s t. runMoves closeInBetween (natsSysOf (natsNew []) 2 1) = Some s \<and> ns_drained s 0 = 0 \<and>
     (nats_work exampleNats)\<^sup>*\<^sup>* s t \<and> nats_settled t"
proof -
  obtain s where s: "runMoves closeInBetween (natsSysOf (natsNew []) 2 1) = Some s" "ns_drained s 0 = 0"
    using closeInBetween_run by blast
  with nats_no_leak [OF closeInBetween_reach [OF s(1)]] show ?thesis by blast
qed

subsection \<open>What arrives is what was published\<close>

lemma nats_roundtrip:
  assumes "natsPublish env ctxErr msg a = None" and "\<And>m d. ne_marshal env m = Inr d \<Longrightarrow> ne_unmarshal env d = Inr m"
  shows "\<exists>d. ne_marshal env msg = Inr d \<and> natsReceive env d b = ([msg], [])"
proof -
  obtain d where "ne_marshal env msg = Inr d"
    using assms(1) by (auto simp: natsPublish_def split: if_splits option.splits sum.splits)
  with assms(2) [OF this] show ?thesis by (simp add: natsReceive_def)
qed

end
