(* ===== verification/Ws_Loops.thy ===== *)
theory Ws_Loops
  imports Ws_System
begin

section \<open>The ticker goroutines (hub.go, presence.go)\<close>

text \<open>
  \<open>runDrainReaper\<close> and \<open>runPresence\<close> are goroutines with the same shape: a \<open>for\<close> loop over a \<open>select\<close> that waits
  for the ticker or for a channel that tells it to stop. \<open>tickerLoop\<close> is that loop, with the tick, the
  stop condition and the goroutine's own variables as parameters. A run is a list of events: a
  tick, the choice of a stop channel (possible only once it is closed; a tick that is ready at the same
  time may be chosen first), and anything the rest of the program does to the hub in between.
\<close>

datatype loopEvent = LTick env | LStop | LOther "hub \<Rightarrow> hub"

record 'm loop =
  lo_alive :: bool
  lo_own :: 'm
  lo_hub :: hub

fun loopStep :: "(env \<Rightarrow> 'm \<Rightarrow> hub \<Rightarrow> 'm \<times> hub) \<Rightarrow> (hub \<Rightarrow> bool) \<Rightarrow> 'm loop \<Rightarrow> loopEvent \<Rightarrow> 'm loop" where
  "loopStep tick stop g (LTick e) =
     (if lo_alive g then (case tick e (lo_own g) (lo_hub g) of (m, h) \<Rightarrow> g\<lparr>lo_own := m, lo_hub := h\<rparr>) else g)"
| "loopStep tick stop g LStop = (if stop (lo_hub g) then g\<lparr>lo_alive := False\<rparr> else g)"
| "loopStep tick stop g (LOther f) = g\<lparr>lo_hub := f (lo_hub g)\<rparr>"

definition tickerLoop ::
  "(env \<Rightarrow> 'm \<Rightarrow> hub \<Rightarrow> 'm \<times> hub) \<Rightarrow> (hub \<Rightarrow> bool) \<Rightarrow> 'm \<Rightarrow> loopEvent list \<Rightarrow> hub \<Rightarrow> 'm loop" where
  "tickerLoop tick stop own evs h = foldl (loopStep tick stop) \<lparr>lo_alive = True, lo_own = own, lo_hub = h\<rparr> evs"

definition runDrainReaper :: "loopEvent list \<Rightarrow> hub \<Rightarrow> (cref \<Rightarrow> int option) loop" where
  "runDrainReaper = tickerLoop reaperTick (\<lambda>h. h_drainDone h \<or> h_ctxDone h) (\<lambda>_. None)"

definition runPresence :: "loopEvent list \<Rightarrow> hub \<Rightarrow> presenceState loop" where
  "runPresence = tickerLoop presenceTick h_ctxDone initPresenceState"

lemma loop_alive: "lo_alive (foldl (loopStep tick stop) g evs) \<Longrightarrow> lo_alive g"
proof (induction evs arbitrary: g)
  case (Cons ev evs)
  then have "lo_alive (loopStep tick stop g ev)" by simp
  then show ?case by (cases ev) (auto split: if_splits prod.splits)
qed simp

subsection \<open>The drain reaper\<close>

definition hubAfter :: "loopEvent list \<Rightarrow> hub \<Rightarrow> hub" where
  "hubAfter evs h = lo_hub (runDrainReaper evs h)"

definition idleSince :: "loopEvent list \<Rightarrow> hub \<Rightarrow> cref \<Rightarrow> int option" where
  "idleSince evs h = lo_own (runDrainReaper evs h)"

definition reaperAlive :: "loopEvent list \<Rightarrow> hub \<Rightarrow> bool" where
  "reaperAlive evs h = lo_alive (runDrainReaper evs h)"

lemmas reaper_defs = hubAfter_def idleSince_def reaperAlive_def runDrainReaper_def tickerLoop_def

lemma reaper_start [simp]: "hubAfter [] h = h" "idleSince [] h = (\<lambda>_. None)" "reaperAlive [] h"
  by (simp_all add: reaper_defs)

lemma reaper_other [simp]:
  "hubAfter (p @ [LOther f]) h = f (hubAfter p h)" "idleSince (p @ [LOther f]) h = idleSince p h"
  "hubAfter (p @ [LStop]) h = hubAfter p h" "idleSince (p @ [LStop]) h = idleSince p h"
  by (simp_all add: reaper_defs)

lemma reaper_tick:
  "reaperAlive p h \<Longrightarrow>
    reaperTick e (idleSince p h) (hubAfter p h) = (idleSince (p @ [LTick e]) h, hubAfter (p @ [LTick e]) h)"
  "\<not> reaperAlive p h \<Longrightarrow> idleSince (p @ [LTick e]) h = idleSince p h \<and> hubAfter (p @ [LTick e]) h = hubAfter p h"
  by (simp_all add: reaper_defs split: prod.split)

lemma reaperAlive_prefix: "reaperAlive (p @ q) h \<Longrightarrow> reaperAlive p h"
  by (simp add: reaper_defs) (rule loop_alive)

text \<open>The rest of the program acts on the hub by steps of the hub.\<close>

definition others_step :: "loopEvent list \<Rightarrow> hub \<Rightarrow> bool" where
  "others_step evs h \<longleftrightarrow> (\<forall>p f. prefix (p @ [LOther f]) evs \<longrightarrow> hub_step (hubAfter p h) (f (hubAfter p h)))"

lemma others_step_prefix: "others_step evs h \<Longrightarrow> prefix p evs \<Longrightarrow> others_step p h"
  unfolding others_step_def by (blast intro: prefix_order.trans)

lemma hubAfter_inv:
  assumes "sys_inv h"
  shows "others_step evs h \<Longrightarrow> sys_inv (hubAfter evs h)"
proof (induction evs rule: rev_induct)
  case (snoc ev evs)
  then have inv: "sys_inv (hubAfter evs h)" by (blast intro: others_step_prefix prefixI)
  show ?case
  proof (cases ev)
    case (LTick e)
    then show ?thesis
      using inv reaper_tick [of evs h e] by (cases "reaperAlive evs h") (auto intro: hub_step_inv step_reap)
  next
    case (LOther f)
    then have "hub_step (hubAfter evs h) (f (hubAfter evs h))"
      using snoc.prems by (simp add: others_step_def)
    with inv LOther show ?thesis by (auto intro: hub_step_inv)
  qed (use inv in simp)
qed (simp add: assms)

lemma hubAfter_snapshot:
  "sys_inv h \<Longrightarrow> others_step evs h \<Longrightarrow> prefix p evs \<Longrightarrow> snapshot_ok (hubAfter p h)"
  by (blast dest: others_step_prefix intro: hubAfter_inv sys_invD(5))

text \<open>What one tick of the living reaper does to one client.\<close>

lemma tick_client:
  assumes "sys_inv h" and "others_step (p @ [LTick e]) h" and "reaperAlive p h"
  shows "if c \<in> h_clients (hubAfter p h)
    then (idleSince (p @ [LTick e]) h c, h_mem (hubAfter (p @ [LTick e]) h) c) =
      reap (e_now e) (h_drainTimeout (hubAfter p h)) (idleSince p h c) (h_mem (hubAfter p h) c)
    else idleSince (p @ [LTick e]) h c = None \<and> h_mem (hubAfter (p @ [LTick e]) h) c = h_mem (hubAfter p h) c"
  using reaperTick_decides [OF hubAfter_snapshot [OF assms(1,2)] reaper_tick(1) [OF assms(3)]] by simp

text \<open>\<open>emptyFrom a p\<close>: at every tick of the run \<open>p\<close> after its beginning \<open>a\<close>, the client's buffer was empty.\<close>

definition emptyFrom :: "cref \<Rightarrow> hub \<Rightarrow> loopEvent list \<Rightarrow> loopEvent list \<Rightarrow> bool" where
  "emptyFrom c h a p \<longleftrightarrow>
     (\<forall>q e. prefix (q @ [LTick e]) p \<and> length a \<le> length q \<longrightarrow> c_send (h_mem (hubAfter q h) c) = [])"

lemma emptyFrom_snoc:
  "emptyFrom c h a (p @ [ev]) \<longleftrightarrow> emptyFrom c h a p \<and>
     ((\<exists>e. ev = LTick e) \<and> length a \<le> length p \<longrightarrow> c_send (h_mem (hubAfter p h) c) = [])"
  unfolding emptyFrom_def by (auto simp: prefix_snoc)

text \<open>An entry of \<open>firstIdleAt\<close> is the time of an earlier tick since which the buffer was empty.\<close>

lemma idleSince_seen:
  assumes "sys_inv h"
  shows "others_step p h \<Longrightarrow> reaperAlive p h \<Longrightarrow> idleSince p h c = Some t \<Longrightarrow>
    \<exists>a e0 b. p = a @ LTick e0 # b \<and> e_now e0 = t \<and> emptyFrom c h a p"
proof (induction p rule: rev_induct)
  case (snoc ev p)
  have op: "others_step p h" and alive: "reaperAlive p h"
    using snoc.prems(1,2) by (blast intro: others_step_prefix prefixI reaperAlive_prefix)+
  have keep: ?case if same: "idleSince p h c = Some t"
    and ok: "(\<exists>e. ev = LTick e) \<longrightarrow> c_send (h_mem (hubAfter p h) c) = []"
  proof -
    obtain a e0 b where ab: "p = a @ LTick e0 # b" "e_now e0 = t" "emptyFrom c h a p"
      using snoc.IH [OF op alive same] by blast
    then have "p @ [ev] = a @ LTick e0 # (b @ [ev])" by simp
    moreover have "emptyFrom c h a (p @ [ev])" using ok ab(3) by (simp add: emptyFrom_snoc)
    ultimately show ?thesis using ab(2) by blast
  qed
  show ?case
  proof (cases ev)
    case (LTick e)
    from tick_client [OF assms snoc.prems(1) [unfolded LTick] alive, of c] snoc.prems(3) LTick
    have d: "c_send (h_mem (hubAfter p h) c) = []" "idleSince p h c = Some t \<or> e_now e = t"
      by (auto simp: reap_def split: if_splits option.splits)
    then have "emptyFrom c h p (p @ [LTick e])"
      by (auto simp: emptyFrom_def prefix_snoc dest: prefix_length_le)
    with d keep LTick show ?thesis by blast
  qed (use keep snoc.prems in auto)
qed simp

text \<open>A tick that closes a client: it has been seen idle for the drain timeout.\<close>

lemma reaper_closes_only_idle:
  assumes "sys_inv h" and o: "others_step (p @ [LTick e]) h"
    and c: "\<not> IsClosed c (hubAfter p h)" "IsClosed c (hubAfter (p @ [LTick e]) h)"
  shows "\<exists>a e0 b. p = a @ LTick e0 # b \<and> h_drainTimeout (hubAfter p h) \<le> e_now e - e_now e0 \<and>
    emptyFrom c h a (p @ [LTick e])"
proof -
  have alive: "reaperAlive p h"
  proof (rule ccontr)
    assume "\<not> reaperAlive p h"
    from reaper_tick(2) [OF this, of e] c show False by simp
  qed
  from tick_client [OF assms(1,2) alive, of c] c
  obtain t where t: "idleSince p h c = Some t" "h_drainTimeout (hubAfter p h) \<le> e_now e - t"
    "c_send (h_mem (hubAfter p h) c) = []"
    by (auto simp: reap_def IsClosed_def split: if_splits option.splits)
  have "others_step p h" using o by (rule others_step_prefix) simp
  then obtain a e0 b where ab: "p = a @ LTick e0 # b" "e_now e0 = t" "emptyFrom c h a p"
    using idleSince_seen [OF assms(1) _ alive t(1)] by blast
  moreover have "emptyFrom c h a (p @ [LTick e])" using ab(3) t(3) by (simp add: emptyFrom_snoc)
  ultimately show ?thesis using t(2) by blast
qed

definition tickTimes :: "loopEvent list \<Rightarrow> int list" where
  "tickTimes evs = concat (map (\<lambda>ev. case ev of LTick e \<Rightarrow> [e_now e] | _ \<Rightarrow> []) evs)"

definition staysIdle :: "cref \<Rightarrow> loopEvent list \<Rightarrow> loopEvent list \<Rightarrow> hub \<Rightarrow> bool" where
  "staysIdle c pre mid h \<longleftrightarrow> (\<forall>q. prefix q mid \<longrightarrow>
     c \<in> h_clients (hubAfter (pre @ q) h) \<and> c_send (h_mem (hubAfter (pre @ q) h) c) = [])"

text \<open>While a client stays idle, each tick closes it or keeps an entry for it that is old enough.\<close>

lemma idle_tick:
  assumes "sys_inv h" and "others_step (p @ [LTick e]) h" and "reaperAlive p h"
    and "c \<in> h_clients (hubAfter p h)" and "c_send (h_mem (hubAfter p h) c) = []"
  shows "case idleSince p h c of None \<Rightarrow> idleSince (p @ [LTick e]) h c = Some (e_now e)
    | Some t \<Rightarrow> if h_drainTimeout (hubAfter p h) \<le> e_now e - t then IsClosed c (hubAfter (p @ [LTick e]) h)
        else idleSince (p @ [LTick e]) h c = Some t"
  using tick_client [OF assms(1-3), of c] assms(4,5)
  by (auto simp: reap_def IsClosed_def closeWithCode_def closeDone_def split: option.splits if_splits)

lemma idle_run:
  assumes inv: "sys_inv h" and e1: "idleSince (pre @ [LTick e1]) h c = Some t \<or> IsClosed c (hubAfter (pre @ [LTick e1]) h)"
  shows "others_step (pre @ LTick e1 # mid) h \<Longrightarrow> reaperAlive (pre @ LTick e1 # mid) h \<Longrightarrow>
    staysIdle c pre (LTick e1 # mid) h \<Longrightarrow>
    idleSince (pre @ LTick e1 # mid) h c = Some t \<or>
      (\<exists>q. prefix q (LTick e1 # mid) \<and> IsClosed c (hubAfter (pre @ q) h))"
proof (induction mid rule: rev_induct)
  case Nil
  then show ?case using e1 by auto
next
  case (snoc ev mid)
  let ?p = "pre @ LTick e1 # mid"
  have o: "others_step (?p @ [ev]) h" "reaperAlive (?p @ [ev]) h" using snoc.prems by simp_all
  have p: "others_step ?p h" using o(1) by (rule others_step_prefix) simp
  have alive: "reaperAlive ?p h" using o(2) by (rule reaperAlive_prefix)
  have idle: "staysIdle c pre (LTick e1 # mid) h"
    using snoc.prems(3) by (simp add: staysIdle_def prefix_snoc flip: append_Cons)
  from snoc.IH [OF p alive idle] show ?case
  proof
    assume t: "idleSince ?p h c = Some t"
    have c: "c \<in> h_clients (hubAfter ?p h)" "c_send (h_mem (hubAfter ?p h) c) = []"
      using idle by (simp_all add: staysIdle_def)
    show ?thesis
    proof (cases ev)
      case (LTick e)
      from idle_tick [OF inv o(1) [unfolded LTick] alive c] t LTick show ?thesis
        by (auto split: if_splits)
    qed (use t in \<open>simp_all flip: append_Cons append_assoc\<close>)
  next
    assume "\<exists>q. prefix q (LTick e1 # mid) \<and> IsClosed c (hubAfter (pre @ q) h)"
    then show ?thesis by (metis append_Cons prefix_append)
  qed
qed

lemma idle_closed:
  assumes inv: "sys_inv h" and o: "others_step (pre @ LTick e1 # mid @ [LTick e2]) h"
    and alive: "reaperAlive (pre @ LTick e1 # mid) h" and idle: "staysIdle c pre (LTick e1 # mid) h"
    and times: "sorted (tickTimes (pre @ LTick e1 # mid @ [LTick e2]))"
    and long: "h_drainTimeout (hubAfter (pre @ LTick e1 # mid) h) \<le> e_now e2 - e_now e1"
  shows "\<exists>q. prefix q (LTick e1 # mid @ [LTick e2]) \<and> IsClosed c (hubAfter (pre @ q) h)"
proof -
  let ?p = "pre @ LTick e1 # mid"
  have o1: "others_step (pre @ [LTick e1]) h" and op: "others_step ?p h" and opre: "others_step pre h"
    by (rule others_step_prefix [OF o], simp)+
  have apre: "reaperAlive pre h" using alive by (rule reaperAlive_prefix)
  have c1: "c \<in> h_clients (hubAfter pre h)" "c_send (h_mem (hubAfter pre h) c) = []"
    and c2: "c \<in> h_clients (hubAfter ?p h)" "c_send (h_mem (hubAfter ?p h) c) = []"
    using idle by (auto simp: staysIdle_def dest: spec [of _ "[]"] spec [of _ "LTick e1 # mid"])
  have "\<exists>t\<le>e_now e1. idleSince (pre @ [LTick e1]) h c = Some t \<or> IsClosed c (hubAfter (pre @ [LTick e1]) h)"
  proof (cases "idleSince pre h c")
    case None
    then show ?thesis using idle_tick [OF inv o1 apre c1] by auto
  next
    case (Some t)
    from idleSince_seen [OF inv opre apre Some] obtain a e0 b where "pre = a @ LTick e0 # b" "e_now e0 = t" by blast
    then have "t \<le> e_now e1" using times by (auto simp: tickTimes_def sorted_append)
    then show ?thesis using idle_tick [OF inv o1 apre c1] Some by (auto split: if_splits)
  qed
  then obtain t where t: "t \<le> e_now e1"
    "idleSince (pre @ [LTick e1]) h c = Some t \<or> IsClosed c (hubAfter (pre @ [LTick e1]) h)" by blast
  from idle_run [OF inv t(2) op alive idle] show ?thesis
  proof
    assume "idleSince ?p h c = Some t"
    then have "IsClosed c (hubAfter (?p @ [LTick e2]) h)"
      using idle_tick [OF inv _ alive c2, of e2] o long t(1) by (auto split: if_splits)
    then show ?thesis by auto
  next
    assume "\<exists>q. prefix q (LTick e1 # mid) \<and> IsClosed c (hubAfter (pre @ q) h)"
    then show ?thesis by (metis append_Cons prefix_append)
  qed
qed

text \<open>C37: The idle reaper of a draining hub, over a whole run in which any steps of the hub come between
  its ticks. It closes a client only when every tick since one at least \<open>drainTimeout\<close> earlier found its
  buffer empty; and a registered client whose buffer stays empty is closed by the first tick that
  comes \<open>drainTimeout\<close> after another one, while the reaper runs.\<close>

theorem reaper_closes_idle:
  assumes "sys_inv h" and "others_step evs h"
  shows "(\<forall>p e. prefix (p @ [LTick e]) evs \<and> \<not> IsClosed c (hubAfter p h) \<and> IsClosed c (hubAfter (p @ [LTick e]) h) \<longrightarrow>
      (\<exists>a e0 b. p = a @ LTick e0 # b \<and> h_drainTimeout (hubAfter p h) \<le> e_now e - e_now e0 \<and>
        emptyFrom c h a (p @ [LTick e]))) \<and>
    (\<forall>pre e1 mid e2. prefix (pre @ LTick e1 # mid @ [LTick e2]) evs \<and> sorted (tickTimes evs) \<and>
      reaperAlive (pre @ LTick e1 # mid) h \<and> staysIdle c pre (LTick e1 # mid) h \<and>
      h_drainTimeout (hubAfter (pre @ LTick e1 # mid) h) \<le> e_now e2 - e_now e1 \<longrightarrow>
      (\<exists>q. prefix q (LTick e1 # mid @ [LTick e2]) \<and> IsClosed c (hubAfter (pre @ q) h)))"
proof -
  have times: "sorted (tickTimes p)" if "prefix p evs" "sorted (tickTimes evs)" for p
    using that by (auto simp: prefix_def tickTimes_def sorted_append)
  show ?thesis
    using reaper_closes_only_idle [OF assms(1) others_step_prefix [OF assms(2)]]
      idle_closed [OF assms(1) others_step_prefix [OF assms(2)]] times by blast
qed

lemma exampleHub_sys: "sys_inv exampleHub"
proof -
  have "0 < SendChannelSize (h_config exampleHub)"
    by (simp add: exampleHub_def exampleConfig_def WithSendChannelSize_def)
  then show ?thesis
    using exampleHub_loop by (simp add: sys_inv_def hub_ok_def loop_inv_def queues_ok_def queue_ok_def)
qed

theorem reaper_closes_idle_witness:
  "\<exists>q. prefix q [LTick (exampleEnv\<lparr>e_now := 5 * Second\<rparr>), LTick (exampleEnv\<lparr>e_now := 40 * Second\<rparr>)] \<and>
     IsClosed 0 (hubAfter q exampleHub)"
proof -
  let ?e1 = "exampleEnv\<lparr>e_now := 5 * Second\<rparr>" and ?e2 = "exampleEnv\<lparr>e_now := 40 * Second\<rparr>"
  let ?evs = "[LTick ?e1, LTick ?e2]"
  have o: "others_step ?evs exampleHub" by (auto simp: others_step_def prefix_Cons append_eq_Cons_conv)
  have forget: "forgetGone S (\<lambda>_. None) = (\<lambda>_. None)" for S by (auto simp: forgetGone_def)
  have tick: "reaperTick ?e1 (\<lambda>_. None) exampleHub = ([0 \<mapsto> 5 * Second, 1 \<mapsto> 5 * Second], exampleHub)"
    using forget by (simp add: reaperTick_def Let_def loadSnapshot_def)
  then have h1: "hubAfter [LTick ?e1] exampleHub = exampleHub"
    and alive: "reaperAlive [LTick ?e1] exampleHub"
    by (simp_all add: reaper_defs)
  have idle: "staysIdle 0 [] [LTick ?e1] exampleHub"
    by (auto simp: staysIdle_def prefix_Cons h1)
  have "sorted (tickTimes ?evs)" by (simp add: tickTimes_def Second_def)
  moreover have "h_drainTimeout exampleHub \<le> 40 * Second - 5 * Second"
    by (simp add: exampleHub_def Second_def)
  ultimately show ?thesis
    using reaper_closes_idle [OF exampleHub_sys o, of 0, THEN conjunct2, rule_format, of "[]" ?e1 "[]" ?e2] alive idle h1
    by simp
qed

subsection \<open>The presence goroutine\<close>

text \<open>The cached report stays fresh over a whole run of \<open>runPresence\<close>, so every tick publishes the real counts
  (\<open>publishPresence_report\<close>).\<close>

lemma presenceTick_fresh:
  assumes "presence_fresh s h" and enc: "e_encPresence e (report e h) = Some data" "data \<noteq> []"
    and t: "presenceTick e s h = (s', h')"
  shows "presence_fresh s' h'"
proof -
  obtain s1 h1 where p: "publishPresence e s h = (s1, h1)" by force
  note fresh = publishPresence_report(2) [OF assms(1) enc p]
  have "s' = s1" "h' = evictStaleNodes e h1" using t p by (simp_all add: presenceTick_def)
  moreover have same: "same_registry h1 (evictStaleNodes e h1)" by (rule evictStaleNodes_same)
  moreover have "gatherRooms (evictStaleNodes e h1) = gatherRooms h1"
    using same by (intro gatherRooms_cong) (simp_all add: same_registryD)
  moreover have "h_nodeID (evictStaleNodes e h1) = h_nodeID h1"
  proof -
    have "h_nodeID (snd (evictLoopNodes k ns (m, g))) = h_nodeID g" for k ns m g
      by (induction ns arbitrary: m g) (auto simp: frame_simps split: option.split)
    then show ?thesis by (simp add: evictStaleNodes_def case_prod_beta split: option.split)
  qed
  ultimately show ?thesis using fresh same_registryD(10) [OF same] by (simp add: presence_fresh_def)
qed

lemma runPresence_fresh:
  assumes "0 \<le> h_roomVersion h"
    and others: "\<And>p f. prefix (p @ [LOther f]) evs \<Longrightarrow> presence_fresh (lo_own (runPresence p h)) (lo_hub (runPresence p h)) \<Longrightarrow>
      presence_fresh (lo_own (runPresence p h)) (f (lo_hub (runPresence p h)))"
    and enc: "\<And>e r. LTick e \<in> set evs \<Longrightarrow> \<exists>data. e_encPresence e r = Some data \<and> data \<noteq> []"
  shows "presence_fresh (lo_own (runPresence evs h)) (lo_hub (runPresence evs h))"
  using others enc
proof (induction evs rule: rev_induct)
  case Nil
  then show ?case using assms(1) by (simp add: runPresence_def tickerLoop_def presence_fresh_init)
next
  case (snoc ev evs)
  have IH: "presence_fresh (lo_own (runPresence evs h)) (lo_hub (runPresence evs h))"
  proof (rule snoc.IH)
    show "presence_fresh (lo_own (runPresence p h)) (f (lo_hub (runPresence p h)))"
      if "prefix (p @ [LOther f]) evs" "presence_fresh (lo_own (runPresence p h)) (lo_hub (runPresence p h))" for p f
      using snoc.prems(1) [OF prefix_prefix [OF that(1)] that(2)] .
  qed (use snoc.prems(2) in simp)
  have step: "runPresence (evs @ [x]) h = loopStep presenceTick h_ctxDone (runPresence evs h) x" for x
    by (simp add: runPresence_def tickerLoop_def)
  show ?case
  proof (cases ev)
    case (LTick e)
    obtain data where "e_encPresence e (report e (lo_hub (runPresence evs h))) = Some data" "data \<noteq> []"
      using snoc.prems(2) LTick by fastforce
    with IH LTick show ?thesis by (auto simp: step intro: presenceTick_fresh split: prod.split)
  next
    case (LOther f)
    then show ?thesis using snoc.prems(1) [of evs f] IH by (simp add: step)
  qed (use IH in \<open>simp add: step\<close>)
qed

end
