(* ===== verification/Ws_Observers.thy ===== *)
theory Ws_Observers
  imports Ws_System
begin

section \<open>Installed collectors and loggers (options.go, logger.go)\<close>

text \<open>
  The hub holds a logger and a metrics collector, which the options \<open>WithLogger\<close> and \<open>WithMetrics\<close> replace. The
  operations of the hub only call them and never look at what they keep, so the model records the calls in the trace
  of the hub; \<open>deliver\<close> hands them to the installed collaborators in order. The defaults of \<open>NewHub\<close> do nothing.
\<close>

datatype NoOpLogger = NoOpLogger

fun noop_log :: "NoOpLogger \<Rightarrow> logLevel \<Rightarrow> string \<Rightarrow> NoOpLogger" where
  "noop_log n _ _ = n"

record ('m, 'l) observers =
  ob_collect :: "'m \<Rightarrow> metric \<Rightarrow> 'm"
  ob_metrics :: 'm
  ob_log :: "'l \<Rightarrow> logLevel \<Rightarrow> string \<Rightarrow> 'l"
  ob_logger :: 'l

definition defaultObservers :: "(NoOpMetrics, NoOpLogger) observers" where
  "defaultObservers = \<lparr>ob_collect = noop_collect, ob_metrics = NoOpMetrics, ob_log = noop_log, ob_logger = NoOpLogger\<rparr>"

definition WithLogger :: "('l \<Rightarrow> logLevel \<Rightarrow> string \<Rightarrow> 'l) \<Rightarrow> 'l \<Rightarrow> ('m, 'k) observers \<Rightarrow> ('m, 'l) observers" where
  "WithLogger f l ob = \<lparr>ob_collect = ob_collect ob, ob_metrics = ob_metrics ob, ob_log = f, ob_logger = l\<rparr>"

definition WithMetrics :: "('m \<Rightarrow> metric \<Rightarrow> 'm) \<Rightarrow> 'm \<Rightarrow> ('n, 'l) observers \<Rightarrow> ('m, 'l) observers" where
  "WithMetrics f m ob = \<lparr>ob_collect = f, ob_metrics = m, ob_log = ob_log ob, ob_logger = ob_logger ob\<rparr>"

text \<open>The hooks of the hub are part of the environment.\<close>

definition WithHooks :: "Hooks \<Rightarrow> env \<Rightarrow> env" where
  "WithHooks hooks e = e\<lparr>e_hooks := hooks\<rparr>"

fun deliver :: "('m, 'l) observers \<Rightarrow> effect list \<Rightarrow> ('m, 'l) observers" where
  "deliver ob [] = ob"
| "deliver ob (Metric m # xs) = deliver (ob\<lparr>ob_metrics := ob_collect ob (ob_metrics ob) m\<rparr>) xs"
| "deliver ob (Log lv msg # xs) = deliver (ob\<lparr>ob_logger := ob_log ob (ob_logger ob) lv msg\<rparr>) xs"
| "deliver ob (_ # xs) = deliver ob xs"

fun log_calls :: "effect list \<Rightarrow> (logLevel \<times> string) list" where
  "log_calls [] = []"
| "log_calls (Log lv msg # xs) = (lv, msg) # log_calls xs"
| "log_calls (_ # xs) = log_calls xs"

text \<open>Neither collaborator influences what the other one gets, and each gets its calls in order.\<close>

lemma deliver_splits:
  "ob_metrics (deliver ob xs) = foldl (ob_collect ob) (ob_metrics ob) (metric_calls xs) \<and>
   ob_logger (deliver ob xs) = foldl (\<lambda>l (lv, msg). ob_log ob l lv msg) (ob_logger ob) (log_calls xs)"
  by (induction ob xs rule: deliver.induct) simp_all

text \<open>With \<open>WithMetrics(NewDebugMetrics())\<close> a reachable hub's collector reads the hub's real counts, whatever logger is
  installed.\<close>

lemma installed_gauges_exact:
  assumes "reach hub_init hub_step h" and "ob = WithMetrics dm_collect (NewDebugMetrics t0) ob'"
  shows "activeConnections (ob_metrics (deliver ob (h_trace h))) = ClientCount h"
    and "activeRooms (ob_metrics (deliver ob (h_trace h))) = int (card (dom (h_rooms h)))"
  using sys_invD(1) [OF reachable [OF assms(1)]]
  by (simp_all add: assms(2) deliver_splits WithMetrics_def debug.conns_replay debug.rooms_replay NewDebugMetrics_def
      metric_calls_tally registry_inv_def inv_gauges_def gauge_def ClientCount_def)

end
