(* ===== verification/Ws_Prometheus.thy ===== *)
theory Ws_Prometheus
  imports Ws_System
begin

section \<open>The Prometheus collector (prometheus/prometheus.go)\<close>

text \<open>
  \<open>Collector\<close> implements the collector interface with gauges, counters and histograms of
  prometheus/client_golang. That library is a parameter: the record \<open>promLib\<close> holds the constructors and
  methods the code calls and the readings a scrape would take. A constructor or method that
  can panic has an \<open>option\<close> as its value, \<open>None\<close> for the panic. \<open>prom_ok\<close> states what the library documents:
  gauges go up and down by one, a counter refuses to decrease, a vector takes as many label values as
  it has labels and these have to be valid UTF-8, and \<open>MustRegister\<close> accepts metrics whose full names are
  valid, distinct and not yet registered.
\<close>

subsection \<open>The library\<close>

record metricOpts =
  mo_namespace :: string
  mo_name :: string
  mo_help :: string

datatype ('g, 'c, 't, 'v) promMetric = PGauge 'g | PCounter 'c | PHistogram 't | PCounterVec 'v

record ('r, 'g, 'c, 't, 'v) promLib =
  pl_DefaultRegisterer :: 'r
  pl_DefBuckets :: "real list"
  pl_NewGauge :: "metricOpts \<Rightarrow> 'g"
  pl_NewCounter :: "metricOpts \<Rightarrow> 'c"
  pl_NewHistogram :: "metricOpts \<Rightarrow> real list \<Rightarrow> 't option"
  pl_NewCounterVec :: "metricOpts \<Rightarrow> string list \<Rightarrow> 'v"
  pl_MustRegister :: "('g, 'c, 't, 'v) promMetric list \<Rightarrow> 'r \<Rightarrow> 'r option"
  pl_GaugeInc :: "'g \<Rightarrow> 'g"
  pl_GaugeDec :: "'g \<Rightarrow> 'g"
  pl_CounterInc :: "'c \<Rightarrow> 'c"
  pl_CounterAdd :: "real \<Rightarrow> 'c \<Rightarrow> 'c option"
  pl_Observe :: "real \<Rightarrow> 't \<Rightarrow> 't"
  pl_VecInc :: "string list \<Rightarrow> 'v \<Rightarrow> 'v option"
  pl_gauge :: "'g \<Rightarrow> real"
  pl_counter :: "'c \<Rightarrow> real"
  pl_samples :: "'t \<Rightarrow> real multiset"
  pl_labels :: "'v \<Rightarrow> string list"
  pl_vec :: "'v \<Rightarrow> string list \<Rightarrow> real"
  pl_fqName :: "('g, 'c, 't, 'v) promMetric \<Rightarrow> string"
  pl_names :: "'r \<Rightarrow> string set"
  pl_validName :: "string \<Rightarrow> bool"

definition BuildFQName :: "metricOpts \<Rightarrow> string" where
  "BuildFQName opts = (if mo_name opts = [] then [] else if mo_namespace opts = [] then mo_name opts
     else mo_namespace opts @ ''_'' @ mo_name opts)"

definition increasing :: "real list \<Rightarrow> bool" where
  "increasing bs \<longleftrightarrow> sorted_wrt (<) bs"

definition gauge_laws :: "('r, 'g, 'c, 't, 'v, 'z) promLib_scheme \<Rightarrow> bool" where
  "gauge_laws lib \<longleftrightarrow>
     (\<forall>opts. pl_gauge lib (pl_NewGauge lib opts) = 0 \<and> pl_fqName lib (PGauge (pl_NewGauge lib opts)) = BuildFQName opts) \<and>
     (\<forall>g. pl_gauge lib (pl_GaugeInc lib g) = pl_gauge lib g + 1 \<and> pl_gauge lib (pl_GaugeDec lib g) = pl_gauge lib g - 1)"

definition counter_laws :: "('r, 'g, 'c, 't, 'v, 'z) promLib_scheme \<Rightarrow> bool" where
  "counter_laws lib \<longleftrightarrow>
     (\<forall>opts. pl_counter lib (pl_NewCounter lib opts) = 0 \<and> pl_fqName lib (PCounter (pl_NewCounter lib opts)) = BuildFQName opts) \<and>
     (\<forall>c. pl_counter lib (pl_CounterInc lib c) = pl_counter lib c + 1) \<and>
     (\<forall>x c. if x < 0 then pl_CounterAdd lib x c = None
        else \<exists>c'. pl_CounterAdd lib x c = Some c' \<and> pl_counter lib c' = pl_counter lib c + x)"

definition histogram_laws :: "('r, 'g, 'c, 't, 'v, 'z) promLib_scheme \<Rightarrow> bool" where
  "histogram_laws lib \<longleftrightarrow>
     (\<forall>opts bs. if increasing bs
        then \<exists>t. pl_NewHistogram lib opts bs = Some t \<and> pl_samples lib t = {#} \<and> pl_fqName lib (PHistogram t) = BuildFQName opts
        else pl_NewHistogram lib opts bs = None) \<and>
     (\<forall>x t. pl_samples lib (pl_Observe lib x t) = add_mset x (pl_samples lib t)) \<and>
     increasing (pl_DefBuckets lib)"

definition vec_laws :: "('r, 'g, 'c, 't, 'v, 'z) promLib_scheme \<Rightarrow> bool" where
  "vec_laws lib \<longleftrightarrow>
     (\<forall>opts ls. pl_labels lib (pl_NewCounterVec lib opts ls) = ls \<and>
        (\<forall>vs. pl_vec lib (pl_NewCounterVec lib opts ls) vs = 0) \<and>
        pl_fqName lib (PCounterVec (pl_NewCounterVec lib opts ls)) = BuildFQName opts) \<and>
     (\<forall>vs v. if length vs = length (pl_labels lib v) \<and> list_all validUTF8 vs
        then \<exists>v'. pl_VecInc lib vs v = Some v' \<and> pl_labels lib v' = pl_labels lib v \<and>
          pl_vec lib v' = (pl_vec lib v)(vs := pl_vec lib v vs + 1)
        else pl_VecInc lib vs v = None)"

definition register_laws :: "('r, 'g, 'c, 't, 'v, 'z) promLib_scheme \<Rightarrow> bool" where
  "register_laws lib \<longleftrightarrow>
     (\<forall>ms r. let ns = map (pl_fqName lib) ms in
        if distinct ns \<and> list_all (pl_validName lib) ns \<and> set ns \<inter> pl_names lib r = {}
        then \<exists>r'. pl_MustRegister lib ms r = Some r' \<and> pl_names lib r' = pl_names lib r \<union> set ns
        else pl_MustRegister lib ms r = None)"

definition prom_ok :: "('r, 'g, 'c, 't, 'v, 'z) promLib_scheme \<Rightarrow> bool" where
  "prom_ok lib \<longleftrightarrow> gauge_laws lib \<and> counter_laws lib \<and> histogram_laws lib \<and> vec_laws lib \<and> register_laws lib"

subsection \<open>Options and construction\<close>

record 'r promConfig =
  pc_registerer :: 'r
  pc_namespace :: string
  pc_latencyBuckets :: "real list"
  pc_broadcastBuckets :: "real list"

record ('r, 'g, 'c, 't, 'v) Collector = "'r promConfig" +
  pc_connectionsActive :: 'g
  pc_connectionsTotal :: 'c
  pc_messagesReceived :: 'c
  pc_messagesSent :: 'c
  pc_messagesDropped :: 'c
  pc_messageBytes :: 'c
  pc_latency :: 't
  pc_broadcastDuration :: 't
  pc_roomsActive :: 'g
  pc_roomJoins :: 'c
  pc_roomLeaves :: 'c
  pc_errors :: 'v

definition WithRegistry :: "'r \<Rightarrow> 'r promConfig \<Rightarrow> 'r promConfig" where
  "WithRegistry reg c = c\<lparr>pc_registerer := reg\<rparr>"

definition WithNamespace :: "string \<Rightarrow> 'r promConfig \<Rightarrow> 'r promConfig" where
  "WithNamespace ns c = c\<lparr>pc_namespace := ns\<rparr>"

definition WithLatencyBuckets :: "real list \<Rightarrow> 'r promConfig \<Rightarrow> 'r promConfig" where
  "WithLatencyBuckets buckets c = c\<lparr>pc_latencyBuckets := buckets\<rparr>"

definition WithBroadcastBuckets :: "real list \<Rightarrow> 'r promConfig \<Rightarrow> 'r promConfig" where
  "WithBroadcastBuckets buckets c = c\<lparr>pc_broadcastBuckets := buckets\<rparr>"

definition promDefaults :: "('r, 'g, 'c, 't, 'v, 'z) promLib_scheme \<Rightarrow> 'r promConfig" where
  "promDefaults lib =
     \<lparr>pc_registerer = pl_DefaultRegisterer lib, pc_namespace = ''wshub'',
      pc_latencyBuckets = pl_DefBuckets lib,
      pc_broadcastBuckets = [1 / 10000, 5 / 10000, 1 / 1000, 5 / 1000, 1 / 100, 5 / 100, 1 / 10, 5 / 10, 1]\<rparr>"

text \<open>The metrics of a collector in the order in which they are registered.\<close>

definition collectors :: "('r, 'g, 'c, 't, 'v) Collector \<Rightarrow> ('g, 'c, 't, 'v) promMetric list" where
  "collectors c =
     [PGauge (pc_connectionsActive c), PCounter (pc_connectionsTotal c),
      PCounter (pc_messagesReceived c), PCounter (pc_messagesSent c), PCounter (pc_messagesDropped c),
      PCounter (pc_messageBytes c), PHistogram (pc_latency c), PHistogram (pc_broadcastDuration c),
      PGauge (pc_roomsActive c), PCounter (pc_roomJoins c), PCounter (pc_roomLeaves c),
      PCounterVec (pc_errors c)]"

definition promOpts :: "'r promConfig \<Rightarrow> string \<Rightarrow> string \<Rightarrow> metricOpts" where
  "promOpts cfg name help = \<lparr>mo_namespace = pc_namespace cfg, mo_name = name, mo_help = help\<rparr>"

text \<open>The collector with its twelve metrics, given the two histograms.\<close>

definition promBuild ::
  "('r, 'g, 'c, 't, 'v, 'z) promLib_scheme \<Rightarrow> 'r promConfig \<Rightarrow> 't \<Rightarrow> 't \<Rightarrow> ('r, 'g, 'c, 't, 'v) Collector" where
  "promBuild lib cfg lat bc = promConfig.extend cfg (Collector.fields
     (pl_NewGauge lib (promOpts cfg ''connections_active'' ''Number of active WebSocket connections.''))
     (pl_NewCounter lib (promOpts cfg ''connections_total'' ''Total number of WebSocket connections opened.''))
     (pl_NewCounter lib (promOpts cfg ''messages_received_total'' ''Total number of messages received from clients.''))
     (pl_NewCounter lib (promOpts cfg ''messages_sent_total'' ''Total number of messages sent to clients.''))
     (pl_NewCounter lib (promOpts cfg ''messages_dropped_total'' ''Total number of messages dropped due to full send buffers.''))
     (pl_NewCounter lib (promOpts cfg ''message_received_bytes_total'' ''Total bytes received from clients.''))
     lat bc
     (pl_NewGauge lib (promOpts cfg ''rooms_active'' ''Number of active rooms.''))
     (pl_NewCounter lib (promOpts cfg ''room_joins_total'' ''Total number of room join operations.''))
     (pl_NewCounter lib (promOpts cfg ''room_leaves_total'' ''Total number of room leave operations.''))
     (pl_NewCounterVec lib (promOpts cfg ''errors_total'' ''Total number of errors by type.'') [''type'']))"

definition promLatency :: "('r, 'g, 'c, 't, 'v, 'z) promLib_scheme \<Rightarrow> 'r promConfig \<Rightarrow> 't option" where
  "promLatency lib cfg = pl_NewHistogram lib
     (promOpts cfg ''message_latency_seconds'' ''Message handler processing latency in seconds.'') (pc_latencyBuckets cfg)"

definition promBroadcast :: "('r, 'g, 'c, 't, 'v, 'z) promLib_scheme \<Rightarrow> 'r promConfig \<Rightarrow> 't option" where
  "promBroadcast lib cfg = pl_NewHistogram lib
     (promOpts cfg ''broadcast_duration_seconds'' ''Duration of local broadcast fanout in seconds.'') (pc_broadcastBuckets cfg)"

definition promNew ::
  "('r, 'g, 'c, 't, 'v, 'z) promLib_scheme \<Rightarrow> ('r promConfig \<Rightarrow> 'r promConfig) list \<Rightarrow> ('r, 'g, 'c, 't, 'v) Collector option" where
  "promNew lib options =
     (let cfg = foldl (\<lambda>c opt. opt c) (promDefaults lib) options
      in case (promLatency lib cfg, promBroadcast lib cfg) of
           (Some lat, Some bc) \<Rightarrow>
             (let c = promBuild lib cfg lat bc
              in map_option (\<lambda>r. c\<lparr>pc_registerer := r\<rparr>) (pl_MustRegister lib (collectors c) (pc_registerer c)))
         | _ \<Rightarrow> None)"

subsection \<open>The methods of the collector\<close>

definition Seconds :: "int \<Rightarrow> real" where
  "Seconds d = of_int d / 1000000000"

fun prom_collect ::
  "('r, 'g, 'c, 't, 'v, 'z) promLib_scheme \<Rightarrow> ('r, 'g, 'c, 't, 'v) Collector \<Rightarrow> metric \<Rightarrow> ('r, 'g, 'c, 't, 'v) Collector option" where
  "prom_collect lib c IncrementConnections =
     Some (c\<lparr>pc_connectionsActive := pl_GaugeInc lib (pc_connectionsActive c),
             pc_connectionsTotal := pl_CounterInc lib (pc_connectionsTotal c)\<rparr>)"
| "prom_collect lib c DecrementConnections =
     Some (c\<lparr>pc_connectionsActive := pl_GaugeDec lib (pc_connectionsActive c)\<rparr>)"
| "prom_collect lib c IncrementMessagesReceived =
     Some (c\<lparr>pc_messagesReceived := pl_CounterInc lib (pc_messagesReceived c)\<rparr>)"
| "prom_collect lib c (IncrementMessagesSent n) =
     map_option (\<lambda>m. c\<lparr>pc_messagesSent := m\<rparr>) (pl_CounterAdd lib (of_int n) (pc_messagesSent c))"
| "prom_collect lib c IncrementMessagesDropped =
     Some (c\<lparr>pc_messagesDropped := pl_CounterInc lib (pc_messagesDropped c)\<rparr>)"
| "prom_collect lib c (RecordMessageSize n) =
     map_option (\<lambda>m. c\<lparr>pc_messageBytes := m\<rparr>) (pl_CounterAdd lib (of_int n) (pc_messageBytes c))"
| "prom_collect lib c (RecordLatency duration) =
     Some (c\<lparr>pc_latency := pl_Observe lib (Seconds duration) (pc_latency c)\<rparr>)"
| "prom_collect lib c (RecordBroadcastDuration duration) =
     Some (c\<lparr>pc_broadcastDuration := pl_Observe lib (Seconds duration) (pc_broadcastDuration c)\<rparr>)"
| "prom_collect lib c IncrementRoomJoins = Some (c\<lparr>pc_roomJoins := pl_CounterInc lib (pc_roomJoins c)\<rparr>)"
| "prom_collect lib c IncrementRoomLeaves = Some (c\<lparr>pc_roomLeaves := pl_CounterInc lib (pc_roomLeaves c)\<rparr>)"
| "prom_collect lib c IncrementRooms = Some (c\<lparr>pc_roomsActive := pl_GaugeInc lib (pc_roomsActive c)\<rparr>)"
| "prom_collect lib c DecrementRooms = Some (c\<lparr>pc_roomsActive := pl_GaugeDec lib (pc_roomsActive c)\<rparr>)"
| "prom_collect lib c (IncrementErrors errorType) =
     map_option (\<lambda>v. c\<lparr>pc_errors := v\<rparr>) (pl_VecInc lib [errorType] (pc_errors c))"

text \<open>A call that panics has changed nothing.\<close>

definition prom_step ::
  "('r, 'g, 'c, 't, 'v, 'z) promLib_scheme \<Rightarrow> ('r, 'g, 'c, 't, 'v) Collector \<Rightarrow> metric \<Rightarrow> ('r, 'g, 'c, 't, 'v) Collector" where
  "prom_step lib c x = (case prom_collect lib c x of None \<Rightarrow> c | Some c' \<Rightarrow> c')"

definition one_label :: "('r, 'g, 'c, 't, 'v, 'z) promLib_scheme \<Rightarrow> ('r, 'g, 'c, 't, 'v) Collector \<Rightarrow> bool" where
  "one_label lib c \<longleftrightarrow> length (pl_labels lib (pc_errors c)) = 1"

subsection \<open>It is a collector\<close>

lemma prom_okD:
  assumes "prom_ok lib"
  shows "pl_gauge lib (pl_GaugeInc lib g) = pl_gauge lib g + 1"
    and "pl_gauge lib (pl_GaugeDec lib g) = pl_gauge lib g - 1"
    and "pl_counter lib (pl_CounterInc lib c) = pl_counter lib c + 1"
    and "x < 0 \<Longrightarrow> pl_CounterAdd lib x c = None"
    and "0 \<le> x \<Longrightarrow> \<exists>c'. pl_CounterAdd lib x c = Some c' \<and> pl_counter lib c' = pl_counter lib c + x"
    and "pl_samples lib (pl_Observe lib x t) = add_mset x (pl_samples lib t)"
    and "\<lbrakk>length (pl_labels lib v) = 1; validUTF8 e\<rbrakk> \<Longrightarrow> \<exists>v'. pl_VecInc lib [e] v = Some v' \<and>
      pl_labels lib v' = pl_labels lib v \<and> pl_vec lib v' = (pl_vec lib v)([e] := pl_vec lib v [e] + 1)"
    and "\<not> validUTF8 e \<Longrightarrow> pl_VecInc lib [e] v = None"
proof -
  have L: "gauge_laws lib" "counter_laws lib" "histogram_laws lib" "vec_laws lib"
    using assms by (simp_all add: prom_ok_def)
  show "pl_gauge lib (pl_GaugeInc lib g) = pl_gauge lib g + 1"
    "pl_gauge lib (pl_GaugeDec lib g) = pl_gauge lib g - 1" using L(1) by (simp_all add: gauge_laws_def)
  show "pl_counter lib (pl_CounterInc lib c) = pl_counter lib c + 1"
    "x < 0 \<Longrightarrow> pl_CounterAdd lib x c = None" using L(2) by (simp_all add: counter_laws_def)
  show "0 \<le> x \<Longrightarrow> \<exists>c'. pl_CounterAdd lib x c = Some c' \<and> pl_counter lib c' = pl_counter lib c + x"
    using L(2) unfolding counter_laws_def by (metis not_less)
  show "pl_samples lib (pl_Observe lib x t) = add_mset x (pl_samples lib t)"
    using L(3) by (simp add: histogram_laws_def)
  have V: "if length vs = length (pl_labels lib v) \<and> list_all validUTF8 vs
      then \<exists>v'. pl_VecInc lib vs v = Some v' \<and> pl_labels lib v' = pl_labels lib v \<and>
        pl_vec lib v' = (pl_vec lib v)(vs := pl_vec lib v vs + 1)
      else pl_VecInc lib vs v = None" for vs
    using L(4) unfolding vec_laws_def by blast
  show "\<exists>v'. pl_VecInc lib [e] v = Some v' \<and> pl_labels lib v' = pl_labels lib v \<and>
      pl_vec lib v' = (pl_vec lib v)([e] := pl_vec lib v [e] + 1)"
    if "length (pl_labels lib v) = 1" "validUTF8 e"
    using V [of "[e]"] that by simp
  show "pl_VecInc lib [e] v = None" if "\<not> validUTF8 e"
    using V [of "[e]"] that by simp
qed

text \<open>The four calls that can panic, with what they leave.\<close>

lemma prom_step_simps:
  "prom_collect lib c x = Some c' \<Longrightarrow> prom_step lib c x = c'"
  "prom_collect lib c x = None \<Longrightarrow> prom_step lib c x = c"
  by (simp_all add: prom_step_def)

lemma prom_collect_result:
  assumes "prom_ok lib" and "one_label lib c"
  obtains (panic) "prom_collect lib c x = None" and "(\<exists>n<0. x = IncrementMessagesSent n \<or> x = RecordMessageSize n) \<or>
      (\<exists>t. x = IncrementErrors t \<and> \<not> validUTF8 t)"
  | (counted) c' where "prom_collect lib c x = Some c'" and "one_label lib c'"
      and "pl_gauge lib (pc_connectionsActive c') = pl_gauge lib (pc_connectionsActive c) + of_int (conn_delta x)"
      and "pl_gauge lib (pc_roomsActive c') = pl_gauge lib (pc_roomsActive c) + of_int (room_delta x)"
      and "pl_counter lib (pc_roomJoins c') - pl_counter lib (pc_roomLeaves c') =
        pl_counter lib (pc_roomJoins c) - pl_counter lib (pc_roomLeaves c) + of_int (member_delta x)"
      and "pl_counter lib (pc_messagesSent c') = pl_counter lib (pc_messagesSent c) + of_int (sent_delta x)"
      and "pl_counter lib (pc_messagesDropped c') = pl_counter lib (pc_messagesDropped c) + of_int (drop_delta x)"
      and "\<And>t. pl_vec lib (pc_errors c') [t] = pl_vec lib (pc_errors c) [t] + of_int (error_delta t x)"
proof (cases x)
  case (IncrementMessagesSent n)
  then show ?thesis
  proof (cases "n < 0")
    case True
    then show ?thesis using IncrementMessagesSent prom_okD(4) [OF assms(1), of "of_int n"] panic by simp
  next
    case False
    then show ?thesis using IncrementMessagesSent prom_okD(5) [OF assms(1), of "of_int n" "pc_messagesSent c"] assms(2) counted
      by (auto simp: one_label_def)
  qed
next
  case (RecordMessageSize n)
  then show ?thesis
  proof (cases "n < 0")
    case True
    then show ?thesis using RecordMessageSize prom_okD(4) [OF assms(1), of "of_int n"] panic by simp
  next
    case False
    then show ?thesis using RecordMessageSize prom_okD(5) [OF assms(1), of "of_int n" "pc_messageBytes c"] assms(2) counted
      by (auto simp: one_label_def)
  qed
next
  case (IncrementErrors t)
  then show ?thesis
  proof (cases "validUTF8 t")
    case True
    then show ?thesis using IncrementErrors prom_okD(7) [OF assms(1), of "pc_errors c" t] assms(2) counted
      by (auto simp: one_label_def)
  next
    case False
    then show ?thesis using IncrementErrors prom_okD(8) [OF assms(1)] panic by simp
  qed
qed (use assms counted in \<open>simp_all add: one_label_def prom_okD(1-3) [OF assms(1)]\<close>)

lemma prom_collector:
  assumes "prom_ok lib"
  shows "metrics_collector (prom_step lib) (one_label lib) validUTF8
    (\<lambda>c. pl_gauge lib (pc_connectionsActive c)) (\<lambda>c. pl_gauge lib (pc_roomsActive c))
    (\<lambda>c. pl_counter lib (pc_roomJoins c) - pl_counter lib (pc_roomLeaves c))
    (\<lambda>c. pl_counter lib (pc_messagesSent c)) (\<lambda>c. pl_counter lib (pc_messagesDropped c))
    (\<lambda>c t. pl_vec lib (pc_errors c) [t])"
proof
  fix c :: "('a, 'b, 'c, 'd, 'e) Collector" and x
  assume c: "one_label lib c"
  show "one_label lib (prom_step lib c x)"
    and "pl_gauge lib (pc_connectionsActive (prom_step lib c x)) =
      pl_gauge lib (pc_connectionsActive c) + of_int (conn_delta x)"
    and "pl_gauge lib (pc_roomsActive (prom_step lib c x)) = pl_gauge lib (pc_roomsActive c) + of_int (room_delta x)"
    and "pl_counter lib (pc_roomJoins (prom_step lib c x)) - pl_counter lib (pc_roomLeaves (prom_step lib c x)) =
      pl_counter lib (pc_roomJoins c) - pl_counter lib (pc_roomLeaves c) + of_int (member_delta x)"
    and "pl_counter lib (pc_messagesDropped (prom_step lib c x)) =
      pl_counter lib (pc_messagesDropped c) + of_int (drop_delta x)"
    by (cases rule: prom_collect_result [OF assms c, of x]; force simp: prom_step_simps c)+
  show "0 \<le> sent_delta x \<Longrightarrow> pl_counter lib (pc_messagesSent (prom_step lib c x)) =
      pl_counter lib (pc_messagesSent c) + of_int (sent_delta x)"
    by (cases rule: prom_collect_result [OF assms c, of x]; force simp: prom_step_simps c)
  show "validUTF8 t \<Longrightarrow> pl_vec lib (pc_errors (prom_step lib c x)) [t] =
      pl_vec lib (pc_errors c) [t] + of_int (error_delta t x)" for t
    by (cases rule: prom_collect_result [OF assms c, of x]; force simp: prom_step_simps c)
qed

subsection \<open>Construction\<close>

definition metricNames :: "string list" where
  "metricNames = [''connections_active'', ''connections_total'', ''messages_received_total'',
     ''messages_sent_total'', ''messages_dropped_total'', ''message_received_bytes_total'',
     ''message_latency_seconds'', ''broadcast_duration_seconds'', ''rooms_active'', ''room_joins_total'',
     ''room_leaves_total'', ''errors_total'']"

definition fullName :: "string \<Rightarrow> string \<Rightarrow> string" where
  "fullName ns name = (if ns = [] then name else ns @ ''_'' @ name)"

lemma fullNames_distinct: "distinct (map (fullName ns) metricNames)"
proof -
  have "inj (fullName ns)" by (auto simp: inj_on_def fullName_def)
  moreover have "distinct metricNames" by (simp add: metricNames_def)
  ultimately show ?thesis by (auto simp: distinct_map intro: inj_on_subset)
qed

lemma fqName_opts: "name \<noteq> [] \<Longrightarrow> BuildFQName (promOpts cfg name help) = fullName (pc_namespace cfg) name"
  by (simp add: BuildFQName_def promOpts_def fullName_def)

lemma prom_histograms:
  assumes "prom_ok lib"
  shows "\<not> increasing (pc_latencyBuckets cfg) \<Longrightarrow> promLatency lib cfg = None"
    and "increasing (pc_latencyBuckets cfg) \<Longrightarrow> \<exists>t. promLatency lib cfg = Some t \<and>
      pl_fqName lib (PHistogram t) = fullName (pc_namespace cfg) ''message_latency_seconds''"
    and "\<not> increasing (pc_broadcastBuckets cfg) \<Longrightarrow> promBroadcast lib cfg = None"
    and "increasing (pc_broadcastBuckets cfg) \<Longrightarrow> \<exists>t. promBroadcast lib cfg = Some t \<and>
      pl_fqName lib (PHistogram t) = fullName (pc_namespace cfg) ''broadcast_duration_seconds''"
proof -
  have H: "if increasing bs
      then \<exists>t. pl_NewHistogram lib opts bs = Some t \<and> pl_samples lib t = {#} \<and> pl_fqName lib (PHistogram t) = BuildFQName opts
      else pl_NewHistogram lib opts bs = None" for opts bs
    using assms unfolding prom_ok_def histogram_laws_def by blast
  show "\<not> increasing (pc_latencyBuckets cfg) \<Longrightarrow> promLatency lib cfg = None"
    "\<not> increasing (pc_broadcastBuckets cfg) \<Longrightarrow> promBroadcast lib cfg = None"
    using H by (metis promLatency_def, metis promBroadcast_def)
  show "\<exists>t. promLatency lib cfg = Some t \<and>
      pl_fqName lib (PHistogram t) = fullName (pc_namespace cfg) ''message_latency_seconds''"
    if "increasing (pc_latencyBuckets cfg)"
    using H [of "pc_latencyBuckets cfg"] that by (fastforce simp: promLatency_def fqName_opts)
  show "\<exists>t. promBroadcast lib cfg = Some t \<and>
      pl_fqName lib (PHistogram t) = fullName (pc_namespace cfg) ''broadcast_duration_seconds''"
    if "increasing (pc_broadcastBuckets cfg)"
    using H [of "pc_broadcastBuckets cfg"] that by (fastforce simp: promBroadcast_def fqName_opts)
qed

lemma promBuild_names:
  assumes "prom_ok lib"
    and "pl_fqName lib (PHistogram lat) = fullName (pc_namespace cfg) ''message_latency_seconds''"
    and "pl_fqName lib (PHistogram bc) = fullName (pc_namespace cfg) ''broadcast_duration_seconds''"
  shows "map (pl_fqName lib) (collectors (promBuild lib cfg lat bc)) = map (fullName (pc_namespace cfg)) metricNames"
  using assms
  by (simp add: collectors_def promBuild_def promConfig.defs Collector.defs metricNames_def prom_ok_def
      gauge_laws_def counter_laws_def vec_laws_def fqName_opts)

text \<open>\<open>New\<close> panics exactly when the buckets of a histogram do not increase or a full name is not valid or
  already taken; otherwise all metrics are registered and read zero.\<close>

definition promFits :: "('r, 'g, 'c, 't, 'v, 'z) promLib_scheme \<Rightarrow> 'r promConfig \<Rightarrow> bool" where
  "promFits lib cfg \<longleftrightarrow> increasing (pc_latencyBuckets cfg) \<and> increasing (pc_broadcastBuckets cfg) \<and>
     list_all (pl_validName lib) (map (fullName (pc_namespace cfg)) metricNames) \<and>
     fullName (pc_namespace cfg) ` set metricNames \<inter> pl_names lib (pc_registerer cfg) = {}"

lemma promNew_cases:
  assumes ok: "prom_ok lib" and cfg: "cfg = foldl (\<lambda>c opt. opt c) (promDefaults lib) options"
  obtains (panic) "promNew lib options = None" and "\<not> promFits lib cfg"
  | (built) lat bc r where "promNew lib options = Some ((promBuild lib cfg lat bc)\<lparr>pc_registerer := r\<rparr>)"
      and "promFits lib cfg"
      and "pl_names lib r = pl_names lib (pc_registerer cfg) \<union> fullName (pc_namespace cfg) ` set metricNames"
proof (cases "increasing (pc_latencyBuckets cfg) \<and> increasing (pc_broadcastBuckets cfg)")
  case False
  then have "promLatency lib cfg = None \<or> promBroadcast lib cfg = None"
    using prom_histograms(1,3) [OF ok, of cfg] by (cases "increasing (pc_latencyBuckets cfg)") simp_all
  then have "promNew lib options = None"
    by (auto simp: promNew_def Let_def simp flip: cfg split: option.splits)
  then show ?thesis using False by (intro panic) (auto simp: promFits_def)
next
  case True
  then obtain lat bc where lb: "promLatency lib cfg = Some lat" "promBroadcast lib cfg = Some bc"
    "pl_fqName lib (PHistogram lat) = fullName (pc_namespace cfg) ''message_latency_seconds''"
    "pl_fqName lib (PHistogram bc) = fullName (pc_namespace cfg) ''broadcast_duration_seconds''"
    using prom_histograms(2,4) [OF ok, of cfg] by blast
  let ?c = "promBuild lib cfg lat bc" and ?ns = "map (fullName (pc_namespace cfg)) metricNames"
  have reg: "pc_registerer ?c = pc_registerer cfg" by (simp add: promBuild_def promConfig.defs)
  have new: "promNew lib options =
      map_option (\<lambda>r. ?c\<lparr>pc_registerer := r\<rparr>) (pl_MustRegister lib (collectors ?c) (pc_registerer cfg))"
    by (simp add: promNew_def Let_def lb reg flip: cfg)
  have "if distinct ?ns \<and> list_all (pl_validName lib) ?ns \<and> set ?ns \<inter> pl_names lib (pc_registerer cfg) = {}
      then \<exists>r'. pl_MustRegister lib (collectors ?c) (pc_registerer cfg) = Some r' \<and>
        pl_names lib r' = pl_names lib (pc_registerer cfg) \<union> set ?ns
      else pl_MustRegister lib (collectors ?c) (pc_registerer cfg) = None"
    using ok promBuild_names [OF ok lb(3,4)] unfolding prom_ok_def register_laws_def Let_def by metis
  then show ?thesis
    using new built panic True by (auto simp: promFits_def fullNames_distinct split: if_splits)
qed

lemma promNew_zero:
  assumes ok: "prom_ok lib" and new: "promNew lib options = Some c"
  shows "one_label lib c" and "pl_gauge lib (pc_connectionsActive c) = 0" and "pl_gauge lib (pc_roomsActive c) = 0"
    and "pl_counter lib (pc_messagesDropped c) = 0" and "pl_vec lib (pc_errors c) [t] = 0"
proof -
  have L: "gauge_laws lib" "counter_laws lib" "vec_laws lib" using ok by (simp_all add: prom_ok_def)
  obtain cfg lat bc reg where c: "c = (promBuild lib cfg lat bc)\<lparr>pc_registerer := reg\<rparr>"
    using new by (cases rule: promNew_cases [OF ok refl, of options]) (simp, metis option.inject)
  show "one_label lib c" "pl_vec lib (pc_errors c) [t] = 0"
    using L(3) by (simp_all add: c promBuild_def promConfig.defs Collector.defs one_label_def vec_laws_def)
  show "pl_gauge lib (pc_connectionsActive c) = 0" "pl_gauge lib (pc_roomsActive c) = 0"
    using L(1) by (simp_all add: c promBuild_def promConfig.defs Collector.defs gauge_laws_def)
  show "pl_counter lib (pc_messagesDropped c) = 0"
    using L(2) by (simp add: c promBuild_def promConfig.defs Collector.defs counter_laws_def)
qed

text \<open>A second collector with the same namespace on the same registry panics, as the comment of \<open>New\<close> says.\<close>

lemma promNew_twice:
  assumes ok: "prom_ok lib" and new: "promNew lib options = Some c"
  shows "promNew lib (options @ [WithRegistry (pc_registerer c)]) = None"
proof -
  define cfg where "cfg = foldl (\<lambda>c opt. opt c) (promDefaults lib) options"
  have names: "pl_names lib (pc_registerer c) \<supseteq> fullName (pc_namespace cfg) ` set metricNames"
    using new by (cases rule: promNew_cases [OF ok cfg_def]) auto
  have "foldl (\<lambda>c opt. opt c) (promDefaults lib) (options @ [WithRegistry (pc_registerer c)]) =
      cfg\<lparr>pc_registerer := pc_registerer c\<rparr>"
    by (simp add: cfg_def WithRegistry_def)
  moreover have "\<not> promFits lib (cfg\<lparr>pc_registerer := pc_registerer c\<rparr>)"
    using names by (auto simp: promFits_def metricNames_def)
  ultimately show ?thesis
    using promNew_cases [OF ok refl, of "options @ [WithRegistry (pc_registerer c)]"] by metis
qed

subsection \<open>The gauges are exact\<close>

lemma prom_no_panic:
  assumes "prom_ok lib" and "one_label lib c" and "0 \<le> sent_delta x" and "\<And>n. x = RecordMessageSize n \<Longrightarrow> 0 \<le> n"
    and "\<And>t. x = IncrementErrors t \<Longrightarrow> validUTF8 t"
  shows "prom_collect lib c x \<noteq> None"
  using assms by (cases rule: prom_collect_result [OF assms(1,2), of x]) force+

text \<open>C5: A Prometheus collector that received every metrics call of a reachable hub reads exactly the
  number of registered clients and of existing rooms, and counts the same drops and, for each
  label that is valid UTF-8, the same errors as \<open>DebugMetrics\<close>.\<close>

theorem prom_gauges_exact:
  fixes t0 :: int
  assumes "reach hub_init hub_step h" and ok: "prom_ok lib" and new: "promNew lib options = Some c0"
  defines "c \<equiv> foldl (prom_step lib) c0 (metric_calls (h_trace h))"
    and "d \<equiv> foldl dm_collect (NewDebugMetrics t0) (metric_calls (h_trace h))"
  shows "pl_gauge lib (pc_connectionsActive c) = of_int (ClientCount h) \<and>
    pl_gauge lib (pc_roomsActive c) = of_nat (card {n. RoomExists n h}) \<and>
    pl_counter lib (pc_messagesDropped c) = of_int (totalDropped d) \<and>
    (\<forall>t. validUTF8 t \<longrightarrow> pl_vec lib (pc_errors c) [t] = of_int (err_count (dm_errors d) t))"
proof -
  note replay = metrics_collector.replay [OF prom_collector [OF ok] promNew_zero(1) [OF ok new]]
  have "{n. RoomExists n h} = dom (h_rooms h)" by (auto simp: RoomExists_def)
  moreover have "gauge conn_delta h = h_clientCount h" "gauge room_delta h = int (card (dom (h_rooms h)))"
    using sys_invD(1) [OF reachable [OF assms(1)]] by (simp_all add: registry_inv_def inv_gauges_def)
  moreover have "totalDropped (NewDebugMetrics t0) = 0" "err_count (dm_errors (NewDebugMetrics t0)) t = 0" for t
    by (simp_all add: NewDebugMetrics_def err_count_def)
  ultimately show ?thesis
    unfolding c_def d_def
    by (simp add: replay promNew_zero [OF ok new] debug.dropped_replay debug.errors_replay
        metric_calls_tally ClientCount_def flip: gauge_def)
qed

text \<open>A library that keeps each metric with its name, and a registry that is the set of names.\<close>

definition exampleLib :: "(string set, string \<times> real, string \<times> real, string \<times> real multiset,
    string \<times> string list \<times> (string list \<Rightarrow> real)) promLib" where
  "exampleLib =
     \<lparr>pl_DefaultRegisterer = {}, pl_DefBuckets = [1, 2],
      pl_NewGauge = (\<lambda>opts. (BuildFQName opts, 0)), pl_NewCounter = (\<lambda>opts. (BuildFQName opts, 0)),
      pl_NewHistogram = (\<lambda>opts bs. if increasing bs then Some (BuildFQName opts, {#}) else None),
      pl_NewCounterVec = (\<lambda>opts ls. (BuildFQName opts, ls, \<lambda>_. 0)),
      pl_MustRegister = (\<lambda>ms r.
         let ns = map (\<lambda>m. case m of PGauge g \<Rightarrow> fst g | PCounter c \<Rightarrow> fst c | PHistogram t \<Rightarrow> fst t | PCounterVec v \<Rightarrow> fst v) ms
         in if distinct ns \<and> set ns \<inter> r = {} then Some (r \<union> set ns) else None),
      pl_GaugeInc = (\<lambda>(n, x). (n, x + 1)), pl_GaugeDec = (\<lambda>(n, x). (n, x - 1)),
      pl_CounterInc = (\<lambda>(n, x). (n, x + 1)),
      pl_CounterAdd = (\<lambda>y (n, x). if y < 0 then None else Some (n, x + y)),
      pl_Observe = (\<lambda>y (n, t). (n, add_mset y t)),
      pl_VecInc = (\<lambda>vs (n, ls, f). if length vs = length ls \<and> list_all validUTF8 vs
         then Some (n, ls, f(vs := f vs + 1)) else None),
      pl_gauge = snd, pl_counter = snd, pl_samples = snd, pl_labels = (\<lambda>v. fst (snd v)), pl_vec = (\<lambda>v. snd (snd v)),
      pl_fqName = (\<lambda>m. case m of PGauge g \<Rightarrow> fst g | PCounter c \<Rightarrow> fst c | PHistogram t \<Rightarrow> fst t | PCounterVec v \<Rightarrow> fst v),
      pl_names = (\<lambda>r. r), pl_validName = (\<lambda>_. True)\<rparr>"

lemma exampleLib_ok: "prom_ok exampleLib"
  unfolding prom_ok_def
proof (intro conjI)
  show "gauge_laws exampleLib" by (simp add: gauge_laws_def exampleLib_def)
  show "counter_laws exampleLib" by (simp add: counter_laws_def exampleLib_def)
  show "histogram_laws exampleLib" by (simp add: histogram_laws_def exampleLib_def increasing_def)
  show "vec_laws exampleLib" by (simp add: vec_laws_def exampleLib_def)
  show "register_laws exampleLib" by (simp add: register_laws_def exampleLib_def list_all_iff)
qed

lemma exampleLib_new: "\<exists>c. promNew exampleLib [] = Some c"
proof -
  have "promFits exampleLib (promDefaults exampleLib)"
    by (simp add: promFits_def promDefaults_def exampleLib_def increasing_def list_all_iff)
  then show ?thesis by (cases rule: promNew_cases [OF exampleLib_ok refl, of "[]"]) auto
qed

theorem prom_gauges_exact_witness:
  "\<exists>c. promNew exampleLib [] = Some c \<and>
     pl_gauge exampleLib (pc_connectionsActive (foldl (prom_step exampleLib) c (metric_calls (h_trace startedHub)))) =
       of_int (ClientCount startedHub)"
  using exampleLib_new prom_gauges_exact [OF startedHub_reach exampleLib_ok] by blast

end
