(* ===== verification/Ws_Format.thy ===== *)
theory Ws_Format
  imports Ws_State "HOL-Library.Log_Nat" "HOL-Library.Char_ord" "HOL-Library.List_Lexorder"
begin

section \<open>Formatted output (metrics.go)\<close>

text \<open>
  The verbs of Go's package \<open>fmt\<close> that the repository uses (\<open>%d\<close>, \<open>%.0f\<close>, \<open>%.2f\<close> and \<open>%s\<close> of a
  duration), and the summary that \<open>DebugMetrics.String\<close> prints with them. A \<open>float64\<close> is a real number;
  the conversion of a 64-bit integer to it rounds to 53 bits, as the hardware does.
\<close>

subsection \<open>Numbers\<close>

function digits :: "int \<Rightarrow> string" where
  "digits n = (if n < 10 then [char_of (48 + n)] else digits (n div 10) @ [char_of (48 + n mod 10)])"
  by pat_completeness auto
termination
  by (relation "measure nat") auto

declare digits.simps [simp del]

definition showInt :: "int \<Rightarrow> string" where
  "showInt i = (if i < 0 then ''-'' else []) @ digits \<bar>i\<bar>"

definition digitVal :: "char \<Rightarrow> int" where
  "digitVal ch = of_char ch - 48"

definition readDigits :: "string \<Rightarrow> int" where
  "readDigits s = foldl (\<lambda>n ch. 10 * n + digitVal ch) 0 s"

lemma digitVal_digit [simp]: "0 \<le> d \<Longrightarrow> d < 10 \<Longrightarrow> digitVal (char_of (48 + d)) = d"
  by (simp add: digitVal_def)

text \<open>What is printed can be read back.\<close>

lemma readDigits_digits: "0 \<le> n \<Longrightarrow> readDigits (digits n) = n"
proof (induction n rule: digits.induct)
  case (1 n)
  show ?case
  proof (cases "n < 10")
    case True
    then show ?thesis using 1(2) by (simp add: digits.simps [of n] readDigits_def)
  next
    case False
    then have "readDigits (digits n) = 10 * readDigits (digits (n div 10)) + n mod 10"
      by (subst digits.simps) (simp add: readDigits_def)
    then show ?thesis using 1(1) False by simp
  qed
qed

lemma digits_inj: "0 \<le> m \<Longrightarrow> 0 \<le> n \<Longrightarrow> digits m = digits n \<longleftrightarrow> m = n"
  by (metis readDigits_digits)

text \<open>Rounding to the nearest integer, ties to even, as \<open>strconv\<close> rounds decimals and the
  hardware rounds binary fractions.\<close>

definition roundEven :: "real \<Rightarrow> int" where
  "roundEven x = (let q = \<lfloor>x\<rfloor>; r = x - of_int q in
     if r < 1 / 2 then q else if 1 / 2 < r then q + 1 else if even q then q else q + 1)"

lemma roundEven_close: "\<bar>of_int (roundEven x) - x\<bar> \<le> 1 / 2"
  unfolding roundEven_def Let_def using floor_correct [of x] by (auto simp: abs_le_iff)

lemma roundEven_of_int [simp]: "roundEven (of_int k) = k"
  by (simp add: roundEven_def)

lemma roundEven_mono_int: "of_int k \<le> x \<Longrightarrow> k \<le> roundEven x"
  unfolding roundEven_def Let_def by (simp add: le_floor_iff) (metis le_floor_iff order.trans zle_add1_eq_le less_le_not_le linorder_linear)

text \<open>The conversion \<open>float64(b)\<close> of an integer: exact up to 53 bits, rounded above.\<close>

definition float64 :: "int \<Rightarrow> real" where
  "float64 b = (let e = bitlen \<bar>b\<bar> - 53 in
     if e \<le> 0 then of_int b
     else of_int (sgn b) * (of_int (roundEven (of_int \<bar>b\<bar> / 2 ^ nat e)) * 2 ^ nat e))"

lemma float64_exact: "\<bar>b\<bar> < 2 ^ 53 \<Longrightarrow> float64 b = of_int b"
  using bitlen_le_iff_power [of "\<bar>b\<bar>" 53] by (simp add: float64_def)

lemma float64_close: "\<bar>float64 b - of_int b\<bar> \<le> \<bar>of_int b\<bar> / 2 ^ 53"
proof (cases "bitlen \<bar>b\<bar> - 53 \<le> 0")
  case True
  then show ?thesis by (simp add: float64_def)
next
  case False
  define e where "e = nat (bitlen \<bar>b\<bar> - 53)"
  define x where "x = \<bar>of_int b\<bar> / (2::real) ^ e"
  have b: "b \<noteq> 0" using False by auto
  have "float64 b = of_int (sgn b) * (of_int (roundEven x) * 2 ^ e)"
    using False by (simp add: float64_def e_def x_def Let_def)
  moreover have "of_int b = of_int (sgn b) * (x * 2 ^ e)"
    using b by (cases b "0 :: int" rule: linorder_cases) (auto simp: x_def)
  ultimately have "\<bar>float64 b - of_int b\<bar> = \<bar>of_int (roundEven x) - x\<bar> * 2 ^ e"
    using b by (cases b "0 :: int" rule: linorder_cases) (simp_all add: abs_mult abs_minus_commute flip: left_diff_distrib)
  also have "\<dots> \<le> 2 ^ e / 2"
    using roundEven_close [of x] by (simp add: mult_right_mono)
  also have "\<dots> \<le> \<bar>of_int b\<bar> / 2 ^ 53"
  proof -
    have "(2::int) ^ (e + 52) \<le> \<bar>b\<bar>"
      using bitlen_bounds [of "\<bar>b\<bar>"] b False by (simp add: e_def nat_diff_distrib)
    then have "(2::real) ^ (e + 52) \<le> \<bar>of_int b\<bar>" by (metis of_int_abs of_int_le_iff of_int_numeral of_int_power)
    then show ?thesis by (simp add: power_add field_simps)
  qed
  finally show ?thesis .
qed

text \<open>\<open>%.nf\<close>: the digits before the point, and \<open>n\<close> digits after it when \<open>n\<close> is not zero.\<close>

definition padZero :: "nat \<Rightarrow> int \<Rightarrow> string" where
  "padZero n k = (let s = digits k in replicate (n - length s) (CHR ''0'') @ s)"

definition fixed :: "nat \<Rightarrow> real \<Rightarrow> string" where
  "fixed n x = (let k = roundEven (\<bar>x\<bar> * 10 ^ n) in
     (if x < 0 then ''-'' else []) @ digits (k div 10 ^ n) @
     (if n = 0 then [] else ''.'' @ padZero n (k mod 10 ^ n)))"

text \<open>\<open>Duration.String\<close>: \<open>fmtFrac\<close> prints the last \<open>prec\<close> digits as a fraction without trailing zeros,
  and without the point when nothing is left.\<close>

definition fmtFrac :: "nat \<Rightarrow> int \<Rightarrow> string" where
  "fmtFrac prec v = (let f = rev (dropWhile ((=) (CHR ''0'')) (rev (padZero prec (v mod 10 ^ prec))))
     in if f = [] then [] else ''.'' @ f)"

definition showSmall :: "int \<Rightarrow> string" where
  "showSmall u =
     (if u = 0 then ''0s''
      else if u < 1000 then digits u @ ''ns''
      else if u < 1000000 then digits (u div 1000) @ fmtFrac 3 u @ [CHR 0xC2, CHR 0xB5] @ ''s''
      else digits (u div 1000000) @ fmtFrac 6 u @ ''ms'')"

definition showLarge :: "int \<Rightarrow> string" where
  "showLarge u =
     (let s = u div 1000000000; m = s div 60; h = m div 60
      in (if 0 < h then digits h @ ''h'' else []) @ (if 0 < m then digits (m mod 60) @ ''m'' else []) @
         digits (s mod 60) @ fmtFrac 9 u @ ''s'')"

definition showDuration :: "int \<Rightarrow> string" where
  "showDuration d = (let u = \<bar>d\<bar>
     in (if d < 0 then ''-'' else []) @ (if u < 1000000000 then showSmall u else showLarge u))"

subsection \<open>The summary of DebugMetrics\<close>

definition formatBytes :: "int \<Rightarrow> string" where
  "formatBytes b =
     (if 2 ^ 30 \<le> b then fixed 2 (float64 b / 2 ^ 30) @ '' GB''
      else if 2 ^ 20 \<le> b then fixed 2 (float64 b / 2 ^ 20) @ '' MB''
      else if 2 ^ 10 \<le> b then fixed 2 (float64 b / 2 ^ 10) @ '' KB''
      else showInt b @ '' B'')"

definition joinWith :: "string \<Rightarrow> string list \<Rightarrow> string" where
  "joinWith sep parts = (case parts of [] \<Rightarrow> [] | p # ps \<Rightarrow> p @ concat (map (\<lambda>q. sep @ q) ps))"

definition newline :: string where
  "newline = [CHR 0x0A]"

text \<open>The map of errors is visited in the order \<open>rng\<close>, the keys are sorted, and each count is looked
  up again (an absent key would read as 0).\<close>

definition errorLine :: "(string set \<Rightarrow> string list) \<Rightarrow> (string \<Rightarrow> int option) \<Rightarrow> string" where
  "errorLine rng m =
     (if dom m = {} then []
      else ''  errors      : '' @
        joinWith '' '' (map (\<lambda>k. k @ ''='' @ showInt (err_count m k)) (sort (rng (dom m)))) @ newline)"

definition dm_String :: "(string set \<Rightarrow> string list) \<Rightarrow> int \<Rightarrow> DebugMetrics \<Rightarrow> string" where
  "dm_String rng now d = (let s = dm_Stats now d in
     ''wshub metrics (uptime: '' @ showDuration (StatsUptime s) @ '')'' @ newline @
     ''  connections : '' @ showInt (ActiveConnections s) @ '' active, '' @ showInt (TotalConnections s) @
       '' total'' @ newline @
     ''  messages    : '' @ showInt (TotalMessagesRecv s) @ '' recv, '' @ showInt (TotalMessagesSent s) @
       '' sent, '' @ showInt (TotalDropped s) @ '' dropped, '' @ formatBytes (TotalMessageBytes s) @ newline @
     ''  rooms       : '' @ showInt (ActiveRooms s) @ '' active, '' @ showInt (TotalRoomJoins s) @
       '' joins, '' @ showInt (TotalRoomLeaves s) @ '' leaves'' @ newline @
     (if 0 < AvgLatency s then ''  avg latency : '' @ showDuration (AvgLatency s) @ newline else []) @
     (if 0 < AvgBroadcast s then ''  avg bcast   : '' @ showDuration (AvgBroadcast s) @ newline else []) @
     errorLine rng (Errors s))"

subsection \<open>Facts about the summary\<close>

lemma sort_range:
  fixes A :: "'a::linorder set"
  assumes "range_ok rng" and "finite A"
  shows "sort (rng A) = sorted_list_of_set A"
  using range_okD [OF assms]
  by (metis set_sort distinct_sort sorted_sort sorted_list_of_set.idem_if_sorted_distinct)

lemma dm_collect_errors:
  "finite (dom (dm_errors d)) \<Longrightarrow> finite (dom (dm_errors (dm_collect d x)))"
  by (cases x) simp_all

lemma replay_errors:
  "finite (dom (dm_errors d)) \<Longrightarrow> finite (dom (dm_errors (foldl dm_collect d xs)))"
  by (induction xs arbitrary: d) (simp_all add: dm_collect_errors)

lemma errorLine_range:
  assumes "range_ok rng" and "range_ok rng'" and "finite (dom m)"
  shows "errorLine rng m = errorLine rng' m"
  by (simp add: errorLine_def sort_range [OF assms(1,3)] sort_range [OF assms(2,3)])

text \<open>The comment of \<open>String\<close> promises a deterministic output: it does not depend on the order in which the
  map of errors is visited.\<close>

lemma dm_String_deterministic:
  assumes "range_ok rng" and "range_ok rng'"
  shows "dm_String rng now (foldl dm_collect (NewDebugMetrics t0) xs) =
    dm_String rng' now (foldl dm_collect (NewDebugMetrics t0) xs)"
proof -
  have "finite (dom (dm_errors (foldl dm_collect (NewDebugMetrics t0) xs)))"
    by (rule replay_errors) (simp add: NewDebugMetrics_def)
  moreover have "Errors (dm_Stats now d) = dm_errors d" for d by (simp add: dm_Stats_def)
  ultimately show ?thesis
    using errorLine_range [OF assms] by (simp only: dm_String_def Let_def)
qed

text \<open>The two digits after the point of a size are right to half a unit of the last one, up to the
  rounding of the conversion to \<open>float64\<close>.\<close>

definition hundredths :: "int \<Rightarrow> nat \<Rightarrow> int" where
  "hundredths b k = roundEven (float64 b / 2 ^ k * 100)"

lemma fixed_hundredths:
  assumes "0 \<le> b"
  shows "fixed 2 (float64 b / 2 ^ k) =
    digits (hundredths b k div 100) @ ''.'' @ padZero 2 (hundredths b k mod 100)"
proof -
  have "\<bar>float64 b - of_int b\<bar> \<le> of_int b" using float64_close [of b] assms by (simp add: field_simps)
  then have "0 \<le> float64 b" by simp
  moreover from this have "\<not> float64 b / 2 ^ k < 0" by (simp add: not_less)
  ultimately show ?thesis by (simp add: fixed_def hundredths_def Let_def)
qed

lemma hundredths_close:
  assumes "\<bar>b\<bar> < 2 ^ 53"
  shows "\<bar>of_int (hundredths b k) - of_int b / 2 ^ k * 100\<bar> \<le> (1 / 2 :: real)"
  using roundEven_close [of "float64 b / 2 ^ k * 100"] by (simp add: hundredths_def float64_exact [OF assms])

end
