(* ===== verification/Ws_Loadtest.thy ===== *)
theory Ws_Loadtest
  imports Ws_Format Ws_System
begin

section \<open>The load test command (cmd/loadtest/main.go)\<close>

text \<open>
  The parts of the load test that compute: the timestamped payloads and the reader that measures
  latencies from them, the latency collector with its percentiles, the connection helpers, the
  senders, the distribution over rooms, the scenarios' message handlers and the choice of scenarios. A
  connection is an opaque value, \<open>None\<close> where dialling failed. What the loops wait for (ticks, contexts,
  reads) is a list of events. \<open>None\<close> as the value of an operation is a panic.
\<close>

subsection \<open>The test server\<close>

text \<open>\<open>newServer\<close>: the hub, without the collector given by \<open>WithMetrics\<close> (it receives the calls of the trace), and
  the URL for the clients.\<close>

definition loadConfig :: Config where
  "loadConfig = \<lparr>ReadBufferSize = 0, WriteBufferSize = 0, WriteWait = 0, PongWait = 0, PingPeriod = 0,
     MaxMessageSize = 0, SendChannelSize = 256, EnableCompression = False, CoalesceWrites = False,
     CheckOrigin = Some AllowAllOrigins, Subprotocols = []\<rparr>"

definition serverOptions :: "int \<Rightarrow> (hub \<Rightarrow> hub) list \<Rightarrow> (hub \<Rightarrow> hub) list" where
  "serverOptions par opts =
     [WithConfig loadConfig] @ (if 0 < par then [WithParallelBroadcast par] else []) @ opts"

definition newServer ::
  "(string \<Rightarrow> string option) \<Rightarrow> request \<Rightarrow> string \<Rightarrow> int \<Rightarrow> int \<Rightarrow> (hub \<Rightarrow> hub) list \<Rightarrow> string \<Rightarrow> hub \<times> string" where
  "newServer url_Host probe uuid numCPU par opts url =
     (NewHub url_Host probe uuid numCPU (serverOptions par opts),
      ''ws'' @ (if prefix ''http'' url then drop 4 url else url) @ ''/ws'')"

text \<open>What holds of every reachable hub holds of the server's.\<close>

lemma newServer_init:
  assumes "set opts \<subseteq> Options"
  shows "hub_init (fst (newServer u probe i n par opts url))"
proof -
  have "set (serverOptions par opts) \<subseteq> Options" using assms by (auto simp: serverOptions_def Options_def)
  then show ?thesis unfolding hub_init_def newServer_def fst_conv by blast
qed

subsection \<open>Timestamped payloads\<close>

text \<open>\<open>binary.LittleEndian\<close> on eight bytes; \<open>time.Now().UnixNano()\<close> is an argument.\<close>

definition putUint64 :: "int \<Rightarrow> bytes" where
  "putUint64 v = map (\<lambda>i. char_of (nat (v div 256 ^ i mod 256))) [0..<8]"

definition getUint64 :: "bytes \<Rightarrow> int" where
  "getUint64 bs = (\<Sum>i<8. int (of_char (bs ! i)) * 256 ^ i)"

definition stampPayload :: "int \<Rightarrow> bytes \<Rightarrow> bytes" where
  "stampPayload now buf = putUint64 (now mod 2 ^ 64) @ drop 8 buf"

definition makePayload :: "int \<Rightarrow> int \<Rightarrow> bytes" where
  "makePayload now sz =
     (let n = (if sz < 8 then 8 else sz) in stampPayload now (replicate (nat n) (CHR 0x00)))"

subsection \<open>The latency collector\<close>

record latencyCollector =
  lc_samples :: "int list"

definition newLatencyCollector :: "nat \<Rightarrow> latencyCollector" where
  "newLatencyCollector capacity = \<lparr>lc_samples = []\<rparr>"

definition lc_add :: "int \<Rightarrow> latencyCollector \<Rightarrow> latencyCollector" where
  "lc_add d lc = lc\<lparr>lc_samples := lc_samples lc @ [d]\<rparr>"

text \<open>The four named results and the collector, whose samples are sorted in place. Without samples the
  results keep their zero values.\<close>

definition percentiles :: "latencyCollector \<Rightarrow> (int \<times> int \<times> int \<times> int) \<times> latencyCollector" where
  "percentiles lc =
     (if lc_samples lc = [] then ((0, 0, 0, 0), lc)
      else let xs = sort (lc_samples lc); n = length xs
           in ((xs ! (n * 50 div 100), xs ! (n * 95 div 100), xs ! (n * 99 div 100), xs ! (n - 1)),
               lc\<lparr>lc_samples := xs\<rparr>))"

subsection \<open>Readers and senders\<close>

text \<open>One message of \<open>readLoop\<close> at the time \<open>now\<close>; the loop ends at the first read error.\<close>

definition readMessage :: "int \<Rightarrow> bytes \<Rightarrow> latencyCollector \<times> int \<Rightarrow> latencyCollector \<times> int" where
  "readMessage now msg s = (case s of (lc, n) \<Rightarrow>
     (if 8 \<le> length msg
      then lc_add (wrap64 (now - wrap64 (getUint64 (take 8 msg)))) lc else lc, n + 1))"

fun readLoop_load :: "(int \<times> bytes option) list \<Rightarrow> latencyCollector \<times> int \<Rightarrow> latencyCollector \<times> int" where
  "readLoop_load [] s = s"
| "readLoop_load ((now, None) # reads) s = s"
| "readLoop_load ((now, Some msg) # reads) s = readLoop_load reads (readMessage now msg s)"

definition startReaders :: "'conn option list \<Rightarrow> 'conn list" where
  "startReaders conns = List.map_filter id conns"

fun firstConn :: "'conn option list \<Rightarrow> 'conn option" where
  "firstConn [] = None"
| "firstConn (None # conns) = firstConn conns"
| "firstConn (Some c # conns) = Some c"

text \<open>\<open>time.NewTicker(time.Second / time.Duration(rate))\<close>: the division panics for a zero rate, the ticker
  for a period that is not positive.\<close>

definition tickerPeriod :: "int \<Rightarrow> int option" where
  "tickerPeriod rate = (if rate = 0 then None
     else let d = go_div Second rate in if d \<le> 0 then None else Some d)"

text \<open>The sender goroutine of \<open>startBroadcaster\<close> and \<open>startMultiSenders\<close>: at a tick it stamps the payload and
  writes it; it ends when the context is done or a write fails. The result is what was written, with the
  counter.\<close>

datatype senderEvent = SendTick int bool | SendDone

fun senderLoop :: "senderEvent list \<Rightarrow> bytes \<Rightarrow> bytes list \<times> int \<Rightarrow> bytes list \<times> int" where
  "senderLoop [] payload s = s"
| "senderLoop (SendDone # evs) payload s = s"
| "senderLoop (SendTick now ok # evs) payload (out, n) =
     (let p = stampPayload now payload
      in if ok then senderLoop evs p (out @ [p], n + 1) else (out, n))"

definition startBroadcaster :: "int \<Rightarrow> int \<Rightarrow> int \<Rightarrow> senderEvent list \<Rightarrow> (bytes list \<times> int) option" where
  "startBroadcaster rate sz now evs =
     (case tickerPeriod rate of None \<Rightarrow> None | Some _ \<Rightarrow> Some (senderLoop evs (makePayload now sz) ([], 0)))"

definition startMultiSenders :: "int \<Rightarrow> int \<Rightarrow> int \<Rightarrow> senderEvent list list \<Rightarrow> (bytes list list \<times> int) option" where
  "startMultiSenders rate sz now evss =
     (if evss \<noteq> [] \<and> tickerPeriod rate = None then None
      else let runs = map (\<lambda>evs. senderLoop evs (makePayload now sz) ([], 0)) evss
           in Some (map fst runs, sum_list (map snd runs)))"

text \<open>\<open>connectN\<close>: each goroutine writes its own slot or counts an error. \<open>order\<close> is the order in which they
  finish, \<open>dial\<close> what dialling answers.\<close>

definition connectOne :: "(nat \<Rightarrow> 'conn option) \<Rightarrow> nat \<Rightarrow> 'conn option list \<times> int \<Rightarrow> 'conn option list \<times> int" where
  "connectOne dial i s = (case s of (conns, errs) \<Rightarrow>
     (case dial i of None \<Rightarrow> (conns, errs + 1) | Some c \<Rightarrow> (conns[i := Some c], errs)))"

definition connectN :: "(nat \<Rightarrow> 'conn option) \<Rightarrow> nat list \<Rightarrow> nat \<Rightarrow> 'conn option list \<times> int" where
  "connectN dial order n = fold (connectOne dial) order (replicate n None, 0)"

text \<open>One client of the echo scenario: it sends a stamped payload and waits for the echo. \<open>EchoReadFails\<close> says
  whether the context was done when the read failed.\<close>

datatype echoEvent = EchoDone | EchoWriteFails | EchoReadFails bool | EchoTrip int

fun echoLoop :: "echoEvent list \<Rightarrow> latencyCollector \<times> int \<times> int \<Rightarrow> latencyCollector \<times> int \<times> int" where
  "echoLoop [] s = s"
| "echoLoop (EchoDone # evs) s = s"
| "echoLoop (EchoWriteFails # evs) (lc, trips, errs) = (lc, trips, errs + 1)"
| "echoLoop (EchoReadFails ctxDone # evs) (lc, trips, errs) = (lc, trips, if ctxDone then errs else errs + 1)"
| "echoLoop (EchoTrip rtt # evs) (lc, trips, errs) = echoLoop evs (lc_add rtt lc, trips + 1, errs)"

text \<open>The churner: each tick starts a goroutine that dials and, when it got a connection, closes it
  later. \<open>cs_open\<close> are the goroutines between the two counters.\<close>

record churnStats =
  cs_connects :: int
  cs_disconnects :: int
  cs_errors :: int
  cs_open :: nat

datatype churnEvent = DialFailed | Dialled | Disconnected

fun churnStep :: "churnEvent \<Rightarrow> churnStats \<Rightarrow> churnStats" where
  "churnStep DialFailed cs = cs\<lparr>cs_errors := cs_errors cs + 1\<rparr>"
| "churnStep Dialled cs = cs\<lparr>cs_connects := cs_connects cs + 1, cs_open := Suc (cs_open cs)\<rparr>"
| "churnStep Disconnected cs =
     (if cs_open cs = 0 then cs
      else cs\<lparr>cs_disconnects := cs_disconnects cs + 1, cs_open := cs_open cs - 1\<rparr>)"

definition startChurner :: "churnEvent list \<Rightarrow> churnStats" where
  "startChurner evs = fold churnStep evs \<lparr>cs_connects = 0, cs_disconnects = 0, cs_errors = 0, cs_open = 0\<rparr>"

subsection \<open>Rooms\<close>

definition roomName :: "int \<Rightarrow> nat \<Rightarrow> string" where
  "roomName numRooms i = ''room-'' @ showInt (int i mod \<bar>numRooms\<bar>)"

fun assignLoop :: "env \<Rightarrow> int \<Rightarrow> nat \<Rightarrow> cref list \<Rightarrow> hub \<Rightarrow> hub" where
  "assignLoop e numRooms i [] h = h"
| "assignLoop e numRooms i (c # cs) h = assignLoop e numRooms (Suc i) cs (snd (JoinRoom e c (roomName numRooms i) h))"

definition assignRooms :: "env \<Rightarrow> int \<Rightarrow> hub \<Rightarrow> (nat \<times> hub) option" where
  "assignRooms e numRooms h =
     (if numRooms = 0 \<and> Clients h \<noteq> [] then None
      else Some (length (Clients h), assignLoop e numRooms 0 (Clients h) h))"

definition pickRoomSenders :: "'conn option list \<Rightarrow> nat \<Rightarrow> nat \<Rightarrow> 'conn list" where
  "pickRoomSenders conns numRooms perRoom =
     List.map_filter (\<lambda>i. if i * perRoom < length conns then conns ! (i * perRoom) else None)
       [0..<min numRooms (length conns)]"

subsection \<open>Scenarios\<close>

definition fanoutHandler :: "env \<Rightarrow> Message \<Rightarrow> hub \<Rightarrow> wsError option \<times> hub" where
  "fanoutHandler e msg h = (None, Broadcast e (msg_Data msg) h)"

definition roomsHandler :: "env \<Rightarrow> cref \<Rightarrow> Message \<Rightarrow> hub \<Rightarrow> wsError option \<times> hub" where
  "roomsHandler e c msg h =
     (case Rooms e c h of [] \<Rightarrow> (None, h) | n # _ \<Rightarrow> (None, snd (BroadcastToRoom e n (msg_Data msg) h)))"

definition echoHandler :: "env \<Rightarrow> cref \<Rightarrow> Message \<Rightarrow> hub \<Rightarrow> wsError option \<times> hub" where
  "echoHandler e c msg h = Send e c (msg_Data msg) h"

definition scenarios :: "string list" where
  "scenarios = [''connect'', ''fanout'', ''rooms'', ''echo'', ''churn'']"

text \<open>The scenarios \<open>main\<close> runs, or \<open>None\<close> for the exit with an error.\<close>

definition mainScenarios :: "string \<Rightarrow> string list option" where
  "mainScenarios s = (if s = ''all'' then Some scenarios else if s \<in> set scenarios then Some [s] else None)"

definition latStr :: "int \<Rightarrow> string" where
  "latStr d =
     (if d = 0 then ''n/a''
      else if of_int d / 1000 < (1000 :: real) then fixed 0 (of_int d / 1000) @ ''us''
      else if of_int d / 1000000 < (1000 :: real) then fixed 2 (of_int d / 1000000) @ ''ms''
      else fixed 2 (of_int d / 1000000000) @ ''s'')"

definition formatSize :: "real \<Rightarrow> string" where
  "formatSize b =
     (if 2 ^ 30 \<le> \<bar>b\<bar> then fixed 2 (b / 2 ^ 30) @ '' GB''
      else if 2 ^ 20 \<le> \<bar>b\<bar> then fixed 2 (b / 2 ^ 20) @ '' MB''
      else if 2 ^ 10 \<le> \<bar>b\<bar> then fixed 2 (b / 2 ^ 10) @ '' KB''
      else fixed 0 b @ '' B'')"

subsection \<open>Payloads carry their timestamp\<close>

lemma putUint64_length [simp]: "length (putUint64 v) = 8"
  by (simp add: putUint64_def)

lemma base256_sum: "0 \<le> v \<Longrightarrow> (\<Sum>i<n. (v div 256 ^ i mod 256) * 256 ^ i) = v mod (256 :: int) ^ n"
proof (induction n)
  case (Suc n)
  have "v mod 256 ^ Suc n = 256 ^ n * (v div 256 ^ n mod 256) + v mod 256 ^ n"
    using zmod_zmult2_eq [of 256 v "256 ^ n"] by (simp add: mult.commute)
  then show ?case using Suc by (simp add: algebra_simps)
qed simp

lemma getUint64_putUint64: "0 \<le> v \<Longrightarrow> v < 2 ^ 64 \<Longrightarrow> getUint64 (putUint64 v @ rest) = v"
proof -
  assume v: "0 \<le> v" "v < 2 ^ 64"
  have "getUint64 (putUint64 v @ rest) = (\<Sum>i<8. (v div 256 ^ i mod 256) * 256 ^ i)"
    unfolding getUint64_def by (rule sum.cong) (auto simp: putUint64_def nth_append of_char_of)
  also have "\<dots> = v mod 256 ^ 8" by (rule base256_sum [OF v(1)])
  finally show ?thesis using v by simp
qed

lemma wrap64_mod: "wrap64 (x mod 2 ^ 64) = wrap64 x"
  by (simp add: wrap64_def mod_add_left_eq)

lemma readMessage_stamped:
  "readMessage now (stampPayload t buf) (lc, n) = (lc_add (wrap64 (now - wrap64 t)) lc, n + 1)"
  by (simp add: readMessage_def stampPayload_def getUint64_putUint64 [of _ "[]", simplified] wrap64_mod [simplified])

lemma stampPayload_length: "8 \<le> length buf \<Longrightarrow> length (stampPayload now buf) = length buf"
  by (simp add: stampPayload_def)

lemma makePayload_length: "length (makePayload now sz) = nat (max 8 sz)"
  by (simp add: makePayload_def Let_def stampPayload_def)

lemma wrap64_latency: "0 \<le> t \<Longrightarrow> t < 2 ^ 63 \<Longrightarrow> 0 \<le> now \<Longrightarrow> now < 2 ^ 63 \<Longrightarrow> wrap64 (now - wrap64 t) = now - t"
  by (simp add: wrap64_id)

lemma senderLoop_writes:
  "8 \<le> length payload \<Longrightarrow>
    senderLoop (map (\<lambda>t. SendTick t True) ts) payload (out, n) =
      (out @ map (\<lambda>t. stampPayload t payload) ts, n + int (length ts))"
proof (induction ts arbitrary: payload out n)
  case (Cons t ts)
  have "stampPayload t' (stampPayload t payload) = stampPayload t' payload" for t'
    by (simp add: stampPayload_def)
  then show ?case using Cons.IH [of "stampPayload t payload"] Cons.prems by (simp add: Let_def stampPayload_length)
qed simp

lemma readLoop_measures:
  "length nows = length ts \<Longrightarrow> \<forall>t\<in>set ts \<union> set nows. 0 \<le> t \<and> t < 2 ^ 63 \<Longrightarrow>
    readLoop_load (zip nows (map (\<lambda>t. Some (stampPayload t payload)) ts)) (lc, n) =
      (lc\<lparr>lc_samples := lc_samples lc @ map2 (-) nows ts\<rparr>, n + int (length ts))"
proof (induction nows ts arbitrary: lc n rule: list_induct2)
  case (Cons now nows t ts)
  then show ?case by (simp add: readMessage_stamped wrap64_latency lc_add_def)
qed simp

subsection \<open>Percentiles\<close>

text \<open>\<open>p\<close> is a value of \<open>xs\<close> with at most \<open>k\<close> percent of the values below it and more than that up to it.\<close>

definition isPercentile :: "nat \<Rightarrow> int \<Rightarrow> int list \<Rightarrow> bool" where
  "isPercentile k p xs \<longleftrightarrow> p \<in> set xs \<and> length (filter (\<lambda>x. x < p) xs) \<le> length xs * k div 100 \<and>
     length xs * k div 100 < length (filter (\<lambda>x. x \<le> p) xs)"

lemma isPercentile_mset: "mset xs = mset ys \<Longrightarrow> isPercentile k p xs = isPercentile k p ys"
  unfolding isPercentile_def by (metis mset_filter size_mset set_mset_mset)

lemma sorted_nth_filter:
  fixes xs :: "int list"
  assumes "sorted xs" and i: "i < length xs"
  shows "length (filter (\<lambda>x. x < xs ! i) xs) \<le> i" and "i < length (filter (\<lambda>x. x \<le> xs ! i) xs)"
proof -
  have "filter (\<lambda>x. x < xs ! i) (drop i xs) = []"
    using assms by (auto simp: filter_empty_conv in_set_conv_nth not_less intro!: sorted_nth_mono)
  then have "filter (\<lambda>x. x < xs ! i) xs = filter (\<lambda>x. x < xs ! i) (take i xs)"
    by (metis append_Nil2 append_take_drop_id filter_append)
  then show "length (filter (\<lambda>x. x < xs ! i) xs) \<le> i"
    by (metis length_filter_le length_take min.absorb2 min.bounded_iff)
  have "filter (\<lambda>x. x \<le> xs ! i) (take (Suc i) xs) = take (Suc i) xs"
    using assms by (auto simp: filter_id_conv in_set_conv_nth intro!: sorted_nth_mono)
  then have "Suc i \<le> length (filter (\<lambda>x. x \<le> xs ! i) (take (Suc i) xs @ drop (Suc i) xs))"
    using i by (simp only: filter_append length_append) simp
  then show "i < length (filter (\<lambda>x. x \<le> xs ! i) xs)" by simp
qed

lemma percentile_nth:
  assumes "xs \<noteq> []" and "k < 100"
  shows "isPercentile k (sort xs ! (length xs * k div 100)) xs"
proof -
  let ?i = "length xs * k div 100"
  have i: "?i < length (sort xs)" using assms by (simp add: div_less_iff_less_mult)
  have "isPercentile k (sort xs ! ?i) (sort xs)"
    using sorted_nth_filter [OF sorted_sort i] i by (simp only: isPercentile_def nth_mem length_sort simp_thms)
  then show ?thesis using isPercentile_mset [of "sort xs" xs] by simp
qed

lemma percentiles_order:
  assumes ne: "lc_samples lc \<noteq> []" and "percentiles lc = ((p50, p95, p99, pMax), lc')"
  shows "isPercentile 50 p50 (lc_samples lc) \<and> isPercentile 95 p95 (lc_samples lc) \<and> isPercentile 99 p99 (lc_samples lc) \<and>
    pMax = Max (set (lc_samples lc)) \<and> p50 \<le> p95 \<and> p95 \<le> p99 \<and> p99 \<le> pMax \<and> percentiles lc' = ((p50, p95, p99, pMax), lc')"
proof -
  let ?xs = "sort (lc_samples lc)" and ?n = "length (lc_samples lc)"
  have n: "0 < ?n" using ne by simp
  have p: "p50 = ?xs ! (?n * 50 div 100)" "p95 = ?xs ! (?n * 95 div 100)" "p99 = ?xs ! (?n * 99 div 100)"
    "pMax = ?xs ! (?n - 1)" "lc' = lc\<lparr>lc_samples := ?xs\<rparr>"
    using assms by (auto simp: percentiles_def Let_def)
  have i: "?n * 50 div 100 \<le> ?n * 95 div 100" "?n * 95 div 100 \<le> ?n * 99 div 100" "?n * 99 div 100 \<le> ?n - 1"
    using n by (auto intro!: div_le_mono)
  have mono: "?xs ! a \<le> ?xs ! b" if "a \<le> b" "b \<le> ?n - 1" for a b
  proof -
    have "b < ?n" using that(2) n by linarith
    with that(1) show ?thesis by (intro sorted_nth_mono) simp_all
  qed
  have "pMax = Max (set ?xs)"
  proof (rule Max_eqI [symmetric])
    show "pMax \<in> set ?xs" using n unfolding p(4) by (intro nth_mem) simp
    show "x \<le> pMax" if "x \<in> set ?xs" for x
    proof -
      from that obtain j where j: "j < length ?xs" "?xs ! j = x" unfolding in_set_conv_nth by auto
      then have "j \<le> ?n - 1" by simp
      with mono [of j "?n - 1"] j(2) p(4) show ?thesis by simp
    qed
  qed simp
  moreover have "?xs \<noteq> []" using n by (metis length_sort length_greater_0_conv)
  then have "percentiles lc' = ((p50, p95, p99, pMax), lc')"
    by (simp add: percentiles_def p Let_def sorted_sort_id)
  moreover have "isPercentile 50 p50 (lc_samples lc)" "isPercentile 95 p95 (lc_samples lc)" "isPercentile 99 p99 (lc_samples lc)"
    unfolding p by (rule percentile_nth [OF ne], simp)+
  moreover have "p50 \<le> p95" unfolding p by (rule mono) (use i in linarith)+
  moreover have "p95 \<le> p99" unfolding p by (rule mono) (use i in linarith)+
  moreover have "p99 \<le> pMax" unfolding p by (rule mono) (use i in linarith)+
  ultimately show ?thesis by simp
qed

text \<open>C40: What the load test reports is measured: when a sender stamps its payload at the times \<open>ts\<close> and a
  reader gets these messages at the times \<open>nows\<close>, the messages keep their size, the collector holds exactly
  the differences, every index of \<open>percentiles\<close> is in range, and its results are the 50th, 95th and 99th percentile
  and the maximum of the differences, in order.\<close>

theorem latencies_measured:
  fixes t0 sz :: int and cap :: nat
  assumes "length nows = length ts" and "ts \<noteq> []" and "\<forall>t\<in>set ts \<union> set nows. 0 \<le> t \<and> t < 2 ^ 63"
  defines "out \<equiv> fst (senderLoop (map (\<lambda>t. SendTick t True) ts) (makePayload t0 sz) ([], 0))"
  defines "lc \<equiv> fst (readLoop_load (zip nows (map Some out)) (newLatencyCollector cap, 0))"
  assumes "percentiles lc = ((p50, p95, p99, pMax), lc')"
  shows "length out = length ts \<and> (\<forall>msg\<in>set out. length msg = nat (max 8 sz)) \<and>
    lc_samples lc = map2 (-) nows ts \<and>
    isPercentile 50 p50 (map2 (-) nows ts) \<and> isPercentile 95 p95 (map2 (-) nows ts) \<and>
    isPercentile 99 p99 (map2 (-) nows ts) \<and> pMax = Max (set (map2 (-) nows ts)) \<and>
    p50 \<le> p95 \<and> p95 \<le> p99 \<and> p99 \<le> pMax"
proof -
  have len: "8 \<le> length (makePayload t0 sz)" by (simp add: makePayload_length)
  have out: "out = map (\<lambda>t. stampPayload t (makePayload t0 sz)) ts"
    using senderLoop_writes [OF len, of ts "[]" 0] by (simp add: out_def)
  then have lc: "lc_samples lc = map2 (-) nows ts"
    using readLoop_measures [OF assms(1,3), of "makePayload t0 sz" "newLatencyCollector cap" 0]
    by (simp add: lc_def newLatencyCollector_def comp_def)
  then have "lc_samples lc \<noteq> []" using assms(1,2) by (cases nows; cases ts) auto
  from percentiles_order [OF this assms(6)] lc show ?thesis
    using len by (auto simp: out stampPayload_length makePayload_length)
qed

theorem latencies_measured_witness:
  "fst (percentiles (fst (readLoop_load (zip [15, 40, 27] (map Some
     (fst (senderLoop (map (\<lambda>t. SendTick t True) [10, 20, 25]) (makePayload 0 128) ([], 0))))) (newLatencyCollector 10, 0)))) =
   (5, 20, 20, 20)"
proof -
  let ?out = "fst (senderLoop (map (\<lambda>t. SendTick t True) [10, 20, 25]) (makePayload 0 128) ([], 0))"
  let ?lc = "fst (readLoop_load (zip [15, 40, 27] (map Some ?out)) (newLatencyCollector 10, 0))"
  obtain p50 p95 p99 pMax lc' where r: "percentiles ?lc = ((p50, p95, p99, pMax), lc')"
    by (metis prod.exhaust)
  have "lc_samples ?lc = [5, 20, 2]"
    using latencies_measured [of "[15, 40, 27]" "[10, 20, 25]", OF _ _ _ r] by simp
  then show ?thesis by (simp add: percentiles_def Let_def)
qed

subsection \<open>Connections\<close>

text \<open>The result of \<open>connectN\<close> does not depend on the order in which the handshakes finish, and the errors
  are the empty slots.\<close>

lemma connectOne_slots:
  assumes "distinct order" and "set order \<subseteq> {..<length conns}" and "\<forall>i\<in>set order. conns ! i = None"
  shows "fold (connectOne dial) order (conns, errs) =
    (map (\<lambda>i. if i \<in> set order then dial i else conns ! i) [0..<length conns],
     errs + int (length (filter (\<lambda>i. dial i = None) order)))"
  using assms
proof (induction order arbitrary: conns errs)
  case Nil
  then show ?case by (simp add: map_nth)
next
  case (Cons i order)
  show ?case
  proof (cases "dial i")
    case None
    have "map (\<lambda>j. if j \<in> set order then dial j else conns ! j) [0..<length conns] =
        map (\<lambda>j. if j \<in> set (i # order) then dial j else conns ! j) [0..<length conns]"
      using Cons.prems None by (intro map_cong) auto
    then show ?thesis using Cons.IH [of conns "errs + 1"] Cons.prems None by (simp add: connectOne_def)
  next
    case (Some c)
    have "map (\<lambda>j. if j \<in> set order then dial j else conns[i := Some c] ! j) [0..<length conns] =
        map (\<lambda>j. if j \<in> set (i # order) then dial j else conns ! j) [0..<length conns]"
      using Cons.prems Some by (intro map_cong) (auto simp: nth_list_update)
    moreover have "\<forall>j\<in>set order. conns[i := Some c] ! j = None"
      using Cons.prems by (auto simp: nth_list_update)
    ultimately show ?thesis
      using Cons.IH [of "conns[i := Some c]" errs] Cons.prems Some by (simp add: connectOne_def)
  qed
qed

lemma connectN_result:
  assumes "distinct order" and "set order = {..<n}"
  shows "connectN dial order n = (map dial [0..<n], int (length (filter (\<lambda>c. c = None) (map dial [0..<n]))))"
proof -
  have "mset order = mset [0..<n]" using set_eq_iff_mset_eq_distinct [of order "[0..<n]"] assms by (simp add: atLeast0LessThan)
  then have "length (filter (\<lambda>i. dial i = None) order) = length (filter (\<lambda>i. dial i = None) [0..<n])"
    by (metis mset_filter size_mset)
  then show ?thesis
    using connectOne_slots [of order "replicate n None" dial 0] assms
    by (simp add: connectN_def filter_map comp_def)
qed

lemma churn_balanced: "cs_connects (startChurner evs) = cs_disconnects (startChurner evs) + int (cs_open (startChurner evs))"
proof -
  have "cs_connects (fold churnStep evs cs) = cs_disconnects (fold churnStep evs cs) + int (cs_open (fold churnStep evs cs))"
    if "cs_connects cs = cs_disconnects cs + int (cs_open cs)" for cs
    using that
  proof (induction evs arbitrary: cs)
    case (Cons ev evs)
    then show ?case by (cases ev) auto
  qed simp
  then show ?thesis by (simp add: startChurner_def)
qed

text \<open>A ticker runs for rates between one per second and one per nanosecond.\<close>

lemma tickerPeriod_runs: "tickerPeriod rate \<noteq> None \<longleftrightarrow> 1 \<le> rate \<and> rate \<le> 1000000000"
proof (cases rate "0 :: int" rule: linorder_cases)
  case less
  then have "0 \<le> 1000000000 div - rate" by (simp add: pos_imp_zdiv_nonneg_iff)
  with less show ?thesis by (simp add: tickerPeriod_def go_div_def Second_def Let_def)
next
  case greater
  then show ?thesis
    using pos_imp_zdiv_pos_iff [of rate 1000000000] by (auto simp: tickerPeriod_def go_div_def Second_def Let_def)
qed (simp add: tickerPeriod_def)

subsection \<open>Rooms\<close>

lemma roomName_nonempty [simp]: "roomName k i \<noteq> []"
  by (simp add: roomName_def)

text \<open>Without limits and without a hook that refuses, a client in no room joins.\<close>

lemma JoinRoom_free:
  assumes inv: "registry_inv h" and e: "env_ok e" and hook: "BeforeRoomJoin (e_hooks e) = None"
    and lim: "MaxClientsPerRoom (h_limits h) \<le> 0" "MaxRoomsPerClient (h_limits h) \<le> 0"
    and c: "c \<in> h_clients h" "c_rooms (h_mem h c) = {}" and n: "n \<noteq> []"
  obtains h' where "JoinRoom e c n h = (None, h')" and "joined c n h h'" and "registry_inv h'"
proof -
  obtain res h' where j: "JoinRoom e c n h = (res, h')" by force
  have h: "hooks_observe e" "rooms_struct h" and agree: "c \<notin> members h n"
    using e inv c by (auto simp: env_ok_def registry_inv_def rooms_agree_def)
  from j h have "res = None"
  proof (cases rule: JoinRoom_cases)
    case (rejected err)
    then show ?thesis using hook by (simp add: callBeforeRoomJoin_def)
  qed (use n c lim agree in \<open>auto simp: at_limit_def\<close>)
  with j that JoinRoom_joined [OF _ h] JoinRoom_inv [OF inv e j] show thesis by blast
qed

text \<open>\<open>assignRooms\<close> deals the clients out: the client at index \<open>i\<close> of the snapshot is in the room of \<open>i\<close> modulo the
  number of rooms, and in no other.\<close>

lemma indexed_Suc:
  "{f j |j. j < Suc m \<and> P j} = (if P 0 then {f 0} else {}) \<union> {f (Suc j) |j. j < m \<and> P (Suc j)}"
  by (auto simp: less_Suc_eq_0_disj)

lemma assignLoop_members:
  assumes "registry_inv h" and e: "env_ok e" and hook: "BeforeRoomJoin (e_hooks e) = None"
    and "MaxClientsPerRoom (h_limits h) \<le> 0" and "MaxRoomsPerClient (h_limits h) \<le> 0"
    and "distinct cs" and "set cs \<subseteq> h_clients h" and "\<forall>c\<in>set cs. c_rooms (h_mem h c) = {}"
  shows "members (assignLoop e k i cs h) n = members h n \<union> {cs ! j |j. j < length cs \<and> roomName k (i + j) = n}"
  using assms(1,4-)
proof (induction cs arbitrary: i h)
  case (Cons c cs)
  obtain h' where h': "JoinRoom e c (roomName k i) h = (None, h')" "joined c (roomName k i) h h'" "registry_inv h'"
    by (rule JoinRoom_free [OF Cons.prems(1) e hook Cons.prems(2,3), of c "roomName k i"])
      (use Cons.prems in simp_all)
  have same: "h_limits h' = h_limits h" "h_clients h' = h_clients h"
    "\<And>x. x \<noteq> c \<Longrightarrow> c_rooms (h_mem h' x) = c_rooms (h_mem h x)"
    "members h' = (members h)(roomName k i := insert c (members h (roomName k i)))"
    using h'(2) by (auto simp: joined_def same_clients_def)
  have free: "c_rooms (h_mem h' x) = {}" if "x \<in> set cs" for x
    using that same(3) [of x] Cons.prems by (metis distinct.simps(2) list.set_intros(2))
  have "members (assignLoop e k i (c # cs) h) n = members (assignLoop e k (Suc i) cs h') n" using h'(1) by simp
  also have "\<dots> = members h' n \<union> {cs ! j |j. j < length cs \<and> roomName k (Suc i + j) = n}"
    using Cons.prems free same(1,2) by (intro Cons.IH [OF h'(3)]) simp_all
  also have "\<dots> = members h n \<union> {(c # cs) ! j |j. j < length (c # cs) \<and> roomName k (i + j) = n}"
  proof -
    have "{(c # cs) ! j |j. j < length (c # cs) \<and> roomName k (i + j) = n} =
        (if roomName k i = n then {c} else {}) \<union> {cs ! j |j. j < length cs \<and> roomName k (Suc i + j) = n}"
      using indexed_Suc [of "(!) (c # cs)" "length cs" "\<lambda>j. roomName k (i + j) = n"] by simp
    then show ?thesis by (simp add: same(4))
  qed
  finally show ?case .
qed simp

lemma assignRooms_members:
  assumes "registry_inv h" and "env_ok e" and "BeforeRoomJoin (e_hooks e) = None" and snap: "snapshot_ok h"
    and "MaxClientsPerRoom (h_limits h) \<le> 0" and "MaxRoomsPerClient (h_limits h) \<le> 0"
    and "\<And>n. members h n = {}" and "assignRooms e k h = Some (m, h')"
  shows "m = card (h_clients h) \<and> members h' n = {Clients h ! i |i. i < length (Clients h) \<and> roomName k i = n}"
proof -
  have C: "set (Clients h) = h_clients h" "distinct (Clients h)" using snap by (simp_all add: snapshot_ok_def Clients_def)
  have r: "\<forall>c\<in>set (Clients h). c_rooms (h_mem h c) = {}"
    using assms(1,7) by (auto simp: registry_inv_def rooms_agree_def)
  have "m = length (Clients h)" "h' = assignLoop e k 0 (Clients h) h"
    using assms(8) by (auto simp: assignRooms_def split: if_splits)
  moreover have "length (Clients h) = card (h_clients h)" using C by (metis distinct_card)
  ultimately show ?thesis
    using assignLoop_members [OF assms(1-3,5,6) C(2) _ r, of k 0 n] assms(7) C(1) by simp
qed

text \<open>The comment of \<open>pickRoomSenders\<close> promises one sender per room. Its senders are the connections at the
  multiples of \<open>perRoom\<close>, while \<open>assignRooms\<close> deals the clients out by their index modulo the number of
  rooms: with the default flags (1000 clients, 100 rooms, 10 clients per room), even when both see the clients
  in the same order, the 100 senders are in 10 rooms only.\<close>

lemma pickRoomSenders_multiples:
  assumes "0 < p" and "k * p \<le> length cs"
  shows "pickRoomSenders (map Some cs) k p = map (\<lambda>i. cs ! (i * p)) [0..<k]"
proof -
  have "i * p < length cs" if "i < k" for i
  proof -
    have "i * p < k * p" using that assms(1) by simp
    then show ?thesis using assms(2) by (rule less_le_trans)
  qed
  moreover from assms have "k \<le> length cs" by (metis le_trans mult.right_neutral mult_le_mono2 Suc_leI One_nat_def)
  ultimately show ?thesis
    by (auto simp: pickRoomSenders_def List.map_filter_def min_absorb1 intro!: map_cong filter_True)
qed

lemma pickRoomSenders_rooms:
  "length (pickRoomSenders (map Some [0..<1000]) 100 10) = 100 \<and>
   card (roomName 100 ` set (pickRoomSenders (map Some [0..<1000]) 100 10)) = 10"
proof -
  define cs where "cs = [0..<1000 :: nat]"
  have cs: "length cs = 1000" "\<And>j. j < 1000 \<Longrightarrow> cs ! j = j" unfolding cs_def by (simp_all only: length_upt nth_upt)
  have senders: "pickRoomSenders (map Some cs) 100 10 = map (\<lambda>i. i * 10) [0..<100]"
  proof -
    have "pickRoomSenders (map Some cs) 100 10 = map (\<lambda>i. cs ! (i * 10)) [0..<100]"
      by (rule pickRoomSenders_multiples) (simp_all add: cs(1))
    also have "\<dots> = map (\<lambda>i. i * 10) [0..<100]"
      by (rule map_cong) (auto simp only: set_upt atLeastLessThan_iff intro!: cs(2))
    finally show ?thesis .
  qed
  have "int (i * 10) mod 100 = 10 * (int i mod 10)" for i
    using mod_mult_mult1 [of 10 "int i" 10] by (simp add: mult.commute)
  then have "roomName 100 (i * 10) = ''room-'' @ showInt (10 * (int i mod 10))" for i
    by (simp add: roomName_def)
  then have "roomName 100 ` set (pickRoomSenders (map Some cs) 100 10) =
      (\<lambda>i. ''room-'' @ showInt (10 * (int i mod 10))) ` {0..<100}"
    unfolding senders by (simp add: image_image)
  also have "\<dots> = (\<lambda>j. ''room-'' @ showInt (10 * j)) ` ((\<lambda>i. int i mod 10) ` {0..<100})"
    by (simp add: image_image)
  also have "(\<lambda>i. int i mod 10) ` {0..<100} = {0..<10}"
  proof (intro equalityI subsetI)
    fix j :: int
    assume "j \<in> {0..<10}"
    then have "j = int (nat j) mod 10" "nat j \<in> {0..<100}" by auto
    then show "j \<in> (\<lambda>i. int i mod 10) ` {0..<100}" by blast
  qed auto
  finally have eq: "roomName 100 ` set (pickRoomSenders (map Some cs) 100 10) =
      (\<lambda>j. ''room-'' @ showInt (10 * j)) ` {0..<10}" .
  have "inj_on (\<lambda>j. ''room-'' @ showInt (10 * j)) {0..<10}"
    by (auto simp: inj_on_def showInt_def digits_inj)
  from card_image [OF this] show ?thesis unfolding cs_def [symmetric] eq by (simp add: senders)
qed

end
