(* ===== verification/Ws_Reports.thy ===== *)
theory Ws_Reports
  imports Ws_Loadtest
begin

section \<open>The scenarios of the load test and their reports (cmd/loadtest/main.go)\<close>

text \<open>
  Each scenario as a whole, from the flags and what happened on the network to the lines it prints. The
  network is given by \<open>dial\<close> (which connection the \<open>i\<close>-th dialling returns), the order in which the dialling
  goroutines finish, the messages read with their times, and the events of the senders; the numbers
  that come from the runtime and from the hub's collector are arguments. \<open>None\<close> is a panic: a negative slice
  length or capacity, a division by zero, a ticker without a positive period. A capacity that the machine cannot
  allocate is not modelled.
\<close>

record loadFlags =
  lf_clients :: int
  lf_rooms :: int
  lf_msgRate :: int
  lf_msgSize :: int
  lf_churnRate :: int
  lf_dur :: int
  lf_parallel :: int

subsection \<open>Lines\<close>

text \<open>Labels are padded to fifteen columns.\<close>

definition row :: "string \<Rightarrow> string \<Rightarrow> string" where
  "row label v = ''  '' @ label @ replicate (15 - length label) (CHR '' '') @ '': '' @ v"

definition perSecond :: "int \<Rightarrow> int \<Rightarrow> string" where
  "perSecond n d = fixed 0 (of_int n / (of_int d / of_int Second))"

text \<open>The same quotient where the code does not ask whether the duration is zero.\<close>

definition perSecond0 :: "int \<Rightarrow> int \<Rightarrow> string" where
  "perSecond0 n d = (if d \<noteq> 0 then perSecond n d else if n = 0 then ''NaN'' else ''+Inf'')"

definition latRows :: "string \<Rightarrow> latencyCollector \<Rightarrow> string list" where
  "latRows name lc = (case fst (percentiles lc) of (p50, p95, p99, pmax) \<Rightarrow>
     [row (name @ '' p50'') (latStr p50), row (name @ '' p95'') (latStr p95), row (name @ '' p99'') (latStr p99),
      row (name @ '' max'') (latStr pmax)])"

definition throughput :: "int \<Rightarrow> int \<Rightarrow> string \<Rightarrow> string list" where
  "throughput n d unit = (if 0 < d then [row ''throughput'' (perSecond n d @ unit)] else [])"

definition connErrors :: "int \<Rightarrow> string list" where
  "connErrors errs = (if 0 < errs then [''  !! '' @ showInt errs @ '' connection errors''] else [])"

definition printHeader :: "string \<Rightarrow> string \<Rightarrow> int \<Rightarrow> string \<Rightarrow> int \<Rightarrow> int \<Rightarrow> string list" where
  "printHeader goos goarch numCPU version par goroutines =
     [''wshub load test'', replicate 50 (CHR ''=''),
      ''system         : '' @ goos @ ''/'' @ goarch @ '', '' @ showInt numCPU @ '' cores, Go '' @ version,
      if 0 < par then ''broadcast      : parallel (batch='' @ showInt par @ '')'' else ''broadcast      : serial'',
      ''goroutines     : '' @ showInt goroutines @ '' (baseline)'', '''']"

subsection \<open>Shared steps\<close>

definition dialAll :: "(nat \<Rightarrow> 'conn option) \<Rightarrow> nat list \<Rightarrow> int \<Rightarrow> ('conn option list \<times> int) option" where
  "dialAll dial order n = (if n < 0 then None else Some (connectN dial order (nat n)))"

text \<open>\<open>int(d.Seconds())\<close> and \<open>newLatencyCollector\<close>, which allocates the capacity.\<close>

definition wholeSeconds :: "int \<Rightarrow> int" where
  "wholeSeconds d = go_div d Second"

definition collector :: "int \<Rightarrow> latencyCollector option" where
  "collector capacity = (if wrap64 capacity < 0 then None else Some (newLatencyCollector (nat (wrap64 capacity))))"

text \<open>All readers together: the messages in the order in which they are recorded.\<close>

definition recorded :: "(int \<times> bytes) list \<Rightarrow> latencyCollector \<Rightarrow> latencyCollector \<times> int" where
  "recorded reads lc = fold (\<lambda>(now, msg). readMessage now msg) reads (lc, 0)"

subsection \<open>Scenarios\<close>

definition runConnect ::
  "loadFlags \<Rightarrow> (nat \<Rightarrow> 'conn option) \<Rightarrow> nat list \<Rightarrow> int \<Rightarrow> int \<Rightarrow> int \<Rightarrow> int \<Rightarrow> int \<Rightarrow> string list option" where
  "runConnect fl dial order elapsed heapGrowth grBefore grAfter active =
     (case dialAll dial order (lf_clients fl) of
        None \<Rightarrow> None
      | Some (conns, errs) \<Rightarrow>
          let n = lf_clients fl; connected = n - errs;
              memPerConn = (if 0 < connected then of_int heapGrowth / of_int connected else (0 :: real));
              grPerConn = (if 0 < connected then of_int (grAfter - grBefore) / of_int connected else (0 :: real))
          in Some ([''--- CONNECT ('' @ showInt n @ '' clients) ---'',
              row ''connected'' (showInt connected @ '' / '' @ showInt n @
                (if 0 < errs then '' ('' @ showInt errs @ '' errors)'' else [])),
              row ''time'' (showDuration (round_dur Millisecond elapsed))] @
             (if 0 < elapsed then [row ''rate'' (perSecond connected elapsed @ '' conn/s'')] else []) @
             [row ''mem/conn'' (formatSize memPerConn),
              row ''goroutines'' (showInt grAfter @ '' (+'' @ fixed 1 grPerConn @ ''/conn)''),
              row ''hub active'' (showInt active @ '' connections'')]))"

definition runFanout ::
  "loadFlags \<Rightarrow> (nat \<Rightarrow> 'conn option) \<Rightarrow> nat list \<Rightarrow> (int \<times> bytes) list \<Rightarrow> int \<Rightarrow> senderEvent list \<Rightarrow> int \<Rightarrow> int \<Rightarrow> int \<Rightarrow>
     string list option" where
  "runFanout fl dial order reads now evs dropped heap gcs =
     (let n = lf_clients fl; rate = lf_msgRate fl; d = lf_dur fl;
          title = ''--- FANOUT ('' @ showInt n @ '' clients, '' @ showInt (lf_msgSize fl) @ ''B msg, '' @ showInt rate @
            '' msg/s, '' @ showDuration d @ '') ---''
      in case dialAll dial order n of
           None \<Rightarrow> None
         | Some (conns, errs) \<Rightarrow>
             (case collector (rate * wholeSeconds d * n) of
                None \<Rightarrow> None
              | Some lc \<Rightarrow>
                  if firstConn conns = None then Some ([title] @ connErrors errs @ [''  !! no connections established''])
                  else case startBroadcaster rate (lf_msgSize fl) now evs of
                         None \<Rightarrow> None
                       | Some (written, nsent) \<Rightarrow>
                           (case recorded reads lc of (lc1, nrecv) \<Rightarrow>
                              Some ([title] @ connErrors errs @
                                [row ''sent'' (showInt nsent @ '' broadcasts''),
                                 row ''received'' (showInt nrecv @ '' messages'')] @
                                throughput nrecv d '' msg/s delivered'' @ latRows ''latency'' lc1 @
                                [row ''dropped'' (showInt dropped), row ''heap alloc'' (formatSize (of_int heap)),
                                 row ''GC cycles'' (showInt gcs)]))))"

definition runRooms ::
  "loadFlags \<Rightarrow> (nat \<Rightarrow> 'conn option) \<Rightarrow> nat list \<Rightarrow> env \<Rightarrow> hub \<Rightarrow> int \<Rightarrow> (int \<times> bytes) list \<Rightarrow> int \<Rightarrow>
     ('conn \<Rightarrow> senderEvent list) \<Rightarrow> int \<Rightarrow> int \<Rightarrow> (string list \<times> hub) option" where
  "runRooms fl dial order e h joinTime reads now evs dropped active =
     (let n = lf_clients fl; rooms = lf_rooms fl; rate = lf_msgRate fl; d = lf_dur fl in
      if rooms = 0 then None
      else
        let perRoom = max (go_div n rooms) 1;
            title = ''--- ROOMS ('' @ showInt n @ '' clients, '' @ showInt rooms @ '' rooms, '' @ showInt perRoom @ ''/room, '' @
              showInt rate @ '' msg/s, '' @ showDuration d @ '') ---''
        in case dialAll dial order n of
             None \<Rightarrow> None
           | Some (conns, errs) \<Rightarrow>
               (case (assignRooms e rooms h, collector (rate * wholeSeconds d * perRoom)) of
                  (Some (nJoined, h1), Some lc) \<Rightarrow>
                    if rooms < 0 then None
                    else
                      (case startMultiSenders (max (go_div rate rooms) 1) (lf_msgSize fl) now
                              (map evs (pickRoomSenders conns (nat rooms) (nat perRoom))) of
                         None \<Rightarrow> None
                       | Some (written, nsent) \<Rightarrow>
                           (case recorded reads lc of (lc1, nrecv) \<Rightarrow>
                              Some ([title] @ connErrors errs @
                                [row ''room joins'' (showInt (int nJoined) @ '' in '' @ showDuration (round_dur Millisecond joinTime) @
                                   '' ('' @ perSecond0 (int nJoined) joinTime @ ''/s)''),
                                 row ''sent'' (showInt nsent @ '' messages''), row ''received'' (showInt nrecv @ '' messages'')] @
                                throughput nrecv d '' msg/s delivered'' @ latRows ''latency'' lc1 @
                                [row ''dropped'' (showInt dropped), row ''active rooms'' (showInt active)], h1)))
                | _ \<Rightarrow> None))"

definition runEcho ::
  "loadFlags \<Rightarrow> (nat \<Rightarrow> 'conn option) \<Rightarrow> nat list \<Rightarrow> ('conn \<Rightarrow> echoEvent list) \<Rightarrow> string list option" where
  "runEcho fl dial order evs =
     (let n = lf_clients fl; d = lf_dur fl in
      case dialAll dial order n of
        None \<Rightarrow> None
      | Some (conns, errs) \<Rightarrow>
          (case collector (n * wholeSeconds d) of
             None \<Rightarrow> None
           | Some lc \<Rightarrow>
               (case fold (\<lambda>c. echoLoop (evs c)) (startReaders conns) (lc, 0, 0) of (lc1, trips, sendErrors) \<Rightarrow>
                  Some ([''--- ECHO ('' @ showInt n @ '' clients, '' @ showInt (lf_msgSize fl) @ ''B msg, '' @ showDuration d @ '') ---''] @
                    connErrors errs @ [row ''round-trips'' (showInt trips)] @ throughput trips d '' echo/s'' @
                    latRows ''RTT'' lc1 @
                    (if 0 < sendErrors then [row ''send errors'' (showInt sendErrors)] else [])))))"

definition runChurn ::
  "loadFlags \<Rightarrow> (nat \<Rightarrow> 'conn option) \<Rightarrow> nat list \<Rightarrow> (int \<times> bytes) list \<Rightarrow> int \<Rightarrow> senderEvent list \<Rightarrow> churnEvent list \<Rightarrow> int \<Rightarrow>
     int \<Rightarrow> string list option" where
  "runChurn fl dial order reads now evs churn dropped conns_total =
     (let n = lf_clients fl; rate = lf_msgRate fl; d = lf_dur fl;
          title = ''--- CHURN ('' @ showInt n @ '' base clients, '' @ showInt (lf_churnRate fl) @ '' churn/s, '' @ showInt rate @
            '' msg/s, '' @ showDuration d @ '') ---''
      in case dialAll dial order n of
           None \<Rightarrow> None
         | Some (conns, errs) \<Rightarrow>
             (case collector (rate * wholeSeconds d * n) of
                None \<Rightarrow> None
              | Some lc \<Rightarrow>
                  if firstConn conns = None then Some ([title] @ connErrors errs @ [''  !! no connections established''])
                  else
                    (case (startBroadcaster rate (lf_msgSize fl) now evs, tickerPeriod (lf_churnRate fl)) of
                       (Some (written, nsent), Some period) \<Rightarrow>
                         (case recorded reads lc of (lc1, nrecv) \<Rightarrow>
                            let cs = startChurner churn
                            in Some ([title] @ connErrors errs @
                              [row ''broadcasts'' (showInt nsent), row ''received'' (showInt nrecv @ '' messages'')] @
                              throughput nrecv d '' msg/s delivered'' @ latRows ''latency'' lc1 @
                              [row ''churn'' (showInt (cs_connects cs) @ '' connects, '' @ showInt (cs_disconnects cs) @ '' disconnects'')] @
                              (if 0 < cs_errors cs then [row ''churn errors'' (showInt (cs_errors cs))] else []) @
                              [row ''dropped'' (showInt dropped), row ''total conns'' (showInt conns_total)]))
                     | _ \<Rightarrow> None)))"

subsection \<open>Properties\<close>

lemma recorded_counts: "snd (recorded reads lc) = int (length reads)"
proof -
  have "snd (fold (\<lambda>(now, msg). readMessage now msg) reads (lc, k)) = k + int (length reads)" for lc k
    by (induction reads arbitrary: lc k) (auto simp: readMessage_def)
  then show ?thesis by (simp add: recorded_def)
qed

text \<open>The messages of the senders give back exactly the time they were under way.\<close>

lemma recorded_measures:
  assumes "length nows = length ts" and "\<forall>t\<in>set ts \<union> set nows. 0 \<le> t \<and> t < 2 ^ 63"
  shows "recorded (zip nows (map (\<lambda>t. stampPayload t payload) ts)) (newLatencyCollector k) =
    (\<lparr>lc_samples = map2 (-) nows ts\<rparr>, int (length ts))"
proof -
  have "fold (\<lambda>(now, msg). readMessage now msg) (zip nows (map (\<lambda>t. stampPayload t payload) ts)) (lc, n) =
      (lc\<lparr>lc_samples := lc_samples lc @ map2 (-) nows ts\<rparr>, n + int (length ts))" for lc n
    using assms
    by (induction nows ts arbitrary: lc n rule: list_induct2) (simp_all add: readMessage_stamped wrap64_latency lc_add_def)
  then show ?thesis by (simp add: recorded_def newLatencyCollector_def)
qed

lemma firstConn_None: "firstConn conns = None \<longleftrightarrow> (\<forall>c\<in>set conns. c = None)"
  by (induction conns rule: firstConn.induct) auto

lemma startBroadcaster_None: "startBroadcaster rate sz now evs = None \<longleftrightarrow> tickerPeriod rate = None"
  by (simp add: startBroadcaster_def split: option.split)

lemma tickerPeriod_None: "tickerPeriod rate = None \<longleftrightarrow> rate \<le> 0 \<or> Second < rate"
proof (cases "0 < rate")
  case True
  then have "go_div Second rate = Second div rate" by (intro go_div_pos) (simp_all add: Second_def)
  moreover have "Second div rate \<le> 0 \<longleftrightarrow> Second < rate"
    using True by (simp add: Second_def div_int_pos_iff not_less [symmetric] pos_imp_zdiv_pos_iff)
  ultimately show ?thesis using True by (simp add: tickerPeriod_def)
next
  case False
  then have "go_div Second rate \<le> 0"
    by (cases "rate = 0") (auto simp: go_div_def Second_def sgn_if div_int_pos_iff)
  with False show ?thesis by (simp add: tickerPeriod_def)
qed

text \<open>The fan-out scenario runs through unless a flag makes it panic: a negative number of clients or a negative
  capacity (a negative rate or duration, or an overflow of their product), or, once a client is connected, a
  rate that is not positive or above one message per nanosecond.\<close>

lemma runFanout_panics:
  assumes "distinct order" and "set order = {..<nat (lf_clients fl)}"
  shows "runFanout fl dial order reads now evs dropped heap gcs = None \<longleftrightarrow>
    lf_clients fl < 0 \<or> wrap64 (lf_msgRate fl * wholeSeconds (lf_dur fl) * lf_clients fl) < 0 \<or>
    ((\<exists>i<nat (lf_clients fl). dial i \<noteq> None) \<and> (lf_msgRate fl \<le> 0 \<or> Second < lf_msgRate fl))"
proof -
  obtain conns errs where c: "connectN dial order (nat (lf_clients fl)) = (conns, errs)" by fastforce
  then have conns: "conns = map dial [0..<nat (lf_clients fl)]" using connectN_result [OF assms, of dial] by simp
  have "firstConn conns = None \<longleftrightarrow> (\<forall>i<nat (lf_clients fl). dial i = None)"
    by (auto simp: firstConn_None conns)
  then show ?thesis
    using startBroadcaster_None [of "lf_msgRate fl"] tickerPeriod_None [of "lf_msgRate fl"] c
    by (auto simp: runFanout_def Let_def dialAll_def collector_def split: option.splits prod.splits)
qed

text \<open>A successful run reports the exact counts and, for stamped messages, the percentiles of the true latencies.\<close>

lemma runFanout_reports:
  assumes "runFanout fl dial order (zip nows (map (\<lambda>t. stampPayload t payload) ts)) now evs dropped heap gcs = Some out"
    and "length nows = length ts" and "\<forall>t\<in>set ts \<union> set nows. 0 \<le> t \<and> t < 2 ^ 63"
    and "last out \<noteq> ''  !! no connections established''"
  shows "row ''received'' (showInt (int (length ts)) @ '' messages'') \<in> set out"
    and "set (latRows ''latency'' \<lparr>lc_samples = map2 (-) nows ts\<rparr>) \<subseteq> set out"
  using assms(1,4) recorded_measures [OF assms(2,3), of payload]
  by (auto simp: runFanout_def Let_def collector_def split: option.splits prod.splits if_splits)

end
