(* ===== verification/Ws_Auth.thy ===== *)
theory Ws_Auth
  imports Ws_Handler Ws_UserIndex
begin

section \<open>The authentication example (examples/auth/main.go)\<close>

text \<open>
  The example issues signed tokens and accepts a connection only with a valid one. \<open>mac\<close> is HMAC-SHA256 under the
  server's key, an arbitrary function here; \<open>enc\<close> and \<open>dec\<close> are \<open>json.Marshal\<close> and \<open>json.Unmarshal\<close> of the claims. The
  unpadded URL alphabet of base64 is modelled in full, with Go's lenience: line breaks are skipped and
  the unused bits of the last character are not checked.
\<close>

subsection \<open>Base64\<close>

definition encChar :: "nat \<Rightarrow> char" where
  "encChar i = (if i < 26 then char_of (65 + i) else if i < 52 then char_of (71 + i)
     else if i < 62 then char_of (i - 4) else if i = 62 then CHR ''-'' else CHR ''_'')"

definition decChar :: "char \<Rightarrow> nat option" where
  "decChar ch = (let n = of_char ch in
     if 65 \<le> n \<and> n \<le> 90 then Some (n - 65) else if 97 \<le> n \<and> n \<le> 122 then Some (n - 71)
     else if 48 \<le> n \<and> n \<le> 57 then Some (n + 4) else if ch = CHR ''-'' then Some 62
     else if ch = CHR ''_'' then Some 63 else None)"

fun enc64 :: "nat list \<Rightarrow> nat list" where
  "enc64 (a # b # c # bs) = a div 4 # (a mod 4 * 16 + b div 16) # (b mod 16 * 4 + c div 64) # c mod 64 # enc64 bs"
| "enc64 [a, b] = [a div 4, a mod 4 * 16 + b div 16, b mod 16 * 4]"
| "enc64 [a] = [a div 4, a mod 4 * 16]"
| "enc64 [] = []"

fun dec64 :: "nat list \<Rightarrow> nat list option" where
  "dec64 (p # q # r # s # xs) =
     map_option (\<lambda>bs. (p * 4 + q div 16) # (q mod 16 * 16 + r div 4) # (r mod 4 * 64 + s) # bs) (dec64 xs)"
| "dec64 [p, q, r] = Some [p * 4 + q div 16, q mod 16 * 16 + r div 4]"
| "dec64 [p, q] = Some [p * 4 + q div 16]"
| "dec64 [p] = None"
| "dec64 [] = Some []"

definition EncodeToString :: "bytes \<Rightarrow> string" where
  "EncodeToString bs = map encChar (enc64 (map of_char bs))"

definition lineBreak :: "char \<Rightarrow> bool" where
  "lineBreak ch \<longleftrightarrow> ch = CHR 0x0A \<or> ch = CHR 0x0D"

definition DecodeString :: "string \<Rightarrow> bytes option" where
  "DecodeString s = (case those (map decChar (filter (\<lambda>ch. \<not> lineBreak ch) s)) of
       None \<Rightarrow> None | Some xs \<Rightarrow> map_option (map char_of) (dec64 xs))"

subsection \<open>Tokens\<close>

record claims =
  cl_Sub :: string
  cl_Exp :: int

datatype tokenErr = MalformedToken | InvalidSignature | DecodePayload | UnmarshalPayload | TokenExpired

text \<open>\<open>strings.SplitN(s, ".", 3)\<close>.\<close>

definition isDot :: "char \<Rightarrow> bool" where
  "isDot ch \<longleftrightarrow> ch = CHR ''.''"

fun splitDots :: "nat \<Rightarrow> string \<Rightarrow> string list" where
  "splitDots 0 s = [s]"
| "splitDots (Suc n) s = (case dropWhile (\<lambda>ch. \<not> isDot ch) s of
       [] \<Rightarrow> [s] | _ # rest \<Rightarrow> takeWhile (\<lambda>ch. \<not> isDot ch) s # splitDots n rest)"

definition validateToken :: "(bytes \<Rightarrow> bytes) \<Rightarrow> (bytes \<Rightarrow> claims option) \<Rightarrow> int \<Rightarrow> string \<Rightarrow> tokenErr + claims" where
  "validateToken mac dec now tokenStr =
     (case splitDots 2 tokenStr of
        [header, body, sig] \<Rightarrow>
          if sig \<noteq> EncodeToString (mac (header @ ''.'' @ body)) then Inl InvalidSignature
          else (case DecodeString body of
                  None \<Rightarrow> Inl DecodePayload
                | Some payload \<Rightarrow> (case dec payload of
                      None \<Rightarrow> Inl UnmarshalPayload
                    | Some c \<Rightarrow> if cl_Exp c < now div Second then Inl TokenExpired else Inr c))
      | _ \<Rightarrow> Inl MalformedToken)"

definition tokenHeader :: bytes where
  "tokenHeader = [CHR 0x7B, CHR 0x22] @ ''alg'' @ [CHR 0x22] @ '':'' @ [CHR 0x22] @ ''HS256'' @ [CHR 0x22] @ '','' @
     [CHR 0x22] @ ''typ'' @ [CHR 0x22] @ '':'' @ [CHR 0x22] @ ''JWT'' @ [CHR 0x22, CHR 0x7D]"

definition generateToken :: "(bytes \<Rightarrow> bytes) \<Rightarrow> (claims \<Rightarrow> bytes) \<Rightarrow> int \<Rightarrow> string \<Rightarrow> string" where
  "generateToken mac enc now userID =
     (let header = EncodeToString tokenHeader;
          c = \<lparr>cl_Sub = userID, cl_Exp = (now + 3600 * Second) div Second\<rparr>;
          encodedPayload = EncodeToString (enc c);
          sig = EncodeToString (mac (header @ ''.'' @ encodedPayload))
      in header @ ''.'' @ encodedPayload @ ''.'' @ sig)"

subsection \<open>The hooks and the message handler\<close>

text \<open>\<open>token\<close> is \<open>r.URL.Query().Get("token")\<close>.\<close>

definition authBeforeConnect ::
  "(bytes \<Rightarrow> bytes) \<Rightarrow> (bytes \<Rightarrow> claims option) \<Rightarrow> int \<Rightarrow> string \<Rightarrow> wsError option" where
  "authBeforeConnect mac dec now token =
     (if token = [] then Some ErrAuthenticationFailed
      else case validateToken mac dec now token of Inl _ \<Rightarrow> Some ErrAuthenticationFailed | Inr _ \<Rightarrow> None)"

definition authAfterConnect ::
  "(bytes \<Rightarrow> bytes) \<Rightarrow> (bytes \<Rightarrow> claims option) \<Rightarrow> env \<Rightarrow> string \<Rightarrow> cref \<Rightarrow> hub \<Rightarrow> hub" where
  "authAfterConnect mac dec e token c h = (case validateToken mac dec (e_now e) token of
       Inl _ \<Rightarrow> h | Inr cl \<Rightarrow> snd (SetUserID c (cl_Sub cl) h))"

definition authMiddleware :: middleware where
  "authMiddleware nxt = (\<lambda>c msg h. if GetUserID c h = [] then (Ret (Some ErrUnauthorized), h) else nxt c msg h)"

definition authHandler :: "env \<Rightarrow> handlerFunc" where
  "authHandler e c msg h =
     (Ret None, BroadcastText e (''['' @ GetUserID c h @ '']: '' @ Text msg) h)"

definition authChain :: "env \<Rightarrow> MiddlewareChain" where
  "authChain e = Build (Use authMiddleware (NewMiddlewareChain (authHandler e)))"

subsection \<open>Encoding round trip\<close>

lemma encChar_code:
  assumes "i < 64"
  shows "decChar (encChar i) = Some i" and "\<not> isDot (encChar i)" and "\<not> lineBreak (encChar i)"
proof -
  have code: "of_char (encChar i) = (if i < 26 then 65 + i else if i < 52 then 71 + i else if i < 62 then i - 4
      else if i = 62 then 45 else 95 :: nat)"
    using assms by (simp add: encChar_def)
  show "\<not> isDot (encChar i)" "\<not> lineBreak (encChar i)"
    using code assms by (auto simp: isDot_def lineBreak_def split: if_splits)
  show "decChar (encChar i) = Some i"
  proof (cases "i < 62")
    case True
    then show ?thesis using code by (auto simp: decChar_def Let_def)
  next
    case False
    then have "i = 62 \<or> i = 63" using assms by auto
    then show ?thesis by (auto simp: decChar_def encChar_def Let_def)
  qed
qed

lemma enc64_sextets: "\<forall>b\<in>set bs. b < 256 \<Longrightarrow> \<forall>x\<in>set (enc64 bs). x < 64"
  by (induction bs rule: enc64.induct) auto

lemma dec64_enc64: "\<forall>b\<in>set bs. b < 256 \<Longrightarrow> dec64 (enc64 bs) = Some bs"
  by (induction bs rule: enc64.induct) (auto simp: div_mult2_eq mod_mult2_eq)

lemma those_map_Some: "(\<And>x. x \<in> set xs \<Longrightarrow> f x = Some (g x)) \<Longrightarrow> those (map f xs) = Some (map g xs)"
  by (induction xs) auto

lemma DecodeString_EncodeToString: "DecodeString (EncodeToString bs) = Some bs"
proof -
  have b: "\<forall>b\<in>set (map of_char bs). b < (256 :: nat)" by auto
  note x = enc64_sextets [OF b]
  have "filter (\<lambda>ch. \<not> lineBreak ch) (EncodeToString bs) = EncodeToString bs"
    using x encChar_code(3) by (auto simp: EncodeToString_def filter_id_conv)
  moreover have "those (map decChar (EncodeToString bs)) = Some (enc64 (map of_char bs))"
    using x encChar_code(1) those_map_Some [of "enc64 (map of_char bs)" "\<lambda>i. decChar (encChar i)" id]
    by (simp add: EncodeToString_def comp_def)
  ultimately show ?thesis by (simp add: DecodeString_def dec64_enc64 [OF b] comp_def)
qed

lemma EncodeToString_no_dot: "ch \<in> set (EncodeToString bs) \<Longrightarrow> \<not> isDot ch"
  using enc64_sextets [of "map of_char bs"] encChar_code(2) by (auto simp: EncodeToString_def)

lemma splitDots_cons: "\<forall>ch\<in>set a. \<not> isDot ch \<Longrightarrow> splitDots (Suc n) (a @ ''.'' @ s) = a # splitDots n s"
  by (simp add: dropWhile_append2 takeWhile_append2 isDot_def)

lemma splitDots_nonempty: "splitDots n s \<noteq> []"
  by (cases n) (auto split: list.splits)

lemma splitDots_join: "splitDots n s = x # xs \<Longrightarrow> s = x @ concat (map (\<lambda>q. ''.'' @ q) xs)"
proof (induction n s arbitrary: x xs rule: splitDots.induct)
  case (2 n s)
  show ?case
  proof (cases "dropWhile (\<lambda>ch. \<not> isDot ch) s")
    case Nil
    then have "x = s \<and> xs = []" using 2(2) by (simp only: splitDots.simps list.case) auto
    then show ?thesis by simp
  next
    case (Cons d rest)
    then have d: "d = CHR ''.''" using hd_dropWhile [of "\<lambda>ch. \<not> isDot ch" s] by (simp add: isDot_def)
    obtain y ys where ys: "splitDots n rest = y # ys" using splitDots_nonempty [of n rest] by (auto simp: neq_Nil_conv)
    have x: "x = takeWhile (\<lambda>ch. \<not> isDot ch) s" "xs = y # ys" using 2(2) Cons ys by auto
    have "rest = y @ concat (map (\<lambda>q. ''.'' @ q) ys)" using 2(1) [OF Cons ys] .
    then show ?thesis using takeWhile_dropWhile_id [of "\<lambda>ch. \<not> isDot ch" s] Cons d x by simp
  qed
qed simp

text \<open>A generated token is accepted until its hour is over, and its user is the one it was issued for.\<close>

lemma generated_token_valid:
  assumes "dec (enc \<lparr>cl_Sub = u, cl_Exp = (now + 3600 * Second) div Second\<rparr>) =
      Some \<lparr>cl_Sub = u, cl_Exp = (now + 3600 * Second) div Second\<rparr>"
  shows "validateToken mac dec later (generateToken mac enc now u) =
    (if (now + 3600 * Second) div Second < later div Second then Inl TokenExpired
     else Inr \<lparr>cl_Sub = u, cl_Exp = (now + 3600 * Second) div Second\<rparr>)"
proof -
  let ?h = "EncodeToString tokenHeader"
    and ?b = "EncodeToString (enc \<lparr>cl_Sub = u, cl_Exp = (now + 3600 * Second) div Second\<rparr>)"
  have "splitDots 2 (?h @ ''.'' @ ?b @ ''.'' @ EncodeToString (mac (?h @ ''.'' @ ?b))) =
      [?h, ?b, EncodeToString (mac (?h @ ''.'' @ ?b))]"
    using splitDots_cons EncodeToString_no_dot by (simp add: numeral_2_eq_2 del: splitDots.simps(2) append.simps)
  then show ?thesis
    using assms by (simp add: generateToken_def validateToken_def Let_def DecodeString_EncodeToString)
qed

text \<open>Conversely an accepted token is signed over its first two parts and has not expired.\<close>

lemma accepted_token_signed:
  assumes "validateToken mac dec now tok = Inr c"
  obtains h b where "tok = h @ ''.'' @ b @ ''.'' @ EncodeToString (mac (h @ ''.'' @ b))"
    and "\<exists>payload. DecodeString b = Some payload \<and> dec payload = Some c" and "now div Second \<le> cl_Exp c"
proof -
  obtain h b sig where parts: "splitDots 2 tok = [h, b, sig]"
    using assms by (auto simp: validateToken_def split: list.splits)
  have "tok = h @ ''.'' @ b @ ''.'' @ sig" using splitDots_join [OF parts] by simp
  with assms parts that show thesis
    by (auto simp: validateToken_def not_less split: if_splits option.splits)
qed

text \<open>A client without a user gets nothing through: its message is refused and the hub unchanged.\<close>

lemma unauthorized_refused:
  assumes "GetUserID c h = []"
  shows "fst (Execute c msg (authChain e) h) = (Ret (Some ErrUnauthorized), h)"
  using chain_executes [of c msg "[OpUse authMiddleware, OpBuild]" "authHandler e" h] assms
  by (simp add: authChain_def authMiddleware_def)

lemma authorized_broadcasts:
  assumes "GetUserID c h \<noteq> []"
  shows "fst (Execute c msg (authChain e) h) = authHandler e c msg h"
  using chain_executes [of c msg "[OpUse authMiddleware, OpBuild]" "authHandler e" h] assms
  by (simp add: authChain_def authMiddleware_def)

end
