(* ===== verification/Ws_Chat.thy ===== *)
theory Ws_Chat
  imports Ws_Presence Ws_Format
begin

section \<open>The chat example (examples/chat/main.go)\<close>

text \<open>
  A chat server on top of the hub: a map from client IDs to user names, one handler per message type, and hooks that
  announce who joins and leaves. \<open>marshal\<close> is \<open>json.Marshal\<close> of a \<open>ChatMessage\<close>, \<open>decoded\<close> the outcome of \<open>json.Unmarshal\<close>, \<open>handle\<close> the
  opaque metadata value that stands for a user name. The asynchronous hooks run on the hub as it is
  when their goroutine runs.
\<close>

record ChatMessage =
  cm_Type :: string
  cm_Room :: string
  cm_From :: string
  cm_Message :: string
  cm_Users :: "(string \<times> string) list"
  cm_Rooms :: "(string \<times> int) list"

record ChatServer =
  ch_hub :: hub
  ch_usernames :: "string \<Rightarrow> string option"

definition chatMsg :: "string \<Rightarrow> ChatMessage" where
  "chatMsg t = \<lparr>cm_Type = t, cm_Room = '''', cm_From = '''', cm_Message = '''', cm_Users = [], cm_Rooms = []\<rparr>"

definition chatLimits :: Limits where
  "chatLimits = WithMaxClientsPerRoom 100 (WithMaxRoomsPerClient 10 (WithMaxConnectionsPerUser 5
     (WithMaxConnections 10000 DefaultLimits)))"

definition chatConfig :: "(string \<Rightarrow> string option) \<Rightarrow> Config" where
  "chatConfig url_Host = WithCompression True (WithMaxMessageSize (1024 * 1024) (DefaultConfig url_Host))"

text \<open>The hooks below reach the hub through the environment; \<open>handler\<close> is the handle of the router's chain.\<close>

definition NewChatServer :: "(string \<Rightarrow> string option) \<Rightarrow> request \<Rightarrow> string \<Rightarrow> int \<Rightarrow> nat \<Rightarrow> ChatServer" where
  "NewChatServer url_Host probe uuid numCPU handler =
     \<lparr>ch_hub = NewHub url_Host probe uuid numCPU
        [WithConfig (chatConfig url_Host), WithLimits chatLimits, WithMessageHandler (Some handler)],
      ch_usernames = (\<lambda>_. None)\<rparr>"

text \<open>\<open>SimpleLogger\<close>: the arguments are given as their texts under the verb \<open>%v\<close>.\<close>

fun logParts :: "string list \<Rightarrow> string list" where
  "logParts (k # v # args) = (k @ ''='' @ v) # logParts args"
| "logParts [x] = [x]"
| "logParts [] = []"

definition formatLogArgs :: "string list \<Rightarrow> string" where
  "formatLogArgs args = joinWith '' '' (logParts args)"

definition simpleLog :: "logLevel \<Rightarrow> string \<Rightarrow> string list \<Rightarrow> string" where
  "simpleLog level msg args = (case level of Debug \<Rightarrow> ''[DEBUG] '' | Info \<Rightarrow> ''[INFO] '' | Warn \<Rightarrow> ''[WARN] '' | Error \<Rightarrow> ''[ERROR] '') @
     msg @ '' '' @ formatLogArgs args"

text \<open>A missing key reads as the empty string.\<close>

definition username :: "cref \<Rightarrow> ChatServer \<Rightarrow> string" where
  "username c s = (case ch_usernames s (c_ID (h_mem (ch_hub s) c)) of None \<Rightarrow> '''' | Some n \<Rightarrow> n)"

definition chatSend :: "(ChatMessage \<Rightarrow> bytes) \<Rightarrow> env \<Rightarrow> cref \<Rightarrow> ChatMessage \<Rightarrow> ChatServer \<Rightarrow> wsError option \<times> ChatServer" where
  "chatSend marshal e c m s = (case Send e c (marshal m) (ch_hub s) of (res, h) \<Rightarrow> (res, s\<lparr>ch_hub := h\<rparr>))"

definition notifyRoomUsers :: "(ChatMessage \<Rightarrow> bytes) \<Rightarrow> env \<Rightarrow> string \<Rightarrow> string \<Rightarrow> ChatServer \<Rightarrow> ChatServer" where
  "notifyRoomUsers marshal e room message s =
     s\<lparr>ch_hub := snd (BroadcastToRoom e room
         (marshal ((chatMsg ''notification'')\<lparr>cm_Room := room, cm_Message := message\<rparr>)) (ch_hub s))\<rparr>"

definition sendRoomUsers :: "(ChatMessage \<Rightarrow> bytes) \<Rightarrow> env \<Rightarrow> cref \<Rightarrow> string \<Rightarrow> ChatServer \<Rightarrow> ChatServer" where
  "sendRoomUsers marshal e c room s =
     snd (chatSend marshal e c ((chatMsg ''users'')\<lparr>cm_Room := room,
       cm_Users := map (\<lambda>x. (c_ID (h_mem (ch_hub s) x), username x s)) (RoomClients room (ch_hub s))\<rparr>) s)"

subsection \<open>Hooks\<close>

definition chatAfterConnect :: "(ChatMessage \<Rightarrow> bytes) \<Rightarrow> env \<Rightarrow> cref \<Rightarrow> ChatServer \<Rightarrow> ChatServer" where
  "chatAfterConnect marshal e c s =
     snd (chatSend marshal e c ((chatMsg ''welcome'')\<lparr>cm_Message := ''Welcome to the chat server!''\<rparr>) s)"

definition chatAfterDisconnect :: "(ChatMessage \<Rightarrow> bytes) \<Rightarrow> env \<Rightarrow> cref \<Rightarrow> ChatServer \<Rightarrow> ChatServer" where
  "chatAfterDisconnect marshal e c s =
     (let name = username c s;
          s1 = s\<lparr>ch_usernames := (ch_usernames s)(c_ID (h_mem (ch_hub s) c) := None)\<rparr>
      in fold (\<lambda>room. notifyRoomUsers marshal e room (name @ '' left the room'')) (Rooms e c (ch_hub s1)) s1)"

definition chatAfterRoomJoin :: "(ChatMessage \<Rightarrow> bytes) \<Rightarrow> env \<Rightarrow> cref \<Rightarrow> string \<Rightarrow> ChatServer \<Rightarrow> ChatServer" where
  "chatAfterRoomJoin marshal e c room s =
     sendRoomUsers marshal e c room (notifyRoomUsers marshal e room (username c s @ '' joined the room'') s)"

definition chatAfterRoomLeave :: "(ChatMessage \<Rightarrow> bytes) \<Rightarrow> env \<Rightarrow> cref \<Rightarrow> string \<Rightarrow> ChatServer \<Rightarrow> ChatServer" where
  "chatAfterRoomLeave marshal e c room s = notifyRoomUsers marshal e room (username c s @ '' left the room'') s"

subsection \<open>Handlers\<close>

definition handleSetUsername ::
  "(ChatMessage \<Rightarrow> bytes) \<Rightarrow> (string \<Rightarrow> nat) \<Rightarrow> env \<Rightarrow> cref \<Rightarrow> ChatMessage \<Rightarrow> ChatServer \<Rightarrow> wsError option \<times> ChatServer" where
  "handleSetUsername marshal handle e c m s =
     (let s1 = s\<lparr>ch_usernames := (ch_usernames s)(c_ID (h_mem (ch_hub s) c) \<mapsto> cm_Message m)\<rparr>;
          s2 = s1\<lparr>ch_hub := SetMetadata ''username'' (handle (cm_Message m)) c (ch_hub s1)\<rparr>
      in chatSend marshal e c ((chatMsg ''usernameSet'')\<lparr>cm_Message := cm_Message m\<rparr>) s2)"

definition handleJoinRoom ::
  "(ChatMessage \<Rightarrow> bytes) \<Rightarrow> env \<Rightarrow> cref \<Rightarrow> ChatMessage \<Rightarrow> ChatServer \<Rightarrow> wsError option \<times> ChatServer" where
  "handleJoinRoom marshal e c m s = (case JoinRoom e c (cm_Room m) (ch_hub s) of
       (Some err, h) \<Rightarrow> (Some err, s\<lparr>ch_hub := h\<rparr>)
     | (None, h) \<Rightarrow> chatSend marshal e c ((chatMsg ''joined'')\<lparr>cm_Room := cm_Room m,
         cm_Message := ''Joined room: '' @ cm_Room m\<rparr>) (s\<lparr>ch_hub := h\<rparr>))"

definition handleLeaveRoom ::
  "(ChatMessage \<Rightarrow> bytes) \<Rightarrow> env \<Rightarrow> cref \<Rightarrow> ChatMessage \<Rightarrow> ChatServer \<Rightarrow> wsError option \<times> ChatServer" where
  "handleLeaveRoom marshal e c m s = (case LeaveRoom e c (cm_Room m) (ch_hub s) of
       (Some err, h) \<Rightarrow> (Some err, s\<lparr>ch_hub := h\<rparr>)
     | (None, h) \<Rightarrow> chatSend marshal e c ((chatMsg ''left'')\<lparr>cm_Room := cm_Room m,
         cm_Message := ''Left room: '' @ cm_Room m\<rparr>) (s\<lparr>ch_hub := h\<rparr>))"

definition handleChatMessage ::
  "(ChatMessage \<Rightarrow> bytes) \<Rightarrow> env \<Rightarrow> cref \<Rightarrow> ChatMessage \<Rightarrow> ChatServer \<Rightarrow> wsError option \<times> ChatServer" where
  "handleChatMessage marshal e c m s =
     (let data = marshal ((chatMsg ''chat'')\<lparr>cm_Room := cm_Room m, cm_From := username c s, cm_Message := cm_Message m\<rparr>)
      in if cm_Room m \<noteq> '''' then (case BroadcastToRoom e (cm_Room m) data (ch_hub s) of (res, h) \<Rightarrow> (res, s\<lparr>ch_hub := h\<rparr>))
         else (None, s\<lparr>ch_hub := Broadcast e data (ch_hub s)\<rparr>))"

definition roomList :: "env \<Rightarrow> hub \<Rightarrow> (string \<times> int) list" where
  "roomList e h = map (\<lambda>n. (n, RoomCount n h)) (RoomNames e h)"

definition handleGetRooms :: "(ChatMessage \<Rightarrow> bytes) \<Rightarrow> env \<Rightarrow> cref \<Rightarrow> ChatServer \<Rightarrow> wsError option \<times> ChatServer" where
  "handleGetRooms marshal e c s = chatSend marshal e c ((chatMsg ''rooms'')\<lparr>cm_Rooms := roomList e (ch_hub s)\<rparr>) s"

text \<open>The routes of \<open>buildRouter\<close>: \<open>event\<close> is the extracted type (empty when there is none), \<open>decoded\<close> the whole message.
  Every route but \<open>rooms\<close> needs it; an event without route is answered by the router.\<close>

definition chatRoute ::
  "(ChatMessage \<Rightarrow> bytes) \<Rightarrow> (string \<Rightarrow> nat) \<Rightarrow> env \<Rightarrow> cref \<Rightarrow> string \<Rightarrow> ChatMessage option \<Rightarrow> ChatServer \<Rightarrow> wsError option \<times> ChatServer" where
  "chatRoute marshal handle e c event decoded s =
     (let dec = (\<lambda>f. case decoded of None \<Rightarrow> (Some ErrInvalidMessage, s) | Some m \<Rightarrow> f e c m s)
      in if event = ''setUsername'' then dec (handleSetUsername marshal handle)
         else if event = ''join'' then dec (handleJoinRoom marshal)
         else if event = ''leave'' then dec (handleLeaveRoom marshal)
         else if event = ''chat'' then dec (handleChatMessage marshal)
         else if event = ''rooms'' then handleGetRooms marshal e c s
         else (Some ErrInvalidMessage, s))"

subsection \<open>Properties\<close>

text \<open>A chat message to a room is offered to exactly the members of the room, carries the sender's name, and
  is an error only when the room does not exist here and there is no other node.\<close>

lemma handleChatMessage_reaches:
  assumes "send_env e" and "hub_ok (ch_hub s)" and "handleChatMessage marshal e c m s = (res, s')"
  defines "data \<equiv> marshal ((chatMsg ''chat'')\<lparr>cm_Room := cm_Room m, cm_From := username c s, cm_Message := cm_Message m\<rparr>)"
  shows "h_mem (ch_hub s') = offered (if cm_Room m = '''' then h_clients (ch_hub s) else members (ch_hub s) (cm_Room m))
      \<lparr>si_msgType = TextMessage, si_data = data\<rparr> (ch_hub s)"
    and "same_registry (ch_hub s) (ch_hub s')" and "ch_usernames s' = ch_usernames s"
    and "res = (if cm_Room m \<noteq> '''' \<and> members (ch_hub s) (cm_Room m) = {} \<and> \<not> h_adapter (ch_hub s)
      then Some ErrRoomNotFound else None)"
proof -
  have "h_mem (ch_hub s') = offered (if cm_Room m = '''' then h_clients (ch_hub s) else members (ch_hub s) (cm_Room m))
      \<lparr>si_msgType = TextMessage, si_data = data\<rparr> (ch_hub s) \<and> same_registry (ch_hub s) (ch_hub s') \<and>
      ch_usernames s' = ch_usernames s \<and>
      res = (if cm_Room m \<noteq> '''' \<and> members (ch_hub s) (cm_Room m) = {} \<and> \<not> h_adapter (ch_hub s) then Some ErrRoomNotFound else None)"
  proof (cases "cm_Room m = ''''")
    case True
    then show ?thesis
      using assms(3) Broadcast_sends [OF assms(1,2), of TextMessage data]
      by (auto simp: handleChatMessage_def Let_def data_def Broadcast_def sends_def)
  next
    case False
    obtain r h where b: "broadcastToRoomWithType e (cm_Room m) data TextMessage (ch_hub s) = (r, h)" by force
    with False assms(3) have "res = r" "s' = s\<lparr>ch_hub := h\<rparr>"
      by (auto simp: handleChatMessage_def Let_def data_def BroadcastToRoom_def)
    with False BroadcastToRoom_sends [OF assms(1,2) False b] show ?thesis by (simp add: sends_def)
  qed
  then show "h_mem (ch_hub s') = offered (if cm_Room m = '''' then h_clients (ch_hub s) else members (ch_hub s) (cm_Room m))
      \<lparr>si_msgType = TextMessage, si_data = data\<rparr> (ch_hub s)"
    and "same_registry (ch_hub s) (ch_hub s')" and "ch_usernames s' = ch_usernames s"
    and "res = (if cm_Room m \<noteq> '''' \<and> members (ch_hub s) (cm_Room m) = {} \<and> \<not> h_adapter (ch_hub s)
      then Some ErrRoomNotFound else None)"
    by simp_all
qed

text \<open>No argument of a log call is lost: pairs share a part, and an odd argument has its own.\<close>

lemma logParts_complete:
  "length (logParts args) = (length args + 1) div 2"
  "i < length args \<Longrightarrow> logParts args ! (i div 2) =
     (if even (length args) \<or> i < length args - 1 then args ! (i - i mod 2) @ ''='' @ args ! (i - i mod 2 + 1) else args ! i)"
proof -
  show "length (logParts args) = (length args + 1) div 2" by (induction args rule: logParts.induct) auto
  show "i < length args \<Longrightarrow> logParts args ! (i div 2) =
     (if even (length args) \<or> i < length args - 1 then args ! (i - i mod 2) @ ''='' @ args ! (i - i mod 2 + 1) else args ! i)"
  proof (induction args arbitrary: i rule: logParts.induct)
    case (1 k v args)
    show ?case
    proof (cases "i < 2")
      case True
      then show ?thesis by (cases i) auto
    next
      case False
      then obtain j where j: "i = Suc (Suc j)" by (metis add_2_eq_Suc le_add_diff_inverse not_less)
      with 1 have "j < length args" by simp
      moreover have "Suc (Suc j) - j mod 2 = Suc (Suc (j - j mod 2))" by presburger
      moreover have "j < length args - 1 \<longleftrightarrow> Suc (Suc j) < Suc (length args)" using \<open>j < length args\<close> by auto
      ultimately show ?thesis using 1(1) [of j] by (simp add: j)
    qed
  qed simp_all
qed

lemma NewChatServer_settings:
  "h_limits (ch_hub (NewChatServer url_Host probe uuid n k)) = chatLimits"
  "h_onMessage (ch_hub (NewChatServer url_Host probe uuid n k)) = Some k"
  "h_clients (ch_hub (NewChatServer url_Host probe uuid n k)) = {}"
proof -
  have e: "emit_all xs h = h\<lparr>h_trace := h_trace h @ xs\<rparr>" for xs h
    by (induction xs arbitrary: h) (simp_all add: emit_def)
  show "h_limits (ch_hub (NewChatServer url_Host probe uuid n k)) = chatLimits"
    "h_onMessage (ch_hub (NewChatServer url_Host probe uuid n k)) = Some k"
    "h_clients (ch_hub (NewChatServer url_Host probe uuid n k)) = {}"
    unfolding NewChatServer_def NewHub_def Let_def
    by (auto simp: e emit_def WithConfig_def WithLimits_def WithMessageHandler_def hubLiteral_def split: option.split)
qed

text \<open>The room list has every room that has members exactly once, with its exact size.\<close>

lemma roomList_exact:
  assumes "registry_inv h" and "ranges_ok e"
  shows "distinct (map fst (roomList e h))"
    and "set (roomList e h) = {(n, int (card (members h n))) |n. members h n \<noteq> {}}"
proof -
  have s: "finite (dom (h_rooms h))" "\<And>n. h_rooms h n \<noteq> None \<longleftrightarrow> members h n \<noteq> {}"
    using assms(1) rooms_struct_exists [of h] by (auto simp: registry_inv_def rooms_struct_def)
  note r = ranges_okD(2) [OF assms(2) s(1)]
  show "distinct (map fst (roomList e h))" using r by (simp add: roomList_def RoomNames_def comp_def)
  show "set (roomList e h) = {(n, int (card (members h n))) |n. members h n \<noteq> {}}"
    using r s(2) RoomCount_members [OF assms(1)] by (auto simp: roomList_def RoomNames_def dom_def)
qed

text \<open>The loop at the end of the hook \<open>AfterDisconnect\<close> never runs: when the hook is called the hub has already
  taken the client out of its rooms. The others learn of the departure from \<open>AfterRoomLeave\<close> alone.\<close>

lemma chatAfterDisconnect_silent:
  assumes "registry_inv h" and "env_ok e" and "c \<in> h_clients h" and "ch_hub s = handleUnregister e c h"
  shows "chatAfterDisconnect marshal e c s = s\<lparr>ch_usernames := (ch_usernames s)(c_ID (h_mem h c) := None)\<rparr>"
proof -
  have u: "unregistered c h (ch_hub s)"
    using assms by (cases rule: handleUnregister_cases [OF assms(1,2), of c]) simp_all
  then have "Rooms e c (ch_hub s) = []"
    using ranges_okD(2) [of e "{}"] assms(2) by (simp add: unregistered_def Rooms_def env_ok_def)
  moreover have "c_ID (h_mem (ch_hub s) c) = c_ID (h_mem h c)" using u by (simp add: unregistered_def)
  ultimately show ?thesis by (simp add: chatAfterDisconnect_def Let_def)
qed

end
