(* ===== verification/Ws_Notify.thy ===== *)
theory Ws_Notify
  imports Ws_Format Ws_Broadcast
begin

section \<open>The notifications example (examples/notifications/main.go)\<close>

text \<open>
  A server that pushes notifications to users over the hub's user index: three ways to deliver one, the message
  handler with its background job, the hooks, and the two HTTP endpoints. \<open>marshal\<close> is \<open>json.Marshal\<close> of a
  notification, \<open>clock\<close> the formatted time of day; what \<open>json\<close> and \<open>net/http\<close> make of a request body is an argument.
\<close>

record Notification =
  no_Level :: string
  no_Title :: string
  no_Body :: string
  no_At :: string

record notifyRequest =
  nr_User :: string
  nr_Level :: string
  nr_Title :: string
  nr_Body :: string

definition newNote :: "string \<Rightarrow> string \<Rightarrow> string \<Rightarrow> Notification" where
  "newNote level title body = \<lparr>no_Level = level, no_Title = title, no_Body = body, no_At = ''''\<rparr>"

definition encode :: "(Notification \<Rightarrow> bytes option) \<Rightarrow> string \<Rightarrow> Notification \<Rightarrow> bytes option" where
  "encode marshal clock n =
     (let n1 = (if no_At n = '''' then n\<lparr>no_At := clock\<rparr> else n);
          n2 = (if no_Level n1 = '''' then n1\<lparr>no_Level := ''info''\<rparr> else n1)
      in marshal n2)"

definition notifyUser :: "(Notification \<Rightarrow> bytes option) \<Rightarrow> string \<Rightarrow> env \<Rightarrow> string \<Rightarrow> Notification \<Rightarrow> hub \<Rightarrow> hub" where
  "notifyUser marshal clock e userID n h = (case encode marshal clock n of None \<Rightarrow> h | Some data \<Rightarrow> SendToUser e userID data h)"

definition notifyClient :: "(Notification \<Rightarrow> bytes option) \<Rightarrow> string \<Rightarrow> env \<Rightarrow> cref \<Rightarrow> Notification \<Rightarrow> hub \<Rightarrow> hub" where
  "notifyClient marshal clock e c n h = (case encode marshal clock n of None \<Rightarrow> h | Some data \<Rightarrow> snd (Send e c data h))"

definition notifyAll :: "(Notification \<Rightarrow> bytes option) \<Rightarrow> string \<Rightarrow> env \<Rightarrow> Notification \<Rightarrow> hub \<Rightarrow> hub" where
  "notifyAll marshal clock e n h = (case encode marshal clock n of None \<Rightarrow> h | Some data \<Rightarrow> Broadcast e data h)"

subsection \<open>The server, its hooks and the message handler\<close>

definition notifyLimits :: Limits where
  "notifyLimits = WithMaxConnectionsPerUser 10 DefaultLimits"

definition newNotifyServer :: "(string \<Rightarrow> string option) \<Rightarrow> request \<Rightarrow> string \<Rightarrow> int \<Rightarrow> nat \<Rightarrow> hub" where
  "newNotifyServer url_Host probe uuid numCPU handler =
     NewHub url_Host probe uuid numCPU [WithLimits notifyLimits, WithMessageHandler (Some handler)]"

definition notifyBeforeConnect :: "string \<Rightarrow> wsError option" where
  "notifyBeforeConnect user = (if user = '''' then Some ErrAuthenticationFailed else None)"

definition welcomeBody :: "string \<Rightarrow> nat \<Rightarrow> string" where
  "welcomeBody user n = ''Signed in as '' @ user @ '' '' @ [CHR 0xE2, CHR 0x80, CHR 0x94] @ '' '' @ showInt (int n) @
     '' tab(s) open. Anything sent to '' @ user @ '' arrives in all of them.''"

definition notifyAfterConnect ::
  "(Notification \<Rightarrow> bytes option) \<Rightarrow> string \<Rightarrow> env \<Rightarrow> string \<Rightarrow> cref \<Rightarrow> hub \<Rightarrow> hub" where
  "notifyAfterConnect marshal clock e user c h = (case SetUserID c user h of
       (Some err, h1) \<Rightarrow> Close e c h1
     | (None, h1) \<Rightarrow> notifyClient marshal clock e c
         (newNote ''success'' ''Connected'' (welcomeBody user (length (GetClientsByUserID e user h1)))) h1)"

text \<open>The result names the user of the background job that was started, if one was; \<open>jobDone\<close> is what the job does
  when its delay is over. \<open>cmd\<close> is the type of the decoded command.\<close>

definition handleCommand ::
  "(Notification \<Rightarrow> bytes option) \<Rightarrow> string \<Rightarrow> env \<Rightarrow> cref \<Rightarrow> string option \<Rightarrow> hub \<Rightarrow> (wsError option \<times> string option) \<times> hub" where
  "handleCommand marshal clock e c cmd h =
     (if cmd \<noteq> Some ''startJob'' then ((Some ErrInvalidMessage, None), h)
      else ((None, Some (GetUserID c h)), notifyClient marshal clock e c
        (newNote ''info'' ''Job queued'' (''Export started. Close this tab if you like '' @ [CHR 0xE2, CHR 0x80, CHR 0x94] @
           '' the result follows you.'')) h))"

definition jobDone :: "(Notification \<Rightarrow> bytes option) \<Rightarrow> string \<Rightarrow> env \<Rightarrow> string \<Rightarrow> hub \<Rightarrow> hub" where
  "jobDone marshal clock e userID h = notifyUser marshal clock e userID
     (newNote ''success'' ''Export ready'' ''report.csv finished processing and is ready to download.'') h"

subsection \<open>Endpoints\<close>

datatype decodedBody = BodyTooLarge | BodyInvalid | Body notifyRequest

datatype response = HttpFail int string | Delivered string int | Online "string \<Rightarrow> int option" int

definition handleNotify ::
  "(Notification \<Rightarrow> bytes option) \<Rightarrow> string \<Rightarrow> env \<Rightarrow> string \<Rightarrow> decodedBody \<Rightarrow> hub \<Rightarrow> response \<times> hub" where
  "handleNotify marshal clock e meth body h =
     (if meth \<noteq> ''POST'' then (HttpFail 405 ''POST only'', h)
      else case body of
             BodyTooLarge \<Rightarrow> (HttpFail 413 ''body too large'', h)
           | BodyInvalid \<Rightarrow> (HttpFail 400 ''invalid JSON body'', h)
           | Body req \<Rightarrow>
               if nr_Title req = '''' then (HttpFail 400 ''title is required'', h)
               else let n = newNote (nr_Level req) (nr_Title req) (nr_Body req)
                    in if nr_User req = ''''
                       then let h1 = notifyAll marshal clock e n h in (Delivered ''broadcast'' (ClientCount h1), h1)
                       else let delivered = int (length (GetClientsByUserID e (nr_User req) h))
                            in (Delivered (nr_User req) delivered, notifyUser marshal clock e (nr_User req) n h))"

definition countUser :: "string \<Rightarrow> (string \<Rightarrow> int option) \<Rightarrow> string \<Rightarrow> int option" where
  "countUser u m = (if u = '''' then m else m(u \<mapsto> (case m u of None \<Rightarrow> 0 | Some k \<Rightarrow> k) + 1))"

definition handleOnline :: "hub \<Rightarrow> response" where
  "handleOnline h = Online (fold (\<lambda>c. countUser (GetUserID c h)) (Clients h) (\<lambda>_. None)) (ClientCount h)"

subsection \<open>Properties\<close>

lemma note_encoded: "encode marshal clock (newNote level title body) =
    marshal \<lparr>no_Level = (if level = '''' then ''info'' else level), no_Title = title, no_Body = body, no_At = clock\<rparr>"
  by (simp add: encode_def newNote_def Let_def)

text \<open>A notification to a user goes to all connections of the user and to no other one.\<close>

lemma notifyUser_reaches:
  assumes "send_env e" and "hub_ok h" and "encode marshal clock n = Some data"
  shows "h_mem (notifyUser marshal clock e u n h) = offered (users h u) \<lparr>si_msgType = TextMessage, si_data = data\<rparr> h"
    and "same_registry h (notifyUser marshal clock e u n h)"
  using SendToUser_sends [OF assms(1,2), of u TextMessage data] assms(3)
  by (simp_all add: notifyUser_def SendToUser_def sends_def)

text \<open>A request names its error, or the notification reaches exactly the clients that the answer counts.\<close>

lemma handleNotify_outcome:
  assumes "send_env e" and "hub_ok h" and r: "handleNotify marshal clock e meth body h = (resp, h')"
  obtains (failed) code msg where "resp = HttpFail code msg" and "h' = h"
  | (announced) req where "body = Body req" and "nr_User req = ''''" and "resp = Delivered ''broadcast'' (int (card (h_clients h)))"
      and "h' = notifyAll marshal clock e (newNote (nr_Level req) (nr_Title req) (nr_Body req)) h"
  | (pushed) req where "body = Body req" and "nr_User req \<noteq> ''''"
      and "resp = Delivered (nr_User req) (int (card (users h (nr_User req))))"
      and "h' = notifyUser marshal clock e (nr_User req) (newNote (nr_Level req) (nr_Title req) (nr_Body req)) h"
proof (cases "meth = ''POST'' \<and> (\<exists>req. body = Body req \<and> nr_Title req \<noteq> '''')")
  case False
  then show ?thesis using r failed by (auto simp: handleNotify_def split: if_splits decodedBody.splits)
next
  case True
  then obtain req where b: "meth = ''POST''" "body = Body req" "nr_Title req \<noteq> ''''" by blast
  let ?n = "newNote (nr_Level req) (nr_Title req) (nr_Body req)"
  have len: "length (GetClientsByUserID e u h) = card (users h u)" for u
    using userSnapshot [OF hub_okD(1) [OF assms(2)] assms(1), of u] by (metis distinct_card)
  have inv: "h_clientCount h = int (card (h_clients h))"
    using hub_okD(1) [OF assms(2)] by (simp add: registry_inv_def inv_clients_def)
  have "same_registry h (notifyAll marshal clock e ?n h)"
    using Broadcast_sends [OF assms(1,2), of TextMessage]
    by (cases "encode marshal clock ?n") (simp_all add: notifyAll_def Broadcast_def sends_def)
  then have "ClientCount (notifyAll marshal clock e ?n h) = int (card (h_clients h))"
    using inv by (simp add: ClientCount_def same_registry_def)
  then show ?thesis
    using b r announced [OF b(2)] pushed [OF b(2)] len
    by (cases "nr_User req = ''''") (auto simp: handleNotify_def Let_def)
qed

lemma fold_countUser:
  "fold (\<lambda>c. countUser (f c)) cs m u =
     (if u = '''' \<or> u \<notin> f ` set cs then m u
      else Some ((case m u of None \<Rightarrow> 0 | Some k \<Rightarrow> k) + int (length (filter (\<lambda>c. f c = u) cs))))"
  by (induction cs arbitrary: m) (auto simp: countUser_def filter_empty_conv image_iff split: option.split)

text \<open>\<open>/online\<close> reports for each user the number of registered connections.\<close>

lemma handleOnline_exact:
  assumes "hub_ok h"
  shows "\<exists>counts. handleOnline h = Online counts (int (card (h_clients h))) \<and>
    (\<forall>u. counts u = (let S = {c \<in> h_clients h. GetUserID c h = u} in if u = '''' \<or> S = {} then None else Some (int (card S))))"
proof -
  have C: "set (Clients h) = h_clients h" "distinct (Clients h)"
    using hub_okD(4,5) [OF assms] by (simp_all add: Clients_def)
  have n: "ClientCount h = int (card (h_clients h))"
    using hub_okD(1) [OF assms] by (simp add: ClientCount_def registry_inv_def inv_clients_def)
  have "length (filter (\<lambda>c. GetUserID c h = u) (Clients h)) = card {c \<in> h_clients h. GetUserID c h = u}" for u
    using distinct_card [of "filter (\<lambda>c. GetUserID c h = u) (Clients h)"] C by simp
  then show ?thesis
    using C(1) by (auto simp: handleOnline_def n fold_countUser Let_def)
qed

end
