(* ===== verification/Ws_Demos.thy ===== *)
theory Ws_Demos
  imports Ws_System Ws_Format
begin

section \<open>The small examples (examples/simple, examples/metrics, examples/multinode)\<close>

text \<open>
  Three servers that broadcast what they receive: plainly, with the sender's short ID and a metrics
  page, and on two nodes that share an adapter. Modelled are the message handlers, the construction of a
  node and the text of the pages; the HTTP servers are the standard library's.
\<close>

subsection \<open>Message handlers\<close>

text \<open>The slice \<open>client.ID[:8]\<close> panics on a shorter string.\<close>

definition shortID :: "string \<Rightarrow> string option" where
  "shortID i = (if length i < 8 then None else Some (take 8 i))"

definition tagHandler :: "(string \<Rightarrow> string \<Rightarrow> string) \<Rightarrow> env \<Rightarrow> handlerFunc" where
  "tagHandler line e c msg h = (case shortID (c_ID (h_mem h c)) of
       None \<Rightarrow> (Panic ''slice bounds out of range'', h)
     | Some i \<Rightarrow> (Ret None, BroadcastText e (line i (Text msg)) h))"

definition simpleHandler :: "env \<Rightarrow> handlerFunc" where
  "simpleHandler e c msg h = (Ret None, Broadcast e (msg_Data msg) h)"

definition metricsHandler :: "env \<Rightarrow> handlerFunc" where
  "metricsHandler = tagHandler (\<lambda>i txt. ''['' @ i @ '']: '' @ txt)"

definition nodeLine :: "string \<Rightarrow> string \<Rightarrow> string \<Rightarrow> string" where
  "nodeLine node i txt = ''['' @ i @ ''@'' @ node @ '']: '' @ txt"

definition nodeHandler :: "string \<Rightarrow> env \<Rightarrow> handlerFunc" where
  "nodeHandler node = tagHandler (nodeLine node)"

subsection \<open>Servers and pages\<close>

definition listenAddr :: "string \<Rightarrow> string" where
  "listenAddr port = (if port \<noteq> '''' then '':'' @ port else '':8080'')"

definition redisAddr :: "string \<Rightarrow> string" where
  "redisAddr addr = (if addr \<noteq> '''' then addr else ''localhost:6379'')"

definition newNode :: "(string \<Rightarrow> string option) \<Rightarrow> request \<Rightarrow> string \<Rightarrow> int \<Rightarrow> string \<Rightarrow> nat \<Rightarrow> hub" where
  "newNode url_Host probe uuid numCPU node handler =
     NewHub url_Host probe uuid numCPU
       [WithAdapter True, WithNodeID node, WithPresence (5 * Second), WithMessageHandler (Some handler)]"

definition statsPage :: "env \<Rightarrow> hub \<Rightarrow> string" where
  "statsPage e h = ''node: '' @ NodeID h @ newline @ ''local clients: '' @ showInt (ClientCount h) @ newline @
     ''global clients: '' @ showInt (GlobalClientCount e h) @ newline"

definition jsonInt :: "string \<Rightarrow> int \<Rightarrow> string" where
  "jsonInt key i = CHR 0x22 # key @ [CHR 0x22] @ '':'' @ showInt i"

definition metricsJSON :: "DebugStats \<Rightarrow> string" where
  "metricsJSON s = ''{'' @ joinWith '',''
     [jsonInt ''active_connections'' (ActiveConnections s), jsonInt ''total_connections'' (TotalConnections s),
      jsonInt ''messages_recv'' (TotalMessagesRecv s), jsonInt ''messages_sent'' (TotalMessagesSent s),
      jsonInt ''messages_dropped'' (TotalDropped s), jsonInt ''total_bytes'' (TotalMessageBytes s),
      jsonInt ''active_rooms'' (ActiveRooms s), jsonInt ''room_joins'' (TotalRoomJoins s),
      jsonInt ''room_leaves'' (TotalRoomLeaves s), jsonInt ''avg_latency_ns'' (AvgLatency s),
      jsonInt ''avg_broadcast_ns'' (AvgBroadcast s),
      CHR 0x22 # ''uptime_s'' @ [CHR 0x22] @ '':'' @ fixed 0 (of_int (StatsUptime s) / of_int Second)] @ ''}''"

definition metricsPage :: "(string set \<Rightarrow> string list) \<Rightarrow> int \<Rightarrow> DebugMetrics \<Rightarrow> string" where
  "metricsPage rng now d = dm_String rng now d"

subsection \<open>Properties\<close>

text \<open>A client whose ID is a UUID (36 characters) never makes the handlers panic.\<close>

lemma tagHandler_returns:
  assumes "8 \<le> length (c_ID (h_mem h c))"
  shows "tagHandler line e c msg h = (Ret None, BroadcastText e (line (take 8 (c_ID (h_mem h c))) (Text msg)) h)"
  using assms by (simp add: tagHandler_def shortID_def)

lemma simpleHandler_echoes:
  assumes "send_env e" and "hub_ok h" and "simpleHandler e c msg h = (r, h')"
  shows "r = Ret None" and "h_mem h' x = (if x \<in> h_clients h
      then offerItem (h_dropPolicy h) \<lparr>si_msgType = TextMessage, si_data = msg_Data msg\<rparr> (h_mem h x) else h_mem h x)"
  using Broadcast_sends [OF assms(1,2), of TextMessage "msg_Data msg"] assms(3)
  by (auto simp: simpleHandler_def Broadcast_def sends_def offered_def)

text \<open>What the multi-node example promises ("a message sent to one node is automatically relayed to clients on
  the other"): every client of node A and, when the adapter has delivered, every client of node B is offered the
  line with the sender's short ID and node A's name, once, and B does not publish it again.\<close>

lemma multinode_both_receive:
  assumes A: "send_env eA" "hub_ok hA" "h_adapter hA" and B: "send_env eB" "hub_ok hB"
    and ids: "h_nodeID hA \<noteq> h_nodeID hB" and uuid: "8 \<le> length (c_ID (h_mem hA c))"
    and r: "nodeHandler (h_nodeID hA) eA c msg hA = (res, hA')"
  defines "line \<equiv> nodeLine (h_nodeID hA) (take 8 (c_ID (h_mem hA c))) (Text msg)"
  shows "res = Ret None"
    and "h_mem hA' x = (if x \<in> h_clients hA
      then offerItem (h_dropPolicy hA) \<lparr>si_msgType = TextMessage, si_data = line\<rparr> (h_mem hA x) else h_mem hA x)"
    and "h_mem (handleAdapterMessage eB (relayed hA') hB) x = (if x \<in> h_clients hB
      then offerItem (h_dropPolicy hB) \<lparr>si_msgType = TextMessage, si_data = line\<rparr> (h_mem hB x) else h_mem hB x)"
    and "published (handleAdapterMessage eB (relayed hA') hB) = published hB"
proof -
  let ?item = "\<lparr>si_msgType = TextMessage, si_data = line\<rparr>"
  let ?msg = "zeroAdapterMessage\<lparr>am_Type := AdapterBroadcast, am_MsgType := TextMessage, am_Data := line\<rparr>"
  have res: "res = Ret None" and hA': "hA' = broadcastWithType eA line TextMessage hA"
    using r tagHandler_returns [OF uuid] by (simp_all add: nodeHandler_def line_def BroadcastText_def Broadcast_def)
  have s: "sends (h_clients hA) ?item ?msg hA hA'" unfolding hA' by (rule Broadcast_sends [OF A(1,2)])
  have t: "am_Type ?msg \<noteq> AdapterPresence" "adapterItem ?msg = ?item"
    "remote_targets (?msg\<lparr>am_NodeID := h_nodeID hA\<rparr>) hB = h_clients hB"
    using ids by (auto simp: remote_targets_def adapterItem_def adapter_type_defs zeroAdapterMessage_def)
  have d: "delivers (h_clients hB) ?item hB (handleAdapterMessage eB (relayed hA') hB)"
    using relay_delivers [OF B s A(3) ids t(1)] unfolding t(2,3) .
  show "res = Ret None" by (rule res)
  show "h_mem hA' x = (if x \<in> h_clients hA then offerItem (h_dropPolicy hA) ?item (h_mem hA x) else h_mem hA x)"
    using s by (simp add: sends_def offered_def)
  show "h_mem (handleAdapterMessage eB (relayed hA') hB) x =
      (if x \<in> h_clients hB then offerItem (h_dropPolicy hB) ?item (h_mem hB x) else h_mem hB x)"
    using sentD [of "offered (h_clients hB) ?item hB" hB] d by (simp add: delivers_def offered_def)
  show "published (handleAdapterMessage eB (relayed hA') hB) = published hB"
    using sentD [of "offered (h_clients hB) ?item hB" hB] d by (simp add: delivers_def)
qed

text \<open>The JSON page of the metrics example begins with the number of connected clients, in every reachable hub
  whose collector received every call.\<close>

lemma metricsJSON_active:
  fixes now t0 :: int
  assumes "reach hub_init hub_step h"
  defines "s \<equiv> dm_Stats now (foldl dm_collect (NewDebugMetrics t0) (metric_calls (h_trace h)))"
  shows "\<exists>rest. metricsJSON s = ''{'' @ jsonInt ''active_connections'' (int (card (h_clients h))) @ '','' @ rest"
proof -
  have "registry_inv h" by (rule sys_invD(1) [OF reachable [OF assms(1)]])
  then have "ActiveConnections s = int (card (h_clients h))"
    by (simp add: s_def dm_Stats_def debug.conns_replay NewDebugMetrics_def metric_calls_tally registry_inv_def
        inv_gauges_def inv_clients_def gauge_def)
  then show ?thesis by (simp add: metricsJSON_def joinWith_def)
qed

lemma newNode_settings:
  assumes "node \<noteq> ''''"
  shows "h_nodeID (newNode url_Host probe uuid n node k) = node" "h_adapter (newNode url_Host probe uuid n node k)"
    "h_presenceInterval (newNode url_Host probe uuid n node k) = 5 * Second"
    "h_presenceCache (newNode url_Host probe uuid n node k) = Some (\<lambda>_. None)"
    "h_onMessage (newNode url_Host probe uuid n node k) = Some k"
  using assms unfolding newNode_def NewHub_def Let_def
  by (auto simp: emit_all_eq emit_def WithAdapter_def WithNodeID_def WithPresence_def WithMessageHandler_def
      hubLiteral_def duration_defs split: option.split)

end
