(* ===== verification/Spec2Isabelle.thy ===== *)
theory Spec2Isabelle
  imports Ws_LockOrder Ws_Pool Ws_Redis Ws_Nats Ws_Loops Ws_Observers Ws_Prometheus Ws_Reports
    Ws_Auth Ws_Chat Ws_Notify Ws_Demos
begin

text \<open>
  \<^bold>\<open>wshub\<close>

  This development models wshub, a WebSocket hub library in Go (files under \<^verbatim>\<open>src/\<close>), and
  proves its components correct. Each theory translates one part of the code: a struct is a record,
  an enumeration a datatype, a method a function on the state with the code's branches.

  \<^bold>\<open>The program.\<close> A \<open>Hub\<close> (hub.go) owns the set of connected clients. Its \<open>Run\<close> loop is the only
  goroutine that registers and unregisters clients; everything else reads atomic snapshots or
  takes short locks. A \<open>Client\<close> (client.go) has a bounded send channel, a read pump and a write pump.
  Clients join rooms and belong to users; messages go to everybody, a room, a user or a client, in
  a loop or in batches on a worker pool (workerpool.go). An adapter (adapter.go) carries messages to
  the hubs of other nodes, and presence heartbeats (presence.go) add up their counts. Limits,
  configuration, hooks, middleware, router, metrics and health surround this core.

  \<^bold>\<open>Theories.\<close> In the order of their imports:
  \<^item> \<open>Ws_Prelude\<close>: 64-bit wrap-around and truncating division, slices cut into batches, the
    locales \<open>transition_system\<close> (reachable states and invariants) and \<open>bounded_queue\<close>.
  \<^item> \<open>Ws_Errors\<close> (errors.go): sentinel errors, wrapping, \<open>errors.Is\<close>.
  \<^item> \<open>Ws_Config\<close> (config.go, limits.go): configuration, defaults, warnings, origin checks.
  \<^item> \<open>Ws_Metrics\<close> (metrics.go): the collector interface as the locale \<open>metrics_collector\<close>, and
    \<open>DebugMetrics\<close>, which interprets it.
  \<^item> \<open>Ws_State\<close> (hub.go, client.go, message.go, adapter.go, hooks.go): the records of the state, with a
    store for clients and rooms because both are shared by reference; the environment.
  \<^item> \<open>Ws_Registry\<close>: the registry invariant and what operations may leave unchanged.
  \<^item> \<open>Ws_Client\<close> (client.go): construction, metadata, closing, the token bucket. \<open>Ws_Example\<close> is the
    concrete hub of the witnesses.
  \<^item> \<open>Ws_UserIndex\<close>, \<open>Ws_Rooms\<close>, \<open>Ws_Hub\<close> (hub.go, options.go): the user index, rooms, \<open>NewHub\<close> with its
    options, registration, unregistration and the Run loop.
  \<^item> \<open>Ws_Send\<close>, \<open>Ws_Broadcast\<close>, \<open>Ws_Context\<close> (hub.go, client.go): sending to one client with both drop
    policies, all broadcasts, and the blocking sends with a context.
  \<^item> \<open>Ws_Presence\<close>, \<open>Ws_Adapter\<close> (presence.go, adapter.go, hub.go): heartbeats, eviction, global counts,
    messages from other nodes, two nodes together.
  \<^item> \<open>Ws_Handler\<close> (message.go, middleware.go, router.go), \<open>Ws_ReadPump\<close> and \<open>Ws_WritePump\<close> (client.go).
  \<^item> \<open>Ws_Lifecycle\<close> (hub.go, health.go): upgrade, drain with the idle reaper, shutdown, health handlers.
  \<^item> \<open>Ws_System\<close>: all operations as one transition system \<open>hub_step\<close>.
  \<^item> \<open>Ws_Races\<close> (hub.go): the drain handshake, one step per atomic access, and the windows between a
    check and its use.
  \<^item> \<open>Ws_RoomLocks\<close> (hub.go): \<open>JoinRoom\<close>, \<open>LeaveRoom\<close> and \<open>LeaveAllRooms\<close> of any number of goroutines, one step per
    section between two releases of the locks.
  \<^item> \<open>Ws_LockOrder\<close> (hub.go, client.go): \<open>sync.Mutex\<close> and \<open>sync.RWMutex\<close>, the locale \<open>lock_hierarchy\<close> of lock sequences that
    follow a rank, and the sequences of the hub, which interpret it.
  \<^item> \<open>Ws_Pool\<close> (workerpool.go, hub.go): the worker pool as a transition system.
  \<^item> \<open>Ws_Redis\<close> (adapter/redis/redis.go) and \<open>Ws_Nats\<close> (adapter/nats/nats.go): the two adapters, with
    their \<open>Subscribe\<close> and \<open>Close\<close> calls and their goroutines interleaved step by step. The rooms, the locks, the
    pool and both adapters interpret the locale \<open>settling_system\<close> of the prelude: whatever the environment does
    not trigger comes to rest within a computed number of steps.
  \<^item> \<open>Ws_Loops\<close> (hub.go, presence.go): the goroutines \<open>runDrainReaper\<close> and \<open>runPresence\<close> as whole runs.
  \<^item> \<open>Ws_Observers\<close> (options.go, logger.go): the installed logger and collector, which receive the calls
    of the trace.
  \<^item> \<open>Ws_Prometheus\<close> (prometheus/prometheus.go): the Prometheus collector, which meets the laws of
    \<open>metrics_collector\<close> for every library that does what it documents.
  \<^item> \<open>Ws_Format\<close> (metrics.go): the verbs of \<open>fmt\<close> in use and the summary of \<open>DebugMetrics\<close>.
  \<^item> \<open>Ws_Loadtest\<close> (cmd/loadtest/main.go): payloads, readers, senders, percentiles, rooms and handlers of the
    load test; \<open>Ws_Reports\<close>: its five scenarios, from the flags to the printed lines.
  \<^item> \<open>Ws_Auth\<close>, \<open>Ws_Chat\<close>, \<open>Ws_Notify\<close>, \<open>Ws_Demos\<close> (examples): the example programs, as clients of the hub's
    operations.

  \<^bold>\<open>What is shown.\<close> The registry invariant (maps, indexes, rooms, users, limits, gauges and snapshot
  agree) is kept by every operation and so holds in every hub reachable from \<open>NewHub\<close>; the readers
  then agree with each other, the limits hold and the gauges of the metrics are exact. Each operation
  has its functional behaviour on every branch: joining, leaving, changing the user, registering,
  unregistering, sending, broadcasting with exclusions, presence, reaping idle clients, rejecting
  upgrades. The Run loop ends each turn with empty channels and answers every pending upgrade. The
  parallel send equals the sequential loop, and the pool that runs it serves each client exactly
  once and never gets stuck. The send buffer refines a bounded FIFO queue; the write pump sends a
  prefix of it in order, flushes it on a graceful close, and coalesced frames split back into the
  messages. \<open>Drain\<close> cannot miss the last disconnection. Room operations whose lock sections interleave in any way
  keep the room lists exact, both room limits and the gauge, delete only empty rooms and leave none behind; run
  alone, the sections are the operations. The locks of the hub cannot deadlock. The token bucket and the log limiter keep
  their bounds. When the Redis adapter's \<open>Close\<close> has returned its goroutines are gone; the NATS
  adapter leaks neither a subscription nor a watcher, and what one node publishes the other receives.
  Over a whole drain the reaper closes the clients that stay idle for the drain timeout and no others. A
  Prometheus collector reads the same counts as \<open>DebugMetrics\<close> and as the hub. The load test measures the
  latencies it reports, and its percentiles are order statistics. In the examples, a token is accepted
  when it is signed and fresh and every issued token is; chat messages and notifications reach exactly whom they
  name, and a message to one node of the multi-node example reaches the clients of both.

  \<^bold>\<open>Parameters and hypotheses.\<close> Code outside the repository is an argument: the hooks and handlers of
  the application, gorilla/websocket (the upgrade, each read and write), JSON encoding, \<open>url.Parse\<close>, the
  clock, the order in which \<open>range\<close> visits a map, the schedule of the workers. They are fields of
  the record \<open>env\<close> or arguments. \<open>env_ok\<close> says that map iteration visits every key once and that
  hooks only observe the registry (a hook may send, log or read); \<open>send_env\<close> says in addition that a
  schedule is a permutation of the batches, which \<open>Ws_Pool\<close> proves of the pool, and that the drop hook
  leaves the hub alone. The clients of go-redis and nats.go are the records \<open>redisEnv\<close> and \<open>natsEnv\<close>;
  \<open>redis_ok\<close> says that the channel of a closed subscription is closed. The library client_golang is the record
  \<open>promLib\<close>, and \<open>prom_ok\<close> states what it documents of gauges, counters, histograms and registration. Each such hypothesis is discharged for the concrete \<open>exampleEnv\<close>.

  \<^bold>\<open>Conventions.\<close> A Go \<open>error\<close> is a \<open>wsError option\<close>. Metrics, log lines, publications and started
  goroutines are effects appended to \<open>h_trace\<close>. A blocking operation has an \<open>option\<close> as its value, \<open>None\<close>
  while it waits. Go's \<open>int\<close> is \<open>int\<close>, with \<open>wrap64\<close> where overflow can matter; the tokens of the rate
  limiter, a \<open>float64\<close>, are real numbers. One operation reads the clock once. Only \<open>runAlone\<close> and \<open>traceLocks\<close> of the
  room sections take fuel, and \<open>sectionsLeft\<close> computes enough of it (\<open>runAlone_enough\<close>). The Run loop's drain is a
  partial function whose termination is proved, the pumps run over a given list of events, the other loops recurse on
  their data.

  \<^bold>\<open>Not modelled.\<close> The memory statistics of the runtime, which the load test prints; the HTTP servers, signals and
  pages of the example programs; doc.go, which is documentation.
  \<open>Ws_System\<close> interleaves whole operations; interleavings inside operations are modelled for the rooms, the drain
  handshake, the worker pool, the send buffer and the two adapters. The locks that are only taken alone (router,
  middleware, rate limiter, metrics) are not part of \<open>Ws_LockOrder\<close>, and a logger or collector that calls back into the
  hub is not considered. A \<open>float64\<close> is a real number except where an integer is converted for printing.
\<close>

end
